(* ===== verification/Prelude.thy ===== *)
theory Prelude
  imports Main "HOL-Library.Word"
begin

text \<open>
  Shared vocabulary of the development: the machine integers of \<^verbatim>\<open>kernel/types.h\<close>,
  the outcome of a kernel function (it returns, it panics, or it has to wait), little-endian
  byte encodings, and byte-addressed memory with the lemmas every component uses.
\<close>

unbundle bit_operations_syntax

named_theorems konst \<open>numeric constants of the kernel headers\<close>
named_theorems outcome_simps \<open>rewriting of sequenced outcomes\<close>
named_theorems mem_simps \<open>loads after stores\<close>

section \<open>Machine integers (types.h)\<close>

type_synonym byte = "8 word"
type_synonym u16 = "16 word"
type_synonym u32 = "32 word"
type_synonym u64 = "64 word"
type_synonym addr = "64 word"
type_synonym memory = "addr \<Rightarrow> byte"

section \<open>Outcomes\<close>

text \<open>
  A kernel function either returns (\<open>Ok\<close>), stops the machine through \<^verbatim>\<open>panic\<close>
  (\<open>Panic\<close> with the message of the source), or has to wait for another thread, in
  \<^verbatim>\<open>sleep\<close> or spinning on a lock (\<open>Blocks\<close>): the call does not complete from the
  present state.
\<close>

datatype 'a outcome = Ok 'a | Panic string | Blocks

primrec obind :: "'a outcome \<Rightarrow> ('a \<Rightarrow> 'b outcome) \<Rightarrow> 'b outcome" where
  "obind (Ok x) f = f x"
| "obind (Panic e) f = Panic e"
| "obind Blocks f = Blocks"

lemma obind_cong [fundef_cong]:
  "m = m' \<Longrightarrow> (\<And>x. m' = Ok x \<Longrightarrow> f x = g x) \<Longrightarrow> obind m f = obind m' g"
  by (cases m') auto

lemma obind_assoc [outcome_simps]: "obind (obind m f) g = obind m (\<lambda>x. obind (f x) g)"
  by (cases m) auto

lemma obind_Ok_iff [outcome_simps]: "obind m f = Ok y \<longleftrightarrow> (\<exists>x. m = Ok x \<and> f x = Ok y)"
  by (cases m) auto

lemma obind_OkE:
  assumes "obind m f = Ok y"
  obtains x where "m = Ok x" and "f x = Ok y"
  using assms by (cases m) auto

lemma obind_if [outcome_simps]: "obind (if b then m else m') f = (if b then obind m f else obind m' f)"
  by simp

section \<open>Little-endian encodings\<close>

primrec le_word :: "byte list \<Rightarrow> 'a::len word" where
  "le_word [] = 0"
| "le_word (b # bs) = ucast b OR push_bit 8 (le_word bs)"

primrec le_bytes :: "nat \<Rightarrow> 'a::len word \<Rightarrow> byte list" where
  "le_bytes 0 w = []"
| "le_bytes (Suc n) w = ucast w # le_bytes n (drop_bit 8 w)"

lemma length_le_bytes [simp]: "length (le_bytes n w) = n"
  by (induction n arbitrary: w) auto

lemma le_word_le_bytes: "le_word (le_bytes n w) = take_bit (8 * n) w"
proof (induction n arbitrary: w)
  case 0
  then show ?case by simp
next
  case (Suc n)
  have "bit (ucast (ucast w :: byte) OR push_bit 8 (take_bit (8 * n) (drop_bit 8 w))) k
      \<longleftrightarrow> bit (take_bit (8 * Suc n) w) k" if "k < LENGTH('a)" for k
    using that
    by (auto simp: bit_or_iff bit_push_bit_iff bit_take_bit_iff bit_drop_bit_eq bit_ucast_iff)
  then show ?case
    by (simp add: Suc.IH) (rule bit_word_eqI, simp)
qed

lemma le_word_le_bytes_full [simp]:
  "LENGTH('a) \<le> 8 * n \<Longrightarrow> le_word (le_bytes n w) = (w :: 'a::len word)"
  by (simp add: le_word_le_bytes take_bit_word_eq_self)

lemma ucast_byte_or: "(ucast (ucast b OR push_bit 8 x :: 'a::len word) :: byte) = b"
  if "8 \<le> LENGTH('a)" for b :: byte
  using that by (intro bit_word_eqI) (auto simp: bit_or_iff bit_push_bit_iff bit_ucast_iff)

lemma drop_byte_or:
  "drop_bit 8 (ucast b OR push_bit 8 x :: 'a::len word) = take_bit (LENGTH('a) - 8) x"
  if "8 \<le> LENGTH('a)" for b :: byte
  using that
  by (intro bit_word_eqI)
    (auto simp: bit_or_iff bit_push_bit_iff bit_ucast_iff bit_drop_bit_eq bit_take_bit_iff
      dest: bit_imp_le_length)

lemma take_bit_le_word: "take_bit (8 * length bs) (le_word bs :: 'a::len word) = le_word bs"
proof (induction bs)
  case Nil
  then show ?case by simp
next
  case (Cons b bs)
  have "bit (take_bit (8 * length (b # bs)) (ucast b OR push_bit 8 (take_bit (8 * length bs) (le_word bs)) :: 'a word)) k
     = bit (ucast b OR push_bit 8 (take_bit (8 * length bs) (le_word bs)) :: 'a word) k"
    if "k < LENGTH('a)" for k
    using that by (auto simp: bit_or_iff bit_push_bit_iff bit_take_bit_iff bit_ucast_iff
        dest: bit_imp_le_length)
  then show ?case
    unfolding Cons.IH by (simp del: length_Cons) (rule bit_word_eqI, simp)
qed

lemma le_bytes_le_word:
  "8 * length bs \<le> LENGTH('a) \<Longrightarrow> le_bytes (length bs) (le_word bs :: 'a::len word) = bs"
proof (induction bs)
  case Nil
  then show ?case by simp
next
  case (Cons b bs)
  have "take_bit (LENGTH('a) - 8) (le_word bs :: 'a word)
      = take_bit (LENGTH('a) - 8) (take_bit (8 * length bs) (le_word bs))"
    by (simp only: take_bit_le_word)
  also have "\<dots> = take_bit (8 * length bs) (le_word bs)"
  proof -
    have "8 * length bs \<le> LENGTH('a) - 8"
      using Cons.prems by simp
    then show ?thesis
      unfolding take_bit_take_bit by (simp only: min_absorb1 min_absorb2)
  qed
  finally have "take_bit (LENGTH('a) - 8) (le_word bs :: 'a word) = le_word bs"
    by (simp only: take_bit_le_word)
  then have "drop_bit 8 (le_word (b # bs) :: 'a word) = le_word bs"
    using Cons.prems by (subst le_word.simps, subst drop_byte_or) simp_all
  moreover have "(ucast (le_word (b # bs) :: 'a word) :: byte) = b"
    using Cons.prems by (subst le_word.simps) (rule ucast_byte_or, simp)
  ultimately show ?case
    using Cons by (simp only: length_Cons le_bytes.simps) simp
qed

section \<open>Memory\<close>

definition load :: "memory \<Rightarrow> addr \<Rightarrow> nat \<Rightarrow> byte list" where
  "load m a n = map (\<lambda>i. m (a + of_nat i)) [0..<n]"

definition store :: "memory \<Rightarrow> addr \<Rightarrow> byte list \<Rightarrow> memory" where
  "store m a bs = (\<lambda>x. if unat (x - a) < length bs then bs ! unat (x - a) else m x)"

definition load64 :: "memory \<Rightarrow> addr \<Rightarrow> u64" where
  "load64 m a = le_word (load m a 8)"

definition store64 :: "memory \<Rightarrow> addr \<Rightarrow> u64 \<Rightarrow> memory" where
  "store64 m a v = store m a (le_bytes 8 v)"

lemma length_load [simp]: "length (load m a n) = n"
  by (simp add: load_def)

lemma nth_load [simp]: "i < n \<Longrightarrow> load m a n ! i = m (a + of_nat i)"
  by (simp add: load_def)

lemma unat_less_64: "unat (a :: u64) < 2 ^ 64"
  using unsigned_less [of a] by simp

lemma unat_less_32: "unat (a :: u32) < 2 ^ 32"
  using unsigned_less [of a] by simp

lemma unat_ucast_32_64 [simp]: "unat (ucast (n :: u32) :: u64) = unat n"
proof -
  have "unat n < 2 ^ 64"
    using unat_less_32 [of n] by simp
  then show ?thesis by (simp add: unsigned_ucast_eq take_bit_nat_eq_self)
qed

lemma unat_of_nat_addr [simp]: "i < 2 ^ 64 \<Longrightarrow> unat (of_nat i :: addr) = i"
  by (simp add: unat_of_nat take_bit_nat_eq_self)

lemma unat_diff_less:
  fixes a x :: addr
  assumes "unat a + n \<le> 2 ^ 64"
  shows "unat (x - a) < n \<longleftrightarrow> unat a \<le> unat x \<and> unat x < unat a + n"
proof (cases "a \<le> x")
  case True
  then have "unat (x - a) = unat x - unat a"
    by (simp add: unat_sub)
  moreover have "unat a \<le> unat x"
    using True by (simp add: word_le_nat_alt)
  ultimately show ?thesis by auto
next
  case False
  then have lt: "unat x < unat a"
    by (simp add: word_le_nat_alt)
  have "unat (x - a) = 2 ^ 64 + unat x - unat a"
    using False by (simp add: unat_sub_if_size word_le_nat_alt word_size)
  then show ?thesis using lt assms by auto
qed

lemma load_store_same [mem_simps]:
  "length bs = n \<Longrightarrow> n \<le> 2 ^ 64 \<Longrightarrow> load (store m a bs) a n = bs"
  by (rule nth_equalityI) (auto simp: store_def)

lemma load_store_disjoint:
  "(\<And>i. i < n \<Longrightarrow> length bs \<le> unat (b + of_nat i - a)) \<Longrightarrow> load (store m a bs) b n = load m b n"
  by (rule nth_equalityI) (force simp: store_def)+

lemma load64_store64_same [mem_simps]: "load64 (store64 m a v) a = v"
  by (simp add: load64_def store64_def load_store_same)

lemma unat_add_no_wrap:
  fixes a :: addr
  assumes "unat a + i < 2 ^ 64"
  shows "unat (a + of_nat i) = unat a + i"
  using assms by (simp add: unat_word_ariths unat_of_nat take_bit_nat_eq_self)

lemma store_outside:
  fixes a x :: addr
  assumes "unat a + length bs \<le> 2 ^ 64"
    and "unat x < unat a \<or> unat a + length bs \<le> unat x"
  shows "store m a bs x = m x"
  using assms by (auto simp: store_def unat_diff_less)

lemma load_store_apart:
  fixes a b :: addr
  assumes "unat a + length bs \<le> 2 ^ 64" and "unat b + n \<le> 2 ^ 64"
    and "unat b + n \<le> unat a \<or> unat a + length bs \<le> unat b"
  shows "load (store m a bs) b n = load m b n"
proof (rule nth_equalityI)
  fix i assume "i < length (load (store m a bs) b n)"
  then have i: "i < n" by simp
  then have u: "unat (b + of_nat i) = unat b + i"
    using assms(2) by (intro unat_add_no_wrap) simp
  show "load (store m a bs) b n ! i = load m b n ! i"
    using i u assms by (subst (1 2) nth_load) (auto intro!: store_outside)
qed simp

lemma load_0 [simp]: "load m a 0 = []"
  by (simp add: load_def)

lemma store_Nil [simp]: "store m a [] = m"
  by (simp add: store_def)

lemma load_Suc: "load m a (Suc k) = m a # load m (a + 1) k"
  by (rule nth_equalityI) (auto simp: nth_Cons algebra_simps split: nat.split)

lemma load_snoc: "load m a (Suc k) = load m a k @ [m (a + of_nat k)]"
  by (simp add: load_def)

lemma unat_minus_Suc:
  fixes x a :: addr
  assumes "x \<noteq> a"
  shows "unat (x - a) = Suc (unat (x - (a + 1)))"
proof -
  have "x - a = (x - (a + 1)) + 1" by simp
  moreover have "x - (a + 1) + 1 \<noteq> 0" using assms by simp
  ultimately show ?thesis by (metis unat_eq_zero Suc_eq_plus1 unatSuc add.commute)
qed

lemma store_Cons:
  assumes "length bs < 2 ^ 64"
  shows "store m a (b # bs) = store (m(a := b)) (a + 1) bs"
proof
  fix x
  show "store m a (b # bs) x = store (m(a := b)) (a + 1) bs x"
  proof (cases "x = a")
    case True
    have "unat (a - (a + 1)) = 2 ^ 64 - 1"
      by (simp add: unsigned_minus_1_eq_mask mask_eq_exp_minus_1)
    then show ?thesis using True assms by (simp add: store_def)
  next
    case False
    then show ?thesis by (simp add: store_def unat_minus_Suc)
  qed
qed

lemma store_snoc:
  assumes "length bs < 2 ^ 64"
  shows "store m a (bs @ [b]) = (store m a bs)(a + of_nat (length bs) := b)"
proof
  fix x
  have eq: "unat (x - a) = length bs \<longleftrightarrow> x = a + of_nat (length bs)"
  proof -
    have "unat (x - a) = length bs \<longleftrightarrow> x - a = of_nat (length bs)"
      using assms by (metis unat_of_nat_addr unsigned_word_eqI)
    then show ?thesis by (auto simp: algebra_simps)
  qed
  show "store m a (bs @ [b]) x = ((store m a bs)(a + of_nat (length bs) := b)) x"
    using eq by (auto simp: store_def nth_append less_Suc_eq)
qed

lemma store_upd_end:
  assumes "length bs < 2 ^ 64"
  shows "store (m(a + of_nat (length bs) := b)) a bs = store m a (bs @ [b])"
  using assms by (simp add: store_snoc) (simp add: store_def fun_eq_iff)

lemma load_cong: "(\<And>i. i < n \<Longrightarrow> m (a + of_nat i) = m' (a + of_nat i)) \<Longrightarrow> load m a n = load m' a n"
  by (rule nth_equalityI) auto

lemma load64_store64_apart:
  fixes a b :: addr
  assumes "unat a + 8 \<le> 2 ^ 64" and "unat b + 8 \<le> 2 ^ 64"
    and "unat b + 8 \<le> unat a \<or> unat a + 8 \<le> unat b"
  shows "load64 (store64 m a v) b = load64 m b"
  using assms by (simp add: load64_def store64_def load_store_apart)

end
