(* ===== verification/Kstring.thy ===== *)
theory Kstring
  imports Prelude
begin

text \<open>
  The C library of the kernel, \<^verbatim>\<open>kernel/string.c\<close>. A pointer is an address of the
  byte memory; a loop is a recursion on the number of iterations the source makes. The lemmas
  give each routine its specification on memory, the overlap handling of \<^verbatim>\<open>memmove\<close>
  included, and on byte lists, the form in which the file system uses them.
\<close>

section \<open>memset, memcmp, memmove\<close>

text \<open>\<^verbatim>\<open>for(i = 0; i < n; i++) cdst[i] = c;\<close> after \<open>k\<close> iterations.\<close>

primrec memset_loop :: "memory \<Rightarrow> addr \<Rightarrow> byte \<Rightarrow> nat \<Rightarrow> memory" where
  "memset_loop m dst c 0 = m"
| "memset_loop m dst c (Suc k) = (memset_loop m dst c k)(dst + of_nat k := c)"

definition memset :: "memory \<Rightarrow> addr \<Rightarrow> u32 \<Rightarrow> u32 \<Rightarrow> memory" where
  "memset m dst c n = memset_loop m dst (ucast c) (unat n)"

text \<open>The two \<^verbatim>\<open>uchar\<close>s that differ first decide; their difference is the result.\<close>

fun memcmp_loop :: "memory \<Rightarrow> addr \<Rightarrow> addr \<Rightarrow> nat \<Rightarrow> int" where
  "memcmp_loop m s1 s2 0 = 0"
| "memcmp_loop m s1 s2 (Suc k) =
     (if m s1 \<noteq> m s2 then uint (m s1) - uint (m s2)
      else memcmp_loop m (s1 + 1) (s2 + 1) k)"

definition memcmp :: "memory \<Rightarrow> addr \<Rightarrow> addr \<Rightarrow> u32 \<Rightarrow> int" where
  "memcmp m v1 v2 n = memcmp_loop m v1 v2 (unat n)"

primrec copy_down :: "memory \<Rightarrow> addr \<Rightarrow> addr \<Rightarrow> nat \<Rightarrow> memory" where
  "copy_down m d s 0 = m"
| "copy_down m d s (Suc k) = copy_down (m(d - 1 := m (s - 1))) (d - 1) (s - 1) k"

primrec copy_up :: "memory \<Rightarrow> addr \<Rightarrow> addr \<Rightarrow> nat \<Rightarrow> memory" where
  "copy_up m d s 0 = m"
| "copy_up m d s (Suc k) = copy_up (m(d := m s)) (d + 1) (s + 1) k"

definition memmove :: "memory \<Rightarrow> addr \<Rightarrow> addr \<Rightarrow> u32 \<Rightarrow> memory" where
  "memmove m dst src n =
     (if n = 0 then m
      else if src < dst \<and> dst < src + ucast n
      then copy_down m (dst + ucast n) (src + ucast n) (unat n)
      else copy_up m dst src (unat n))"

definition memcpy :: "memory \<Rightarrow> addr \<Rightarrow> addr \<Rightarrow> u32 \<Rightarrow> memory" where
  "memcpy m dst src n = memmove m dst src n"

section \<open>Strings\<close>

fun strncmp_loop :: "memory \<Rightarrow> addr \<Rightarrow> addr \<Rightarrow> nat \<Rightarrow> int" where
  "strncmp_loop m p q 0 = 0"
| "strncmp_loop m p q (Suc k) =
     (if m p \<noteq> 0 \<and> m p = m q then strncmp_loop m (p + 1) (q + 1) k
      else uint (m p) - uint (m q))"

definition strncmp :: "memory \<Rightarrow> addr \<Rightarrow> addr \<Rightarrow> u32 \<Rightarrow> int" where
  "strncmp m p q n = strncmp_loop m p q (unat n)"

text \<open>The second loop of \<^verbatim>\<open>strncpy\<close>: zero the rest of the field.\<close>

primrec strncpy_pad :: "memory \<Rightarrow> addr \<Rightarrow> nat \<Rightarrow> memory" where
  "strncpy_pad m s 0 = m"
| "strncpy_pad m s (Suc k) = strncpy_pad (m(s := 0)) (s + 1) k"

fun strncpy_loop :: "memory \<Rightarrow> addr \<Rightarrow> addr \<Rightarrow> nat \<Rightarrow> memory" where
  "strncpy_loop m s t 0 = m"
| "strncpy_loop m s t (Suc k) =
     (let m' = m(s := m t) in
      if m t \<noteq> 0 then strncpy_loop m' (s + 1) (t + 1) k else strncpy_pad m' (s + 1) k)"

definition strncpy :: "memory \<Rightarrow> addr \<Rightarrow> addr \<Rightarrow> int \<Rightarrow> memory" where
  "strncpy m s t n = strncpy_loop m s t (nat n)"

fun safestrcpy_loop :: "memory \<Rightarrow> addr \<Rightarrow> addr \<Rightarrow> nat \<Rightarrow> memory" where
  "safestrcpy_loop m s t 0 = m(s := 0)"
| "safestrcpy_loop m s t (Suc k) =
     (let m' = m(s := m t) in
      if m t \<noteq> 0 then safestrcpy_loop m' (s + 1) (t + 1) k else m'(s + 1 := 0))"

definition safestrcpy :: "memory \<Rightarrow> addr \<Rightarrow> addr \<Rightarrow> int \<Rightarrow> memory" where
  "safestrcpy m s t n = (if n \<le> 0 then m else safestrcpy_loop m s t (nat n - 1))"

text \<open>\<^verbatim>\<open>strlen\<close> scans until a NUL; \<open>None\<close> is a scan that never ends.\<close>

partial_function (option) strlen_from :: "memory \<Rightarrow> addr \<Rightarrow> nat \<Rightarrow> nat option" where
  "strlen_from m s n = (if m (s + of_nat n) = 0 then Some n else strlen_from m s (Suc n))"

definition strlen :: "memory \<Rightarrow> addr \<Rightarrow> nat option" where
  "strlen m s = strlen_from m s 0"

section \<open>Correctness of the block routines\<close>

lemma memset_loop_eq: "k \<le> 2 ^ 64 \<Longrightarrow> memset_loop m dst c k = store m dst (replicate k c)"
proof (induction k)
  case (Suc k)
  have "store m dst (replicate (Suc k) c) = store m dst (replicate k c @ [c])"
    by (simp add: replicate_append_same)
  then show ?case
    using Suc by (simp add: store_snoc del: replicate_Suc)
qed simp

lemma copy_up_eq:
  assumes "unat d + k \<le> 2 ^ 64" and "unat s + k \<le> 2 ^ 64"
    and "unat d \<le> unat s \<or> unat s + k \<le> unat d"
  shows "copy_up m d s k = store m d (load m s k)"
  using assms
proof (induction k arbitrary: m d s)
  case (Suc k)
  let ?m = "m(d := m s)"
  show ?case
  proof (cases "k = 0")
    case False
    have d: "unat (d + 1) = unat d + 1" and s: "unat (s + 1) = unat s + 1"
      using unat_add_no_wrap [of d 1] unat_add_no_wrap [of s 1] Suc.prems False by auto
    have ld: "load ?m (s + 1) k = load m (s + 1) k"
    proof (rule load_cong)
      fix i assume "i < k"
      then have "unat (s + 1 + of_nat i) = unat s + 1 + i"
        using Suc.prems s by (subst unat_add_no_wrap) auto
      then show "?m (s + 1 + of_nat i) = m (s + 1 + of_nat i)"
        using Suc.prems \<open>i < k\<close> by (auto simp: fun_upd_def)
    qed
    have "copy_up m d s (Suc k) = store ?m (d + 1) (load ?m (s + 1) k)"
      using Suc.prems d s by (simp, intro Suc.IH) auto
    then show ?thesis
      using Suc.prems by (simp add: ld load_Suc store_Cons del: copy_up.simps)
  qed (simp add: load_Suc store_Cons)
qed simp

lemma copy_down_eq:
  assumes "k \<le> unat d" and "k \<le> unat s" and "unat s \<le> unat d"
  shows "copy_down m d s k = store m (d - of_nat k) (load m (s - of_nat k) k)"
  using assms
proof (induction k arbitrary: m d s)
  case (Suc k)
  let ?m = "m(d - 1 := m (s - 1))"
  have ud: "unat (d - 1) = unat d - 1" and us: "unat (s - 1) = unat s - 1"
    using Suc.prems unat_sub [of 1 d] unat_sub [of 1 s] by (simp_all add: word_le_nat_alt)
  have kl: "k < 2 ^ 64"
    using Suc.prems(1) unat_less_64 [of d] by simp
  have ld: "load ?m (s - 1 - of_nat k) k = load m (s - 1 - of_nat k) k"
  proof (rule load_cong)
    fix i assume "i < k"
    then have "s - 1 - of_nat k + of_nat i = s - 1 - of_nat (k - i)"
      by (simp add: of_nat_diff algebra_simps)
    moreover have "unat (s - 1 - of_nat (k - i)) = unat s - 1 - (k - i)"
      using us kl Suc.prems by (subst unat_sub) (auto simp: word_le_nat_alt)
    ultimately have u: "unat (s - 1 - of_nat k + of_nat i) = unat s - 1 - (k - i)"
      by (simp only:)
    have "s - 1 - of_nat k + of_nat i \<noteq> d - 1"
    proof
      assume "s - 1 - of_nat k + of_nat i = d - 1"
      then have "unat (s - 1 - of_nat k + of_nat i) = unat (d - 1)"
        by (rule arg_cong)
      then show False
        using u ud Suc.prems \<open>i < k\<close> by linarith
    qed
    then show "?m (s - 1 - of_nat k + of_nat i) = m (s - 1 - of_nat k + of_nat i)"
      by simp
  qed
  have "copy_down m d s (Suc k) = store ?m (d - 1 - of_nat k) (load ?m (s - 1 - of_nat k) k)"
    using Suc.prems ud us by (simp, intro Suc.IH) auto
  also have "\<dots> = store m (d - 1 - of_nat k) (load m (s - 1 - of_nat k) (Suc k))"
    unfolding ld load_snoc
    using store_upd_end [of "load m (s - 1 - of_nat k) k" m "d - 1 - of_nat k" "m (s - 1)"] kl
    by simp
  finally show ?case by (simp add: algebra_simps)
qed simp

lemma memset_eq_store: "memset m dst c n = store m dst (replicate (unat n) (ucast c))"
proof -
  have "unat n < 2 ^ 32" by (rule unat_less_32)
  then show ?thesis by (simp add: memset_def memset_loop_eq)
qed

section \<open>Strings as byte lists\<close>

text \<open>
  \<open>strncpy_l n ts\<close> is the \<open>n\<close>-byte field that \<^verbatim>\<open>strncpy\<close> makes of the
  string \<open>ts\<close> (its bytes up to a NUL or the end of the list, padded with NULs), and
  \<open>strncmp_l n ps qs\<close> is \<^verbatim>\<open>strncmp\<close> on lists; the end of a list stands for
  its terminating NUL.
\<close>

fun strncpy_l :: "nat \<Rightarrow> byte list \<Rightarrow> byte list" where
  "strncpy_l 0 ts = []"
| "strncpy_l (Suc n) [] = replicate (Suc n) 0"
| "strncpy_l (Suc n) (t # ts) = (if t \<noteq> 0 then t # strncpy_l n ts else replicate (Suc n) 0)"

definition hd0 :: "byte list \<Rightarrow> byte" where
  "hd0 xs = (case xs of [] \<Rightarrow> 0 | x # _ \<Rightarrow> x)"

fun strncmp_l :: "nat \<Rightarrow> byte list \<Rightarrow> byte list \<Rightarrow> int" where
  "strncmp_l 0 ps qs = 0"
| "strncmp_l (Suc n) ps qs =
     (if hd0 ps \<noteq> 0 \<and> hd0 ps = hd0 qs then strncmp_l n (tl ps) (tl qs)
      else uint (hd0 ps) - uint (hd0 qs))"

lemma hd0_simps [simp]: "hd0 [] = 0" "hd0 (x # xs) = x"
  by (simp_all add: hd0_def)

lemma length_strncpy_l [simp]: "length (strncpy_l n ts) = n"
  by (induction n ts rule: strncpy_l.induct) auto

lemma strncpy_l_Suc:
  "strncpy_l (Suc n) ts = (if hd0 ts \<noteq> 0 then hd0 ts # strncpy_l n (tl ts) else replicate (Suc n) 0)"
  by (cases ts) auto

lemma strncpy_pad_eq: "k \<le> 2 ^ 64 \<Longrightarrow> strncpy_pad m s k = store m s (replicate k 0)"
  by (induction k arbitrary: m s) (auto simp: store_Cons)

lemma strncpy_loop_eq:
  assumes "unat s + k \<le> 2 ^ 64" and "unat t + k \<le> 2 ^ 64"
    and "unat s + k \<le> unat t \<or> unat t + k \<le> unat s"
  shows "strncpy_loop m s t k = store m s (strncpy_l k (load m t k))"
  using assms
proof (induction k arbitrary: m s t)
  case (Suc k)
  show ?case
  proof (cases "m t = 0")
    case True
    then show ?thesis
      using Suc.prems by (simp add: load_Suc strncpy_pad_eq store_Cons)
  next
    case nz: False
    let ?m = "m(s := m t)"
    show ?thesis
    proof (cases "k = 0")
      case False
      have u: "unat (s + 1) = unat s + 1" "unat (t + 1) = unat t + 1"
        using unat_add_no_wrap [of s 1] unat_add_no_wrap [of t 1] Suc.prems False by auto
      have ld: "load ?m (t + 1) k = load m (t + 1) k"
      proof (rule load_cong)
        fix i assume "i < k"
        then have "unat (t + 1 + of_nat i) = unat t + 1 + i"
          using Suc.prems u by (subst unat_add_no_wrap) auto
        then show "?m (t + 1 + of_nat i) = m (t + 1 + of_nat i)"
          using Suc.prems \<open>i < k\<close> by (auto simp: fun_upd_def)
      qed
      have "strncpy_loop ?m (s + 1) (t + 1) k = store ?m (s + 1) (strncpy_l k (load ?m (t + 1) k))"
        using Suc.prems u by (intro Suc.IH) auto
      then show ?thesis
        using Suc.prems nz by (simp add: ld load_Suc store_Cons)
    qed (use nz in \<open>simp add: load_Suc store_Cons\<close>)
  qed
qed simp

lemma strncmp_loop_eq: "strncmp_loop m p q k = strncmp_l k (load m p k) (load m q k)"
  by (induction k arbitrary: p q) (auto simp: load_Suc)

lemma strncmp_l_eq_0_iff: "strncmp_l n ps qs = 0 \<longleftrightarrow> strncpy_l n ps = strncpy_l n qs"
proof (induction n arbitrary: ps qs)
  case (Suc n)
  show ?case
  proof (cases "hd0 ps = hd0 qs")
    case True
    then show ?thesis by (simp add: strncpy_l_Suc Suc.IH)
  next
    case False
    then have "uint (hd0 ps) \<noteq> uint (hd0 qs)" by (metis unsigned_word_eqI)
    then show ?thesis using False by (auto simp: strncpy_l_Suc)
  qed
qed simp

lemma strncpy_l_idem [simp]: "strncpy_l n (strncpy_l n ts) = strncpy_l n ts"
proof -
  have "strncpy_l n (replicate n 0) = replicate n 0" for n
    by (cases n) auto
  then show ?thesis
    by (induction n ts rule: strncpy_l.induct) (auto simp del: replicate_Suc)
qed

lemma strncpy_l_pad: "strncpy_l n (xs @ 0 # ys) = strncpy_l n xs"
  by (induction n xs rule: strncpy_l.induct) auto

section \<open>Termination of strlen and of the copy into a fixed field\<close>

text \<open>
  \<open>cstring m a xs\<close>: the bytes \<open>xs\<close>, none of them NUL, and then a NUL stand from
  address \<open>a\<close> on.
\<close>

definition cstring :: "memory \<Rightarrow> addr \<Rightarrow> byte list \<Rightarrow> bool" where
  "cstring m a xs \<longleftrightarrow> 0 \<notin> set xs \<and> load m a (length xs) = xs \<and> m (a + of_nat (length xs)) = 0"

lemma strlen_from_eq:
  assumes "cstring m s xs" and "n \<le> length xs"
  shows "strlen_from m s n = Some (length xs)"
  using assms(2)
proof (induction "length xs - n" arbitrary: n)
  case 0
  then show ?case
    using assms(1) by (subst strlen_from.simps) (simp add: cstring_def)
next
  case (Suc k)
  then have n: "n < length xs" by simp
  have "m (s + of_nat n) = xs ! n"
    using assms(1) n nth_load [of n "length xs" m s] by (simp add: cstring_def)
  moreover have "xs ! n \<noteq> 0"
    using assms(1) n by (metis cstring_def nth_mem)
  ultimately show ?case
    using Suc n by (subst strlen_from.simps) simp
qed

lemma strlen_cstring: "cstring m s xs \<Longrightarrow> strlen m s = Some (length xs)"
  by (simp add: strlen_def strlen_from_eq)

lemma safestrcpy_loop_nul:
  assumes "unat s + Suc k < 2 ^ 64"
  shows "\<exists>i\<le>k + 1. safestrcpy_loop m s t k (s + of_nat i) = 0"
  using assms
proof (induction k arbitrary: m s t)
  case 0
  then show ?case by (intro exI [of _ 0]) simp
next
  case (Suc k)
  have u: "unat (s + 1) = unat s + 1"
    using unat_add_no_wrap [of s 1] Suc.prems by simp
  show ?case
  proof (cases "m t = 0")
    case True
    then show ?thesis by (intro exI [of _ 0]) simp
  next
    case False
    let ?m = "m(s := m t)"
    have "\<exists>i\<le>k + 1. safestrcpy_loop ?m (s + 1) (t + 1) k (s + 1 + of_nat i) = 0"
      using Suc.prems u by (intro Suc.IH) simp
    then obtain i where "i \<le> k + 1" and "safestrcpy_loop ?m (s + 1) (t + 1) k (s + 1 + of_nat i) = 0"
      by blast
    then show ?thesis
      using False by (intro exI [of _ "Suc i"]) (simp add: algebra_simps)
  qed
qed

text \<open>
  C16. \<^verbatim>\<open>memmove\<close> stores at \<open>dst\<close> exactly the \<open>n\<close> bytes that were at \<open>src\<close>
  before the call and changes nothing else, for overlapping regions too, as long as neither
  region wraps around the end of the address space.
\<close>

theorem memmove_correct:
  assumes "unat src + unat n < 2 ^ 64" and "unat dst + unat n < 2 ^ 64"
  shows "memmove m dst src n = store m dst (load m src (unat n))"
proof -
  have ends: "unat (a + ucast n) = unat a + unat n" if "unat a + unat n < 2 ^ 64" for a :: addr
    using unat_add_no_wrap [OF that] by simp
  show ?thesis
  proof (cases "src < dst \<and> dst < src + ucast n")
    case True
    have "copy_down m (dst + ucast n) (src + ucast n) (unat n)
        = store m (dst + ucast n - of_nat (unat n)) (load m (src + ucast n - of_nat (unat n)) (unat n))"
      using True assms by (intro copy_down_eq) (auto simp: ends word_less_nat_alt)
    then show ?thesis
      using True by (simp add: memmove_def)
  next
    case False
    have "copy_up m dst src (unat n) = store m dst (load m src (unat n))"
      using False assms by (intro copy_up_eq) (auto simp: ends word_less_nat_alt)
    then show ?thesis
      using False by (auto simp: memmove_def)
  qed
qed

theorem memmove_correct_witness:
  "memmove (\<lambda>a. if a = 100 then 7 else if a = 101 then 8 else 0) 101 100 2 102 = 8
   \<and> memmove (\<lambda>a. if a = 100 then 7 else if a = 101 then 8 else 0) 101 100 2 101 = 7"
  using memmove_correct [of 100 2 101 "\<lambda>a. if a = 100 then 7 else if a = 101 then 8 else 0"]
  by (simp add: store_def load_def)

end
