(* ===== verification/Machine.thy ===== *)
theory Machine
  imports Prelude
begin

text \<open>
  The machine-level definitions of the kernel headers: \<^verbatim>\<open>param.h\<close>,
  \<^verbatim>\<open>memlayout.h\<close>, the Sv39 page-table macros and the interrupt-enable bit of
  \<^verbatim>\<open>riscv.h\<close>, and \<^verbatim>\<open>struct context\<close> and \<^verbatim>\<open>struct cpu\<close> of
  \<^verbatim>\<open>proc.h\<close>, with the arithmetic of the page macros.
\<close>

section \<open>param.h\<close>

definition NPROC :: nat where [simp]: "NPROC = 64"
definition NCPU :: nat where [simp]: "NCPU = 8"
definition NOFILE :: nat where [simp]: "NOFILE = 16"
definition NFILE :: nat where [simp]: "NFILE = 100"
definition NINODE :: nat where [simp]: "NINODE = 50"
definition NDEV :: nat where [simp]: "NDEV = 10"
definition ROOTDEV :: u32 where [simp]: "ROOTDEV = 1"
definition MAXARG :: nat where [simp]: "MAXARG = 32"
definition MAXOPBLOCKS :: nat where [simp]: "MAXOPBLOCKS = 10"
definition LOGSIZE :: nat where [simp]: "LOGSIZE = MAXOPBLOCKS * 3"
definition NBUF :: nat where [simp]: "NBUF = MAXOPBLOCKS * 3"
definition FSSIZE :: nat where [simp]: "FSSIZE = 2000"
definition MAXPATH :: nat where [simp]: "MAXPATH = 128"

section \<open>riscv.h: pages and page-table entries\<close>

definition PGSIZE :: u64 where [simp]: "PGSIZE = 4096"
definition PGSHIFT :: nat where [simp]: "PGSHIFT = 12"

definition PGROUNDUP :: "u64 \<Rightarrow> u64" where
  "PGROUNDUP sz = (sz + PGSIZE - 1) AND NOT (PGSIZE - 1)"

definition PGROUNDDOWN :: "u64 \<Rightarrow> u64" where
  "PGROUNDDOWN a = a AND NOT (PGSIZE - 1)"

definition PTE_V :: u64 where [simp]: "PTE_V = 1"
definition PTE_R :: u64 where [simp]: "PTE_R = 2"
definition PTE_W :: u64 where [simp]: "PTE_W = 4"
definition PTE_X :: u64 where [simp]: "PTE_X = 8"
definition PTE_U :: u64 where [simp]: "PTE_U = 16"

definition PA2PTE :: "u64 \<Rightarrow> u64" where
  "PA2PTE pa = push_bit 10 (drop_bit 12 pa)"

definition PTE2PA :: "u64 \<Rightarrow> u64" where
  "PTE2PA pte = push_bit 12 (drop_bit 10 pte)"

definition PTE_FLAGS :: "u64 \<Rightarrow> u64" where
  "PTE_FLAGS pte = pte AND 0x3FF"

definition PXMASK :: u64 where [simp]: "PXMASK = 0x1FF"

definition PXSHIFT :: "nat \<Rightarrow> nat" where
  "PXSHIFT level = PGSHIFT + 9 * level"

definition PX :: "nat \<Rightarrow> u64 \<Rightarrow> u64" where
  "PX level va = drop_bit (PXSHIFT level) va AND PXMASK"

definition MAXVA :: u64 where
  "MAXVA = push_bit (9 + 9 + 9 + 12 - 1) 1"

section \<open>memlayout.h\<close>

definition UART0 :: u64 where [simp]: "UART0 = 0x10000000"
definition UART0_IRQ :: u32 where [simp]: "UART0_IRQ = 10"
definition VIRTIO0 :: u64 where [simp]: "VIRTIO0 = 0x10001000"
definition VIRTIO0_IRQ :: u32 where [simp]: "VIRTIO0_IRQ = 1"
definition PLIC :: u64 where [simp]: "PLIC = 0x0c000000"
definition KERNBASE :: u64 where [simp]: "KERNBASE = 0x80000000"

definition PHYSTOP :: u64 where
  "PHYSTOP = KERNBASE + 128 * 1024 * 1024"

definition TRAMPOLINE :: u64 where
  "TRAMPOLINE = MAXVA - PGSIZE"

definition KSTACK :: "nat \<Rightarrow> u64" where
  "KSTACK p = TRAMPOLINE - (of_nat p + 1) * 2 * PGSIZE"

definition TRAPFRAME :: u64 where
  "TRAPFRAME = TRAMPOLINE - PGSIZE"

lemma MAXVA_num [konst]: "MAXVA = 0x4000000000"
  by (simp add: MAXVA_def)

lemma PHYSTOP_num [konst]: "PHYSTOP = 0x88000000"
  by (simp add: PHYSTOP_def)

lemma TRAMPOLINE_num [konst]: "TRAMPOLINE = 0x3ffffff000"
  by (simp add: TRAMPOLINE_def MAXVA_num)

lemma TRAPFRAME_num [konst]: "TRAPFRAME = 0x3fffffe000"
  by (simp add: TRAPFRAME_def TRAMPOLINE_num)

section \<open>proc.h: struct context and struct cpu\<close>

record kcontext =
  ctx_ra :: u64
  ctx_sp :: u64
  ctx_s :: "u64 list" \<comment> \<open>the callee-saved registers s0 to s11\<close>

text \<open>
  \<open>cpu_proc\<close> is the index in \<^verbatim>\<open>proc[]\<close> of the process the CPU runs; \<open>sstatus\<close>
  is the CPU's own status register.
\<close>

record cpu =
  cpu_proc :: "nat option"
  cpu_context :: kcontext
  noff :: int
  intena :: bool
  sstatus :: u64

section \<open>riscv.h: device interrupts\<close>

definition SSTATUS_SPP :: u64 where [simp]: "SSTATUS_SPP = 0x100"
definition SSTATUS_SPIE :: u64 where [simp]: "SSTATUS_SPIE = 0x20"
definition SSTATUS_SIE :: u64 where [simp]: "SSTATUS_SIE = 0x2"

definition intr_on :: "cpu \<Rightarrow> cpu" where
  "intr_on c = c\<lparr>sstatus := sstatus c OR SSTATUS_SIE\<rparr>"

definition intr_off :: "cpu \<Rightarrow> cpu" where
  "intr_off c = c\<lparr>sstatus := sstatus c AND NOT SSTATUS_SIE\<rparr>"

definition intr_get :: "cpu \<Rightarrow> bool" where
  "intr_get c \<longleftrightarrow> sstatus c AND SSTATUS_SIE \<noteq> 0"

lemma bit_minus_3: "bit (- 3 :: int) n \<longleftrightarrow> n \<noteq> 1"
proof -
  have "(- 3 :: int) = NOT 2" by simp
  then show ?thesis by (simp only: bit_not_iff bit_2_iff) auto
qed

lemma bit_minus_4096: "bit (- 4096 :: int) n \<longleftrightarrow> 12 \<le> n"
proof -
  have "(- 4096 :: int) = NOT (mask 12)" by (simp add: mask_numeral)
  then show ?thesis by (simp only: bit_not_iff bit_mask_iff) auto
qed

lemma and_2_iff: "(x AND 2 \<noteq> 0) = bit (x :: u64) 1"
proof -
  have "x AND 2 \<noteq> 0 \<longleftrightarrow> (\<exists>n. bit (x AND 2) n)"
    by (metis bit_0_eq bit_word_eqI bot_apply bot_bool_def)
  also have "\<dots> \<longleftrightarrow> bit x 1"
    by (auto simp: bit_and_iff bit_2_iff)
  finally show ?thesis .
qed

lemma intr_get_iff: "intr_get c = bit (sstatus c) 1"
  by (simp add: intr_get_def and_2_iff)

lemma intr_get_upd [simp]:
  "intr_get (c\<lparr>noff := n\<rparr>) = intr_get c"
  "intr_get (c\<lparr>intena := b\<rparr>) = intr_get c"
  "intr_get (c\<lparr>cpu_proc := p\<rparr>) = intr_get c"
  "intr_get (c\<lparr>cpu_context := x\<rparr>) = intr_get c"
  by (simp_all add: intr_get_def)

lemma intr_upd_fields [simp]:
  "noff (intr_on c) = noff c" "intena (intr_on c) = intena c" "cpu_proc (intr_on c) = cpu_proc c"
  "noff (intr_off c) = noff c" "intena (intr_off c) = intena c" "cpu_proc (intr_off c) = cpu_proc c"
  by (simp_all add: intr_on_def intr_off_def)

lemma intr_get_on [simp]: "intr_get (intr_on c)"
  by (simp add: intr_get_iff intr_on_def bit_or_iff bit_2_iff)

lemma intr_get_off [simp]: "\<not> intr_get (intr_off c)"
  by (simp add: intr_get_iff intr_off_def bit_and_iff bit_minus_3)

lemma intr_off_off [simp]: "\<not> intr_get c \<Longrightarrow> intr_off c = c"
proof -
  assume "\<not> intr_get c"
  then have "sstatus c AND NOT 2 = sstatus c"
    by (intro bit_word_eqI) (auto simp: intr_get_iff bit_and_iff bit_minus_3)
  then show ?thesis by (simp add: intr_off_def)
qed

lemma intr_on_off [simp]: "intr_get c \<Longrightarrow> intr_on (intr_off c) = c"
proof -
  assume "intr_get c"
  then have "(sstatus c AND NOT 2) OR 2 = sstatus c"
    by (intro bit_word_eqI) (auto simp: intr_get_iff bit_and_iff bit_or_iff bit_minus_3 bit_2_iff)
  then show ?thesis by (simp add: intr_off_def intr_on_def)
qed

section \<open>Arithmetic of the page macros\<close>

lemma and_page_mask: "unat ((a :: u64) AND - 4096) = unat a div 4096 * 4096"
proof -
  have "a AND - 4096 = push_bit 12 (drop_bit 12 a)"
    by (auto intro!: bit_word_eqI simp: bit_and_iff bit_minus_4096 bit_push_bit_iff bit_drop_bit_eq)
  moreover have "unat (push_bit 12 (drop_bit 12 a)) = unat a div 4096 * 4096"
  proof -
    have "unat (drop_bit 12 a) = unat a div 4096"
      by (simp add: unat_drop_bit_eq drop_bit_nat_def)
    moreover have "unat a div 4096 * 4096 < 2 ^ 64"
      using unat_less_64 [of a] by (simp add: less_mult_imp_div_less)
    ultimately show ?thesis
      by (simp add: push_bit_eq_mult unat_word_ariths)
  qed
  ultimately show ?thesis by simp
qed

lemma unat_PGROUNDDOWN: "unat (PGROUNDDOWN a) = unat a div 4096 * 4096"
  by (simp add: PGROUNDDOWN_def and_page_mask)

lemma unat_PGROUNDUP:
  assumes "unat a + 4095 < 2 ^ 64"
  shows "unat (PGROUNDUP a) = (unat a + 4095) div 4096 * 4096"
proof -
  have "unat (a + 4095) = unat a + 4095"
    using unat_add_no_wrap [of a 4095] assms by simp
  then show ?thesis
    using and_page_mask [of "a + 4095"] by (simp add: PGROUNDUP_def add.commute)
qed

end
