(* ===== verification/Spinlock.thy ===== *)
theory Spinlock
  imports Machine Transition
begin

text \<open>
  Spin locks, \<^verbatim>\<open>kernel/spinlock.c\<close>: the operations of one CPU, and the interleaving
  of several CPUs at the granularity of the atomic accesses to the lock word, in which mutual
  exclusion is proved.
\<close>

section \<open>The lock and the operations of one CPU\<close>

text \<open>\<open>lcpu\<close> is the index of the \<^verbatim>\<open>struct cpu\<close> the source points to.\<close>

record spinlock =
  locked :: u32
  lname :: string
  lcpu :: "nat option"

definition initlock :: "spinlock \<Rightarrow> string \<Rightarrow> spinlock" where
  "initlock lk name = lk\<lparr>lname := name, locked := 0, lcpu := None\<rparr>"

definition holding :: "nat \<Rightarrow> spinlock \<Rightarrow> bool" where
  "holding i lk \<longleftrightarrow> locked lk \<noteq> 0 \<and> lcpu lk = Some i"

definition push_off :: "cpu \<Rightarrow> cpu" where
  "push_off c =
     (let old = intr_get c;
          c = intr_off c;
          c = (if noff c = 0 then c\<lparr>intena := old\<rparr> else c)
      in c\<lparr>noff := noff c + 1\<rparr>)"

definition pop_off :: "cpu \<Rightarrow> cpu outcome" where
  "pop_off c =
     (if intr_get c then Panic ''pop_off - interruptible''
      else if noff c < 1 then Panic ''pop_off''
      else let c = c\<lparr>noff := noff c - 1\<rparr>
           in Ok (if noff c = 0 \<and> intena c then intr_on c else c))"

text \<open>
  \<^verbatim>\<open>acquire\<close> spins while the atomic swap finds the lock taken: seen from one CPU that
  is \<open>Blocks\<close>. Both functions return the CPU and the lock.
\<close>

definition acquire :: "nat \<Rightarrow> cpu \<Rightarrow> spinlock \<Rightarrow> (cpu \<times> spinlock) outcome" where
  "acquire i c lk =
     (let c = push_off c in
      if holding i lk then Panic ''acquire''
      else if locked lk \<noteq> 0 then Blocks
      else Ok (c, lk\<lparr>locked := 1, lcpu := Some i\<rparr>))"

definition release :: "nat \<Rightarrow> cpu \<Rightarrow> spinlock \<Rightarrow> (cpu \<times> spinlock) outcome" where
  "release i c lk =
     (if \<not> holding i lk then Panic ''release''
      else let lk = lk\<lparr>lcpu := None, locked := 0\<rparr>
           in obind (pop_off c) (\<lambda>c. Ok (c, lk)))"

section \<open>push_off and pop_off nest\<close>

lemma push_off_simps [simp]:
  "noff (push_off c) = noff c + 1"
  "\<not> intr_get (push_off c)"
  "intena (push_off c) = (if noff c = 0 then intr_get c else intena c)"
  by (auto simp: push_off_def Let_def)

lemma pop_push_off:
  assumes "noff c \<ge> 0" and "noff c > 0 \<longrightarrow> \<not> intr_get c"
  shows "pop_off (push_off c) = Ok (c\<lparr>intena := intena (push_off c)\<rparr>)"
proof (cases "noff c = 0")
  case True
  show ?thesis
  proof (cases "intr_get c")
    case on: True
    have "intr_on (push_off c\<lparr>noff := noff c\<rparr>) = c\<lparr>intena := intena (push_off c)\<rparr>"
    proof -
      have "push_off c\<lparr>noff := noff c\<rparr> = (intr_off c)\<lparr>intena := True\<rparr>"
        using True on by (simp add: push_off_def Let_def intr_off_def)
      moreover have "intr_on ((intr_off c)\<lparr>intena := True\<rparr>) = (intr_on (intr_off c))\<lparr>intena := True\<rparr>"
        by (simp add: intr_on_def)
      ultimately show ?thesis
        using True on by simp
    qed
    then show ?thesis
      using True on push_off_simps(2) [of c] by (simp add: pop_off_def)
  next
    case False
    then show ?thesis
      using True push_off_simps(2) [of c] by (simp add: pop_off_def push_off_def Let_def)
  qed
next
  case False
  then show ?thesis
    using assms push_off_simps(2) [of c] by (simp add: pop_off_def push_off_def Let_def)
qed

primrec push_offs :: "nat \<Rightarrow> cpu \<Rightarrow> cpu" where
  "push_offs 0 c = c"
| "push_offs (Suc n) c = push_offs n (push_off c)"

primrec pop_offs :: "nat \<Rightarrow> cpu \<Rightarrow> cpu outcome" where
  "pop_offs 0 c = Ok c"
| "pop_offs (Suc n) c = obind (pop_off c) (pop_offs n)"

lemma push_offs_eq:
  "noff c = 0 \<Longrightarrow> 0 < n \<Longrightarrow>
   push_offs n c = (intr_off c)\<lparr>intena := intr_get c, noff := int n\<rparr>"
proof -
  have pos: "push_offs n d = d\<lparr>noff := noff d + int n\<rparr>" if "noff d > 0" "\<not> intr_get d" for n d
    using that
  proof (induction n arbitrary: d)
    case (Suc n)
    have "push_off d = d\<lparr>noff := noff d + 1\<rparr>"
      using Suc.prems by (simp add: push_off_def)
    moreover have "\<not> intr_get (d\<lparr>noff := noff d + 1\<rparr>)"
      using Suc.prems by (simp add: intr_get_def)
    ultimately show ?case
      using Suc by (simp add: algebra_simps)
  qed simp
  assume "noff c = 0" and "0 < n"
  then obtain k where n: "n = Suc k"
    by (cases n) auto
  show ?thesis
    using \<open>noff c = 0\<close> pos [of "push_off c" k]
    by (simp add: n) (simp add: push_off_def Let_def intr_off_def)
qed

lemma pop_offs_eq:
  assumes "\<not> intr_get d" and "noff d = int n" and "k < n"
  shows "pop_offs k d = Ok (d\<lparr>noff := int (n - k)\<rparr>)"
  using assms
proof (induction k arbitrary: d n)
  case (Suc k)
  have "pop_off d = Ok (d\<lparr>noff := int (n - 1)\<rparr>)"
    using Suc.prems by (simp add: pop_off_def of_nat_diff)
  moreover have "\<not> intr_get (d\<lparr>noff := int (n - 1)\<rparr>)"
    using Suc.prems by (simp add: intr_get_def)
  ultimately show ?case
    using Suc.prems by (simp add: Suc.IH [of _ "n - 1"])
qed simp

text \<open>
  \<^verbatim>\<open>push_off\<close> and \<^verbatim>\<open>pop_off\<close> are matched: after \<open>n\<close> calls of
  \<^verbatim>\<open>push_off\<close> interrupts stay off through the first \<open>n - 1\<close> calls of
  \<^verbatim>\<open>pop_off\<close>, none of which panics, and the \<open>n\<close>-th restores the interrupt state
  found before the first.
\<close>

theorem push_pop_off_nest:
  assumes "noff c = 0" and "0 < n" and "k \<le> n"
  shows "\<exists>c'. pop_offs k (push_offs n c) = Ok c' \<and> noff c' = int (n - k)
    \<and> (intr_get c' \<longleftrightarrow> k = n \<and> intr_get c)"
proof -
  let ?d = "(intr_off c)\<lparr>intena := intr_get c, noff := int n\<rparr>"
  have off: "\<not> intr_get (?d\<lparr>noff := m\<rparr>)" for m
    using intr_get_off [of c] by (simp add: intr_get_def)
  have d: "push_offs n c = ?d"
    using assms by (simp add: push_offs_eq)
  show ?thesis
  proof (cases "k < n")
    case True
    then have "pop_offs k ?d = Ok (?d\<lparr>noff := int (n - k)\<rparr>)"
      using off [of "int n"] by (intro pop_offs_eq) simp_all
    then show ?thesis
      using True off by (simp add: d)
  next
    case False
    then have k: "k = Suc (n - 1)"
      using assms by simp
    have snoc: "pop_offs (Suc j) e = obind (pop_offs j e) pop_off" for j e
    proof (induction j arbitrary: e)
      case 0
      show ?case by (cases "pop_off e") auto
    next
      case (Suc j)
      then show ?case by (cases "pop_off e") auto
    qed
    have "pop_offs (n - 1) ?d = Ok (?d\<lparr>noff := 1\<rparr>)"
      using assms off [of "int n"] pop_offs_eq [of ?d n "n - 1"] by simp
    then have "pop_offs k (push_offs n c) = pop_off (?d\<lparr>noff := 1\<rparr>)"
      unfolding d k snoc by simp
    also have "\<dots> = Ok (if intr_get c then intr_on (?d\<lparr>noff := 0\<rparr>) else ?d\<lparr>noff := 0\<rparr>)"
      using off [of 1] by (simp add: pop_off_def)
    finally show ?thesis
      using False assms off [of 0] by (auto simp: intr_on_def intr_get_def bit_or_iff)
  qed
qed

theorem push_pop_off_nest_witness:
  "\<exists>c'. pop_offs 1 (push_offs 2 \<lparr>cpu_proc = None, cpu_context = \<lparr>ctx_ra = 0, ctx_sp = 0, ctx_s = []\<rparr>,
       noff = 0, intena = False, sstatus = 2\<rparr>) = Ok c' \<and> noff c' = 1 \<and> \<not> intr_get c'"
  using push_pop_off_nest [of "\<lparr>cpu_proc = None, cpu_context = \<lparr>ctx_ra = 0, ctx_sp = 0, ctx_s = []\<rparr>,
       noff = 0, intena = False, sstatus = 2\<rparr>" 2 1] by simp

section \<open>Several CPUs and one lock\<close>

text \<open>
  Where a CPU stands in \<^verbatim>\<open>acquire\<close> or \<^verbatim>\<open>release\<close> of the lock: outside
  both, spinning in the swap loop, past the swap but before \<^verbatim>\<open>lk->cpu = mycpu()\<close>, in
  the critical section, past \<^verbatim>\<open>lk->cpu = 0\<close>, past the store that frees the lock word
  but before \<^verbatim>\<open>pop_off()\<close>. Each step is one atomic access to the shared lock.
\<close>

datatype lk_pc = Out | Spin | Got | Crit | Cleared | Unlocked

record lk_sys =
  slk :: spinlock
  scpus :: "nat \<Rightarrow> cpu"
  spc :: "nat \<Rightarrow> lk_pc"
  spanic :: "string option"

inductive lk_step :: "lk_sys \<Rightarrow> lk_sys \<Rightarrow> bool" where
  acq_enter: "spc s i \<in> {Out, Crit} \<Longrightarrow> \<not> holding i (slk s) \<Longrightarrow>
     lk_step s (s\<lparr>scpus := (scpus s)(i := push_off (scpus s i)), spc := (spc s)(i := Spin)\<rparr>)"
| acq_panic: "spc s i \<in> {Out, Crit} \<Longrightarrow> holding i (slk s) \<Longrightarrow>
     lk_step s (s\<lparr>spanic := Some ''acquire''\<rparr>)"
| swap_fail: "spc s i = Spin \<Longrightarrow> locked (slk s) \<noteq> 0 \<Longrightarrow>
     lk_step s (s\<lparr>slk := (slk s)\<lparr>locked := 1\<rparr>\<rparr>)"
| swap_ok: "spc s i = Spin \<Longrightarrow> locked (slk s) = 0 \<Longrightarrow>
     lk_step s (s\<lparr>slk := (slk s)\<lparr>locked := 1\<rparr>, spc := (spc s)(i := Got)\<rparr>)"
| set_cpu: "spc s i = Got \<Longrightarrow>
     lk_step s (s\<lparr>slk := (slk s)\<lparr>lcpu := Some i\<rparr>, spc := (spc s)(i := Crit)\<rparr>)"
| rel_enter: "spc s i \<in> {Out, Crit} \<Longrightarrow> holding i (slk s) \<Longrightarrow>
     lk_step s (s\<lparr>slk := (slk s)\<lparr>lcpu := None\<rparr>, spc := (spc s)(i := Cleared)\<rparr>)"
| rel_panic: "spc s i \<in> {Out, Crit} \<Longrightarrow> \<not> holding i (slk s) \<Longrightarrow>
     lk_step s (s\<lparr>spanic := Some ''release''\<rparr>)"
| rel_unlock: "spc s i = Cleared \<Longrightarrow>
     lk_step s (s\<lparr>slk := (slk s)\<lparr>locked := 0\<rparr>, spc := (spc s)(i := Unlocked)\<rparr>)"
| rel_pop: "spc s i = Unlocked \<Longrightarrow> pop_off (scpus s i) = Ok c \<Longrightarrow>
     lk_step s (s\<lparr>scpus := (scpus s)(i := c), spc := (spc s)(i := Out)\<rparr>)"
| rel_pop_panic: "spc s i = Unlocked \<Longrightarrow> pop_off (scpus s i) = Panic e \<Longrightarrow>
     lk_step s (s\<lparr>spanic := Some e\<rparr>)"
| irq_toggle: "spc s i = Out \<Longrightarrow> noff (scpus s i) = 0 \<Longrightarrow>
     lk_step s (s\<lparr>scpus := (scpus s)(i := (scpus s i)\<lparr>sstatus := x\<rparr>)\<rparr>)"

definition lk_init :: "lk_sys \<Rightarrow> bool" where
  "lk_init s \<longleftrightarrow> locked (slk s) = 0 \<and> lcpu (slk s) = None \<and> spanic s = None
     \<and> (\<forall>i. spc s i = Out \<and> noff (scpus s i) = 0)"

primrec owns :: "lk_pc \<Rightarrow> bool" where
  "owns Out = False"
| "owns Spin = False"
| "owns Got = True"
| "owns Crit = True"
| "owns Cleared = True"
| "owns Unlocked = False"

text \<open>The invariant names the owner of the lock, if there is one.\<close>

definition lk_owner :: "lk_sys \<Rightarrow> nat option \<Rightarrow> bool" where
  "lk_owner s ow \<longleftrightarrow>
     (\<forall>i. owns (spc s i) \<longleftrightarrow> ow = Some i)
     \<and> (locked (slk s) = 0 \<longleftrightarrow> ow = None)
     \<and> (\<forall>i. lcpu (slk s) = Some i \<longleftrightarrow> spc s i = Crit)"

definition lk_irq :: "lk_sys \<Rightarrow> bool" where
  "lk_irq s \<longleftrightarrow>
     (\<forall>i. spc s i = Out \<longrightarrow> noff (scpus s i) = 0)
     \<and> (\<forall>i. spc s i \<noteq> Out \<longrightarrow> noff (scpus s i) = 1 \<and> \<not> intr_get (scpus s i))
     \<and> spanic s \<in> {None, Some ''acquire'', Some ''release''}"

definition lk_inv :: "lk_sys \<Rightarrow> bool" where
  "lk_inv s \<longleftrightarrow> (\<exists>ow. lk_owner s ow) \<and> lk_irq s"

lemma lk_owner_holding: "lk_owner s ow \<Longrightarrow> holding i (slk s) \<longleftrightarrow> spc s i = Crit"
  unfolding lk_owner_def holding_def by (metis option.distinct(1) owns.simps(4))

lemma lk_inv_init: "lk_init s \<Longrightarrow> lk_inv s"
  by (auto simp: lk_init_def lk_inv_def lk_owner_def lk_irq_def intro!: exI [of _ None])

lemma lk_owner_upd [simp]:
  "lk_owner (s\<lparr>spanic := x\<rparr>) ow = lk_owner s ow"
  "lk_owner (s\<lparr>scpus := f\<rparr>) ow = lk_owner s ow"
  by (simp_all add: lk_owner_def)

lemma lk_owner_step:
  assumes "lk_step s t" and "lk_owner s ow"
  shows "\<exists>ow'. lk_owner t ow'"
  using assms
proof (induction rule: lk_step.induct)
  case (acq_enter s i)
  then have "spc s i = Out"
    using lk_owner_holding by auto
  with acq_enter have "lk_owner (s\<lparr>scpus := (scpus s)(i := push_off (scpus s i)), spc := (spc s)(i := Spin)\<rparr>) ow"
    by (force simp: lk_owner_def)
  then show ?case ..
next
  case (swap_fail s i)
  then have "lk_owner (s\<lparr>slk := (slk s)\<lparr>locked := 1\<rparr>\<rparr>) ow"
    by (auto simp: lk_owner_def)
  then show ?case ..
next
  case (swap_ok s i)
  then have "\<not> owns (spc s j)" for j
    by (simp add: lk_owner_def)
  moreover from this have "spc s j \<noteq> Crit" for j
    by (metis owns.simps(4))
  ultimately have "lk_owner (s\<lparr>slk := (slk s)\<lparr>locked := 1\<rparr>, spc := (spc s)(i := Got)\<rparr>) (Some i)"
    using swap_ok by (simp add: lk_owner_def)
  then show ?case ..
next
  case (set_cpu s i)
  then have "owns (spc s i)" by simp
  then have ow: "ow = Some i"
    using set_cpu.prems by (simp add: lk_owner_def)
  then have others: "\<not> owns (spc s j)" if "j \<noteq> i" for j
    using set_cpu.prems that by (simp add: lk_owner_def)
  then have "spc s j \<noteq> Crit" if "j \<noteq> i" for j
    using that by (metis owns.simps(4))
  then have "lk_owner (s\<lparr>slk := (slk s)\<lparr>lcpu := Some i\<rparr>, spc := (spc s)(i := Crit)\<rparr>) (Some i)"
    using others set_cpu ow by (auto simp: lk_owner_def)
  then show ?case ..
next
  case (rel_enter s i)
  then have "spc s i = Crit"
    using lk_owner_holding by auto
  then have "owns (spc s i)" by simp
  then have ow: "ow = Some i"
    using rel_enter.prems by (simp add: lk_owner_def)
  then have others: "\<not> owns (spc s j)" if "j \<noteq> i" for j
    using rel_enter.prems that by (simp add: lk_owner_def)
  then have "spc s j \<noteq> Crit" if "j \<noteq> i" for j
    using that by (metis owns.simps(4))
  then have "lk_owner (s\<lparr>slk := (slk s)\<lparr>lcpu := None\<rparr>, spc := (spc s)(i := Cleared)\<rparr>) (Some i)"
    using others rel_enter ow by (auto simp: lk_owner_def)
  then show ?case ..
next
  case (rel_unlock s i)
  then have "owns (spc s i)" by simp
  then have ow: "ow = Some i"
    using rel_unlock.prems by (simp add: lk_owner_def)
  then have others: "\<not> owns (spc s j)" if "j \<noteq> i" for j
    using rel_unlock.prems that by (simp add: lk_owner_def)
  then have "spc s j \<noteq> Crit" if "j \<noteq> i" for j
    using that by (metis owns.simps(4))
  then have "lk_owner (s\<lparr>slk := (slk s)\<lparr>locked := 0\<rparr>, spc := (spc s)(i := Unlocked)\<rparr>) None"
    using others rel_unlock ow by (auto simp: lk_owner_def)
  then show ?case ..
next
  case (rel_pop s i c)
  then have "lk_owner (s\<lparr>scpus := (scpus s)(i := c), spc := (spc s)(i := Out)\<rparr>) ow"
    by (force simp: lk_owner_def)
  then show ?case ..
qed auto

lemma lk_irq_step:
  assumes "lk_step s t" and "lk_irq s" and "lk_owner s ow"
  shows "lk_irq t"
  using assms
proof (induction rule: lk_step.induct)
  case (acq_enter s i)
  then have "spc s i = Out"
    using lk_owner_holding by auto
  with acq_enter show ?case by (auto simp: lk_irq_def)
next
  case (rel_enter s i)
  then have "spc s i = Crit"
    using lk_owner_holding by auto
  with rel_enter show ?case by (auto simp: lk_irq_def)
next
  case (rel_pop s i c)
  then show ?case by (auto simp: lk_irq_def pop_off_def Let_def)
next
  case (rel_pop_panic s i e)
  then show ?case by (auto simp: lk_irq_def pop_off_def Let_def)
qed (auto simp: lk_irq_def)

lemma lk_inv_step: "lk_inv s \<Longrightarrow> lk_step s t \<Longrightarrow> lk_inv t"
  unfolding lk_inv_def using lk_owner_step lk_irq_step by blast

interpretation lks: invariant_system lk_init lk_step lk_inv
  by unfold_locales (auto intro: lk_inv_init lk_inv_step)

text \<open>
  C4. Mutual exclusion. In every interleaving of any number of CPUs that acquire and release the
  lock, at most one CPU is between the successful swap of \<^verbatim>\<open>acquire\<close> and the store of
  \<^verbatim>\<open>release\<close> that frees the lock; \<^verbatim>\<open>holding\<close> answers true exactly on the CPU in
  the critical section, whatever the others do; and that CPU has interrupts off.
\<close>

theorem spinlock_mutual_exclusion:
  assumes "lk_init s" and "lk_step\<^sup>*\<^sup>* s t" and "owns (spc t i)"
  shows "(\<forall>j. owns (spc t j) \<longleftrightarrow> j = i)
    \<and> (\<forall>j. holding j (slk t) \<longleftrightarrow> spc t j = Crit) \<and> \<not> intr_get (scpus t i)"
proof -
  have inv: "lk_inv t"
    using assms(1,2) by (rule lks.reachable_inv)
  then obtain ow where ow: "lk_owner t ow" and irq: "lk_irq t"
    by (auto simp: lk_inv_def)
  have "owns (spc t j) \<longleftrightarrow> j = i" for j
    using ow assms(3) by (auto simp: lk_owner_def)
  moreover have "\<not> intr_get (scpus t i)"
    using irq assms(3) by (force simp: lk_irq_def)
  ultimately show ?thesis
    using lk_owner_holding [OF ow] by simp
qed

text \<open>A run of two CPUs in which the first one has just won the lock.\<close>

definition lk_s0 :: lk_sys where
  "lk_s0 = \<lparr>slk = \<lparr>locked = 0, lname = ''lk'', lcpu = None\<rparr>,
     scpus = (\<lambda>_. \<lparr>cpu_proc = None, cpu_context = \<lparr>ctx_ra = 0, ctx_sp = 0, ctx_s = []\<rparr>,
                   noff = 0, intena = False, sstatus = 2\<rparr>),
     spc = (\<lambda>_. Out), spanic = None\<rparr>"

lemma lk_s0_run: "\<exists>t. lk_step\<^sup>*\<^sup>* lk_s0 t \<and> owns (spc t 0)"
proof -
  let ?s = "lk_s0\<lparr>scpus := (scpus lk_s0)(0 := push_off (scpus lk_s0 0)), spc := (spc lk_s0)(0 := Spin)\<rparr>"
  let ?t = "?s\<lparr>slk := (slk ?s)\<lparr>locked := 1\<rparr>, spc := (spc ?s)(0 := Got)\<rparr>"
  have "lk_step lk_s0 ?s"
    by (rule acq_enter) (simp_all add: lk_s0_def holding_def)
  moreover have "lk_step ?s ?t"
    by (rule swap_ok) (simp_all add: lk_s0_def)
  ultimately have "lk_step\<^sup>*\<^sup>* lk_s0 ?t"
    by (rule converse_rtranclp_into_rtranclp [OF _ r_into_rtranclp])
  moreover have "owns (spc ?t 0)" by simp
  ultimately show ?thesis by blast
qed

theorem spinlock_mutual_exclusion_witness:
  "lk_init lk_s0 \<and> (\<exists>t. lk_step\<^sup>*\<^sup>* lk_s0 t \<and> owns (spc t 0) \<and> \<not> owns (spc t 1) \<and> \<not> intr_get (scpus t 0))"
proof -
  have init: "lk_init lk_s0"
    by (simp add: lk_init_def lk_s0_def)
  obtain t where "lk_step\<^sup>*\<^sup>* lk_s0 t" and "owns (spc t 0)"
    using lk_s0_run by blast
  then show ?thesis
    using init spinlock_mutual_exclusion [OF init, of t 0] by auto
qed

end
