(* ===== verification/Kalloc.thy ===== *)
theory Kalloc
  imports Machine Kstring
begin

text \<open>
  The physical page allocator, \<^verbatim>\<open>kernel/kalloc.c\<close>. The free list is the one of the
  source: \<^verbatim>\<open>struct run\<close> nodes threaded through the first eight bytes of the free pages
  themselves. Every operation runs under \<^verbatim>\<open>kmem.lock\<close>, so each definition is one
  atomic section. The allocator is shown to implement an abstract list of free pages.
\<close>

section \<open>The allocator\<close>

text \<open>
  \<open>pmem\<close> is physical memory, \<open>freelist\<close> the pointer \<^verbatim>\<open>kmem.freelist\<close> and
  \<open>kend\<close> the linker symbol \<^verbatim>\<open>end\<close> (\<^verbatim>\<open>kernel.ld\<close>), a constant of the state.
  The record is extended by the components above; the operations work on every extension.
\<close>

record kmem =
  pmem :: memory
  freelist :: addr
  kend :: addr

definition kfree :: "addr \<Rightarrow> 'z kmem_scheme \<Rightarrow> 'z kmem_scheme outcome" where
  "kfree pa s =
     (if pa mod PGSIZE \<noteq> 0 \<or> pa < kend s \<or> PHYSTOP \<le> pa then Panic ''kfree''
      else let m = memset (pmem s) pa 1 4096;
               m = store64 m pa (freelist s)
           in Ok (s\<lparr>pmem := m, freelist := pa\<rparr>))"

definition kalloc :: "'z kmem_scheme \<Rightarrow> addr \<times> 'z kmem_scheme" where
  "kalloc s =
     (let r = freelist s in
      if r \<noteq> 0
      then (r, s\<lparr>freelist := load64 (pmem s) r, pmem := memset (pmem s) r 5 4096\<rparr>)
      else (0, s))"

function freerange_loop :: "addr \<Rightarrow> addr \<Rightarrow> 'z kmem_scheme \<Rightarrow> 'z kmem_scheme outcome" where
  "freerange_loop p pa_end s =
     (if p + PGSIZE \<le> pa_end
      then obind (kfree p s) (\<lambda>s. freerange_loop (p + PGSIZE) pa_end s)
      else Ok s)"
  by pat_completeness auto

definition freerange :: "addr \<Rightarrow> addr \<Rightarrow> 'z kmem_scheme \<Rightarrow> 'z kmem_scheme outcome" where
  "freerange pa_start pa_end s = freerange_loop (PGROUNDUP pa_start) pa_end s"

definition kinit :: "'z kmem_scheme \<Rightarrow> 'z kmem_scheme outcome" where
  "kinit s = freerange (kend s) PHYSTOP s"

section \<open>Pages\<close>

text \<open>The page number of an address; \<open>agree_off p\<close>: two memories differ in page \<open>p\<close> only.\<close>

definition pg :: "addr \<Rightarrow> nat" where
  "pg a = unat a div 4096"

definition page_aligned :: "addr \<Rightarrow> bool" where
  "page_aligned p \<longleftrightarrow> unat p mod 4096 = 0"

definition agree_off :: "addr \<Rightarrow> memory \<Rightarrow> memory \<Rightarrow> bool" where
  "agree_off p m m' \<longleftrightarrow> (\<forall>x. pg x \<noteq> pg p \<longrightarrow> m' x = m x)"

lemma page_aligned_mod: "pa mod PGSIZE = 0 \<longleftrightarrow> page_aligned pa"
proof -
  have u: "unat (pa mod 4096) = unat pa mod 4096"
    by (simp add: unat_mod)
  have "pa mod 4096 = 0 \<longleftrightarrow> unat (pa mod 4096) = 0"
    by (simp only: unat_eq_zero)
  then show ?thesis
    by (simp only: PGSIZE_def page_aligned_def u)
qed

lemma div_page_iff: "x div 4096 = a \<longleftrightarrow> 4096 * a \<le> x \<and> x < 4096 * a + 4096" for x a :: nat
  using dividend_less_times_div [of 4096 x] times_div_less_eq_dividend [of 4096 x]
    div_nat_eqI [of 4096 a x] by auto

lemma page_aligned_eq: "page_aligned p \<longleftrightarrow> unat p = 4096 * pg p"
  using div_mult_mod_eq [of "unat p" 4096] unfolding page_aligned_def pg_def by linarith

lemma pg_iff: "page_aligned p \<Longrightarrow> pg x = pg p \<longleftrightarrow> unat p \<le> unat x \<and> unat x < unat p + 4096"
  by (subst pg_def) (simp add: div_page_iff page_aligned_eq)

lemma page_aligned_end: "page_aligned p \<Longrightarrow> unat p + 4096 \<le> 2 ^ 64"
proof -
  assume "page_aligned p"
  then have "unat p = unat p div 4096 * 4096"
    by (simp add: page_aligned_def mod_0_imp_dvd)
  moreover have "unat p div 4096 < 2 ^ 52"
    using unat_less_64 [of p] by (intro less_mult_imp_div_less) simp
  ultimately show ?thesis by simp
qed

lemma pg_inject: "page_aligned p \<Longrightarrow> page_aligned q \<Longrightarrow> pg p = pg q \<longleftrightarrow> p = q"
  unfolding page_aligned_eq by (metis unsigned_word_eqI)

lemma pg_offset: "page_aligned p \<Longrightarrow> i < 4096 \<Longrightarrow> pg (p + of_nat i) = pg p"
  using page_aligned_end [of p] by (simp add: pg_iff unat_add_no_wrap)

lemma agree_off_refl [simp]: "agree_off p m m"
  by (simp add: agree_off_def)

lemma agree_off_trans: "agree_off p m m' \<Longrightarrow> agree_off p m' m'' \<Longrightarrow> agree_off p m m''"
  by (simp add: agree_off_def)

lemma agree_off_store:
  assumes "page_aligned p" and "unat p \<le> unat a" and "unat a + length bs \<le> unat p + 4096"
  shows "agree_off p m (store m a bs)"
  unfolding agree_off_def
proof (intro allI impI)
  fix x assume "pg x \<noteq> pg p"
  then have "unat x < unat p \<or> unat p + 4096 \<le> unat x"
    using assms(1) by (auto simp: pg_iff)
  then show "store m a bs x = m x"
    using assms page_aligned_end [OF assms(1)] by (intro store_outside) auto
qed

lemma agree_off_memset: "page_aligned p \<Longrightarrow> agree_off p m (memset m p c 4096)"
  by (simp add: memset_eq_store agree_off_store)

lemma agree_off_store64:
  "page_aligned p \<Longrightarrow> unat p \<le> unat a \<Longrightarrow> unat a + 8 \<le> unat p + 4096 \<Longrightarrow> agree_off p m (store64 m a v)"
  by (simp add: store64_def agree_off_store)

lemma load64_agree_off:
  assumes "agree_off p m m'" and "page_aligned q" and "i \<le> 4088" and "pg q \<noteq> pg p"
  shows "load64 m' (q + of_nat i) = load64 m (q + of_nat i)"
proof -
  have "load m' (q + of_nat i) 8 = load m (q + of_nat i) 8"
  proof (rule load_cong)
    fix j :: nat assume "j < 8"
    then have "pg (q + of_nat (i + j)) = pg q"
      using assms by (intro pg_offset) auto
    then show "m' (q + of_nat i + of_nat j) = m (q + of_nat i + of_nat j)"
      using assms(1,4) by (simp add: agree_off_def add.assoc)
  qed
  then show ?thesis by (simp add: load64_def)
qed

section \<open>Termination of freerange\<close>

lemma kfree_Ok_bound: "kfree p s = Ok t \<Longrightarrow> page_aligned p \<and> kend s \<le> p \<and> p < PHYSTOP"
  by (auto simp: kfree_def page_aligned_mod [unfolded PGSIZE_def] Let_def not_less not_le split: if_splits)

lemma below_PHYSTOP_next: "p < PHYSTOP \<Longrightarrow> unat (p + PGSIZE) = unat p + 4096"
  using unat_add_no_wrap [of p 4096] by (simp add: PHYSTOP_num word_less_nat_alt)

termination freerange_loop
proof (relation "measure (\<lambda>(p, pa_end, s). unat PHYSTOP - unat p)", goal_cases)
  case (2 p pa_end s t)
  then have "p < PHYSTOP"
    using kfree_Ok_bound by blast
  then show ?case
    using below_PHYSTOP_next [of p] by (simp add: word_less_nat_alt)
qed simp

declare freerange_loop.simps [simp del]

section \<open>The abstract free list\<close>

text \<open>
  \<open>flist m p xs\<close>: following \<^verbatim>\<open>next\<close> pointers from \<open>p\<close> visits the pages \<open>xs\<close>
  and ends in a null pointer.
\<close>

primrec flist :: "memory \<Rightarrow> addr \<Rightarrow> addr list \<Rightarrow> bool" where
  "flist m p [] \<longleftrightarrow> p = 0"
| "flist m p (x # xs) \<longleftrightarrow> p = x \<and> x \<noteq> 0 \<and> flist m (load64 m x) xs"

definition page_ok :: "'z kmem_scheme \<Rightarrow> addr \<Rightarrow> bool" where
  "page_ok s p \<longleftrightarrow> page_aligned p \<and> kend s \<le> p \<and> p < PHYSTOP"

definition free_pages :: "'z kmem_scheme \<Rightarrow> addr list \<Rightarrow> bool" where
  "free_pages s xs \<longleftrightarrow> flist (pmem s) (freelist s) xs \<and> distinct xs
     \<and> (\<forall>p\<in>set xs. page_ok s p) \<and> 0 < kend s"

lemma page_ok_nonzero: "0 < kend s \<Longrightarrow> page_ok s p \<Longrightarrow> p \<noteq> 0"
  by (auto simp: page_ok_def)

lemma flist_agree_off:
  assumes "agree_off q m m'" and "page_aligned q" and "q \<notin> set xs" and "\<forall>p\<in>set xs. page_aligned p"
  shows "flist m' r xs = flist m r xs"
  using assms
proof (induction xs arbitrary: r)
  case (Cons x xs)
  then have "load64 m' x = load64 m x"
    using load64_agree_off [of q m m' x 0] by (auto simp: pg_inject)
  with Cons show ?case by simp
qed simp

lemma free_pages_agree_off:
  assumes "free_pages s xs" and "agree_off q (pmem s) m'" and "page_aligned q" and "q \<notin> set xs"
  shows "free_pages (s\<lparr>pmem := m'\<rparr>) xs"
  using assms flist_agree_off [of q "pmem s" m' xs] by (auto simp: free_pages_def page_ok_def)

lemma kalloc_empty: "free_pages s [] \<Longrightarrow> kalloc s = (0, s)"
  by (simp add: free_pages_def kalloc_def)

lemma free_pagesD:
  assumes "free_pages s (p # ps)"
  shows "freelist s = p" and "p \<noteq> 0" and "page_aligned p" and "p \<notin> set ps"
    and "\<forall>q\<in>set ps. page_aligned q" and "flist (pmem s) (load64 (pmem s) p) ps"
  using assms by (auto simp: free_pages_def page_ok_def)

lemma kalloc_Cons:
  assumes "free_pages s (p # ps)"
  shows "kalloc s = (p, s\<lparr>freelist := load64 (pmem s) p, pmem := memset (pmem s) p 5 4096\<rparr>)"
    and "free_pages (s\<lparr>freelist := load64 (pmem s) p, pmem := memset (pmem s) p 5 4096\<rparr>) ps"
proof -
  note p = free_pagesD [OF assms]
  show "kalloc s = (p, s\<lparr>freelist := load64 (pmem s) p, pmem := memset (pmem s) p 5 4096\<rparr>)"
    using p by (simp add: kalloc_def)
  have "flist (memset (pmem s) p 5 4096) (load64 (pmem s) p) ps"
    using p flist_agree_off [OF agree_off_memset [OF p(3)] p(3-5)] by simp
  then show "free_pages (s\<lparr>freelist := load64 (pmem s) p, pmem := memset (pmem s) p 5 4096\<rparr>) ps"
    using assms by (simp add: free_pages_def page_ok_def)
qed

lemma kfree_push:
  assumes "free_pages s ps" and "page_ok s p" and "p \<notin> set ps"
  shows "kfree p s = Ok (s\<lparr>pmem := store64 (memset (pmem s) p 1 4096) p (freelist s), freelist := p\<rparr>)"
    and "free_pages (s\<lparr>pmem := store64 (memset (pmem s) p 1 4096) p (freelist s), freelist := p\<rparr>) (p # ps)"
proof -
  let ?m = "store64 (memset (pmem s) p 1 4096) p (freelist s)"
  have al: "page_aligned p" and nz: "p \<noteq> 0"
    using assms page_ok_nonzero by (auto simp: free_pages_def page_ok_def)
  have off: "agree_off p (pmem s) ?m"
    using al by (intro agree_off_trans [OF agree_off_memset agree_off_store64]) simp_all
  show "kfree p s = Ok (s\<lparr>pmem := ?m, freelist := p\<rparr>)"
    using assms(2) page_aligned_mod [of p]
    by (simp add: kfree_def page_ok_def not_less not_le)
  have "\<forall>q\<in>set ps. page_aligned q"
    using assms(1) by (simp add: free_pages_def page_ok_def)
  then have "flist ?m (freelist s) ps"
    using assms(1) flist_agree_off [OF off al assms(3)] by (simp add: free_pages_def)
  then show "free_pages (s\<lparr>pmem := ?m, freelist := p\<rparr>) (p # ps)"
    using assms nz by (simp add: free_pages_def page_ok_def load64_store64_same)
qed

section \<open>The allocator interface\<close>

text \<open>
  What the clients of the allocator (the page tables, the process table, pipes, \<^verbatim>\<open>exec\<close>)
  rely on: \<open>abs s ps\<close> says that \<open>ps\<close> are the free pages, \<open>valid s p\<close> that \<open>p\<close> is a
  page the allocator may own.
\<close>

locale page_allocator =
  fixes alloc :: "'s \<Rightarrow> addr \<times> 's"
    and free :: "addr \<Rightarrow> 's \<Rightarrow> 's outcome"
    and abs :: "'s \<Rightarrow> addr list \<Rightarrow> bool"
    and valid :: "'s \<Rightarrow> addr \<Rightarrow> bool"
  assumes alloc_empty: "abs s [] \<Longrightarrow> alloc s = (0, s)"
    and alloc_first: "abs s (p # ps) \<Longrightarrow> fst (alloc s) = p"
    and alloc_rest: "abs s (p # ps) \<Longrightarrow> abs (snd (alloc s)) ps"
    and alloc_valid: "valid (snd (alloc s)) q = valid s q"
    and free_back: "abs s ps \<Longrightarrow> valid s p \<Longrightarrow> p \<notin> set ps \<Longrightarrow> \<exists>t. free p s = Ok t \<and> abs t (p # ps)"
    and abs_wf: "abs s ps \<Longrightarrow> distinct ps \<and> 0 \<notin> set ps \<and> (\<forall>p\<in>set ps. valid s p)"
begin

lemma alloc_zero_iff: "abs s ps \<Longrightarrow> fst (alloc s) = 0 \<longleftrightarrow> ps = []"
  by (cases ps) (use alloc_empty alloc_first abs_wf in \<open>fastforce+\<close>)

lemma alloc_free: "abs s (p # ps) \<Longrightarrow> \<exists>t. free p (snd (alloc s)) = Ok t \<and> abs t (p # ps)"
  using abs_wf [of s "p # ps"] by (intro free_back alloc_rest) (auto simp: alloc_valid)

lemma alloc_twice:
  assumes "abs s ps" and "fst (alloc s) \<noteq> 0" and "fst (alloc (snd (alloc s))) \<noteq> 0"
  shows "fst (alloc (snd (alloc s))) \<noteq> fst (alloc s)"
proof -
  obtain p qs where p: "ps = p # qs"
    using assms alloc_zero_iff by (cases ps) auto
  then obtain q rs where "qs = q # rs"
    using assms alloc_zero_iff [OF alloc_rest] by (cases qs) auto
  then show ?thesis
    using assms(1) p alloc_first alloc_first [OF alloc_rest] abs_wf by fastforce
qed

end

lemma page_ok_upd [simp]:
  "page_ok (s\<lparr>pmem := m\<rparr>) p = page_ok s p"
  "page_ok (s\<lparr>freelist := f\<rparr>) p = page_ok s p"
  by (simp_all add: page_ok_def)

lemma kend_kalloc [simp]: "kend (snd (kalloc s)) = kend s"
  by (simp add: kalloc_def Let_def)

interpretation kmem: page_allocator kalloc kfree free_pages page_ok
proof unfold_locales
  show "\<exists>t. kfree p s = Ok t \<and> free_pages t (p # ps)"
    if "free_pages s ps" and "page_ok s p" and "p \<notin> set ps" for s :: "'a kmem_scheme" and p ps
    using kfree_push [OF that] by blast
qed (auto simp: kalloc_empty kalloc_Cons, auto simp: page_ok_def free_pages_def)

text \<open>
  C13. \<^verbatim>\<open>kalloc\<close> implements the abstract allocator: it returns 0 and changes nothing when no
  page is free; otherwise it returns the first free page, which no longer is on the free list,
  fills exactly that page with 5s, and leaves every byte of every other page as it was.
\<close>

theorem kalloc_refines:
  assumes "free_pages s ps" and "kalloc s = (r, t)"
  shows "(ps = [] \<longrightarrow> r = 0 \<and> t = s)
    \<and> (\<forall>p qs. ps = p # qs \<longrightarrow> r = p \<and> r \<noteq> 0 \<and> free_pages t qs \<and> r \<notin> set qs
         \<and> load (pmem t) r 4096 = replicate 4096 5 \<and> agree_off r (pmem s) (pmem t))"
proof (cases ps)
  case Nil
  then show ?thesis
    using assms kalloc_empty [of s] by simp
next
  case (Cons p qs)
  then have *: "free_pages s (p # qs)"
    using assms by simp
  have "load (memset (pmem s) p 5 4096) p 4096 = replicate 4096 5"
    by (simp add: memset_eq_store load_store_same)
  then show ?thesis
    using Cons assms(2) kalloc_Cons [OF *] free_pagesD [OF *]
    by (auto simp: agree_off_memset)
qed

text \<open>
  C17. \<^verbatim>\<open>kfree\<close> of a page that is not free puts it in front of the free list, touches no other
  page, and the next \<^verbatim>\<open>kalloc\<close> returns that page; anything that is not a page of the
  kernel's pool (unaligned, below \<^verbatim>\<open>end\<close>, or not below \<^verbatim>\<open>PHYSTOP\<close>) panics.
\<close>

theorem kfree_refines:
  assumes "free_pages s ps" and "p \<notin> set ps"
  shows "if page_ok s p
    then \<exists>t. kfree p s = Ok t \<and> free_pages t (p # ps) \<and> agree_off p (pmem s) (pmem t) \<and> fst (kalloc t) = p
    else kfree p s = Panic ''kfree''"
proof (cases "page_ok s p")
  case True
  note push = kfree_push [OF assms(1) True assms(2)]
  have al: "page_aligned p"
    using True by (simp add: page_ok_def)
  have "agree_off p (pmem s) (store64 (memset (pmem s) p 1 4096) p (freelist s))"
    using al by (intro agree_off_trans [OF agree_off_memset agree_off_store64]) simp_all
  then show ?thesis
    using True push kmem.alloc_first [OF push(2)] by simp
next
  case False
  then show ?thesis
    using page_aligned_mod [of p] by (auto simp: kfree_def page_ok_def not_less not_le)
qed

text \<open>A pool with one free page.\<close>

definition kmem_ex :: kmem where
  "kmem_ex = \<lparr>pmem = (\<lambda>_. 0), freelist = 0x80020000, kend = 0x80010000\<rparr>"

lemma load64_zero: "load64 (\<lambda>_. 0) a = 0"
proof -
  have "le_word (replicate n 0) = (0 :: u64)" for n
    by (induction n) auto
  then show ?thesis
    by (simp add: load64_def load_def map_replicate_const del: upt_Suc)
qed

lemma kmem_ex_free: "free_pages kmem_ex [0x80020000]"
  by (simp add: free_pages_def kmem_ex_def load64_zero page_ok_def page_aligned_def PHYSTOP_num)

theorem kalloc_refines_witness:
  "free_pages kmem_ex [0x80020000] \<and> fst (kalloc kmem_ex) = 0x80020000
   \<and> free_pages (snd (kalloc kmem_ex)) []"
  using kalloc_refines [OF kmem_ex_free, of "fst (kalloc kmem_ex)" "snd (kalloc kmem_ex)"] kmem_ex_free
  by simp

theorem kfree_refines_witness:
  "(\<exists>t. kfree 0x80030000 kmem_ex = Ok t \<and> fst (kalloc t) = 0x80030000) \<and> kfree 0x80030008 kmem_ex = Panic ''kfree''"
proof -
  have "page_ok kmem_ex 0x80030000" "\<not> page_ok kmem_ex 0x80030008"
    by (simp_all add: kmem_ex_def page_ok_def page_aligned_def PHYSTOP_num)
  then show ?thesis
    using kfree_refines [OF kmem_ex_free, of "0x80030000"] kfree_refines [OF kmem_ex_free, of "0x80030008"]
    by auto
qed

section \<open>Initialisation\<close>

definition pages_from :: "addr \<Rightarrow> nat \<Rightarrow> addr list" where
  "pages_from p n = map (\<lambda>i. p + of_nat i * PGSIZE) [0..<n]"

lemma pages_from_Suc: "pages_from p (Suc n) = p # pages_from (p + PGSIZE) n"
  by (rule nth_equalityI) (auto simp: pages_from_def nth_Cons algebra_simps simp del: upt_Suc split: nat.split)

lemma pages_from_0 [simp]: "pages_from p 0 = []"
  by (simp add: pages_from_def)

lemma freerange_loop_frees:
  assumes "free_pages s ps" and "page_aligned p" and "kend s \<le> p" and "p \<le> PHYSTOP"
    and "pa_end \<le> PHYSTOP" and "\<forall>q\<in>set ps. q < p" and "n = (unat pa_end - unat p) div 4096"
  shows "\<exists>t. freerange_loop p pa_end s = Ok t \<and> free_pages t (rev (pages_from p n) @ ps)"
  using assms
proof (induction n arbitrary: p s ps)
  case 0
  have u: "unat (p + 4096) = unat p + 4096"
    using 0 unat_add_no_wrap [of p 4096] by (simp add: PHYSTOP_num word_le_nat_alt)
  have "unat pa_end - unat p < 4096"
    using 0 by (metis div_eq_0_iff zero_neq_numeral)
  then have "\<not> p + PGSIZE \<le> pa_end"
    by (simp add: word_le_nat_alt u)
  then show ?case using 0 by (simp add: freerange_loop.simps [of p])
next
  case (Suc n)
  have u: "unat (p + 4096) = unat p + 4096"
    using Suc.prems unat_add_no_wrap [of p 4096] by (simp add: PHYSTOP_num word_le_nat_alt)
  have big: "4096 \<le> unat pa_end - unat p"
    using Suc.prems(7) by (cases "unat pa_end - unat p < 4096") auto
  then have n: "n = (unat pa_end - (unat p + 4096)) div 4096"
    using Suc.prems(7) le_div_geq [of 4096 "unat pa_end - unat p"] by simp
  from big have le: "p + PGSIZE \<le> pa_end"
    by (simp add: word_le_nat_alt u)
  then have lt: "p < PHYSTOP"
    using Suc.prems(5) u by (simp add: word_le_nat_alt word_less_nat_alt)
  have ok: "page_ok s p" and fresh: "p \<notin> set ps"
    using Suc.prems lt by (auto simp: page_ok_def)
  let ?t = "s\<lparr>pmem := store64 (memset (pmem s) p 1 4096) p (freelist s), freelist := p\<rparr>"
  note push = kfree_push [OF Suc.prems(1) ok fresh]
  have "\<exists>t. freerange_loop (p + PGSIZE) pa_end ?t = Ok t
      \<and> free_pages t (rev (pages_from (p + PGSIZE) n) @ p # ps)"
  proof (rule Suc.IH)
    show "page_aligned (p + PGSIZE)"
      using Suc.prems(2) by (simp add: page_aligned_def u)
    show "kend ?t \<le> p + PGSIZE" "p + PGSIZE \<le> PHYSTOP"
      using Suc.prems le by (auto simp: word_le_nat_alt u)
    show "\<forall>q\<in>set (p # ps). q < p + PGSIZE"
      using Suc.prems(6) by (auto simp: word_less_nat_alt u)
    show "n = (unat pa_end - unat (p + PGSIZE)) div 4096"
      using n by (simp add: u)
  qed (use push Suc.prems in auto)
  then show ?case
    using le push(1) by (simp add: pages_from_Suc freerange_loop.simps [of p])
qed

text \<open>
  C18. Boot: from an empty free list \<^verbatim>\<open>kinit\<close> terminates without panicking and makes every
  whole page between \<^verbatim>\<open>end\<close> and \<^verbatim>\<open>PHYSTOP\<close> free, each exactly once.
\<close>

theorem kinit_frees_all:
  assumes "freelist s = 0" and "0 < kend s" and "kend s \<le> PHYSTOP"
  shows "\<exists>t. kinit s = Ok t
    \<and> free_pages t (rev (pages_from (PGROUNDUP (kend s)) ((unat PHYSTOP - unat (PGROUNDUP (kend s))) div 4096)))"
proof -
  let ?p = "PGROUNDUP (kend s)"
  have small: "unat (kend s) \<le> 0x88000000"
    using assms(3) by (simp add: PHYSTOP_num word_le_nat_alt)
  then have u: "unat ?p = (unat (kend s) + 4095) div 4096 * 4096"
    by (intro unat_PGROUNDUP) simp
  have lo: "unat (kend s) \<le> unat ?p"
    using u div_mult_mod_eq [of "unat (kend s) + 4095" 4096] mod_less_divisor [of 4096 "unat (kend s) + 4095"]
    by linarith
  have hi: "unat ?p \<le> 0x88000000"
  proof -
    have "(unat (kend s) + 4095) div 4096 \<le> (0x88000000 + 4095) div 4096"
      using small by (intro div_le_mono) simp
    then show ?thesis by (simp add: u)
  qed
  have "\<exists>t. freerange_loop ?p PHYSTOP s = Ok t
      \<and> free_pages t (rev (pages_from ?p ((unat PHYSTOP - unat ?p) div 4096)) @ [])"
  proof (rule freerange_loop_frees)
    show "free_pages s []"
      using assms by (simp add: free_pages_def)
    show "page_aligned ?p"
      by (simp add: page_aligned_def u)
    show "kend s \<le> ?p"
      using lo by (simp add: word_le_nat_alt)
    show "?p \<le> PHYSTOP"
      using hi by (simp add: word_le_nat_alt PHYSTOP_num)
  qed simp_all
  then show ?thesis
    by (simp add: kinit_def freerange_def)
qed

theorem kinit_frees_all_witness:
  "\<exists>t. kinit \<lparr>pmem = (\<lambda>_. 0), freelist = 0, kend = 0x80010001\<rparr> = Ok t
    \<and> free_pages t (rev (pages_from (PGROUNDUP 0x80010001) ((unat PHYSTOP - unat (PGROUNDUP 0x80010001)) div 4096)))"
  using kinit_frees_all [of "\<lparr>pmem = (\<lambda>_. 0), freelist = 0, kend = 0x80010001\<rparr>"]
  by (simp add: PHYSTOP_num)

end
