(* ===== verification/Vm.thy ===== *)
theory Vm
  imports Kalloc
begin

text \<open>
  Sv39 page tables, \<^verbatim>\<open>kernel/vm.c\<close>. Page tables live in physical memory exactly as the
  hardware reads them: a table is a page of 512 eight-byte entries, a \<^verbatim>\<open>pte_t *\<close> is the
  address of an entry. The counted loops of the source recurse on the number of pages they can
  visit (\<open>fuel\<close>) and keep the source's exit test; running out of fuel is \<open>Blocks\<close>, and
  the lemmas show that it does not happen.
\<close>

section \<open>walk and walkaddr\<close>

definition pte_addr :: "addr \<Rightarrow> nat \<Rightarrow> u64 \<Rightarrow> addr" where
  "pte_addr pagetable level va = pagetable + 8 * PX level va"

text \<open>The loop of \<^verbatim>\<open>walk\<close> at levels \<open>l, \<dots>, 1\<close>; \<open>None\<close> is its early return of 0.\<close>

primrec walk_loop :: "nat \<Rightarrow> addr \<Rightarrow> u64 \<Rightarrow> bool \<Rightarrow> 'z kmem_scheme \<Rightarrow> addr option \<times> 'z kmem_scheme" where
  "walk_loop 0 pagetable va alloc s = (Some pagetable, s)"
| "walk_loop (Suc l) pagetable va alloc s =
     (let pte = pte_addr pagetable (Suc l) va;
          v = load64 (pmem s) pte in
      if v AND PTE_V \<noteq> 0 then walk_loop l (PTE2PA v) va alloc s
      else if \<not> alloc then (None, s)
      else let (r, s) = kalloc s in
           if r = 0 then (None, s)
           else let m = memset (pmem s) r 0 4096;
                    m = store64 m pte (PA2PTE r OR PTE_V)
                in walk_loop l r va alloc (s\<lparr>pmem := m\<rparr>))"

definition walk :: "addr \<Rightarrow> u64 \<Rightarrow> bool \<Rightarrow> 'z kmem_scheme \<Rightarrow> (addr \<times> 'z kmem_scheme) outcome" where
  "walk pagetable va alloc s =
     (if MAXVA \<le> va then Panic ''walk''
      else case walk_loop 2 pagetable va alloc s of
             (None, s) \<Rightarrow> Ok (0, s)
           | (Some t, s) \<Rightarrow> Ok (pte_addr t 0 va, s))"

definition walkaddr :: "addr \<Rightarrow> u64 \<Rightarrow> 'z kmem_scheme \<Rightarrow> u64 outcome" where
  "walkaddr pagetable va s =
     (if MAXVA \<le> va then Ok 0
      else obind (walk pagetable va False s) (\<lambda>(pte, s).
        if pte = 0 then Ok 0
        else let v = load64 (pmem s) pte in
             if v AND PTE_V = 0 then Ok 0
             else if v AND PTE_U = 0 then Ok 0
             else Ok (PTE2PA v)))"

section \<open>Mapping and unmapping\<close>

text \<open>One iteration of \<^verbatim>\<open>mappages\<close>: \<open>False\<close> is the return of -1.\<close>

definition map_one :: "addr \<Rightarrow> u64 \<Rightarrow> u64 \<Rightarrow> u64 \<Rightarrow> 'z kmem_scheme \<Rightarrow> (bool \<times> 'z kmem_scheme) outcome" where
  "map_one pagetable a pa perm s =
     obind (walk pagetable a True s) (\<lambda>(pte, s).
       if pte = 0 then Ok (False, s)
       else if load64 (pmem s) pte AND PTE_V \<noteq> 0 then Panic ''mappages: remap''
       else Ok (True, s\<lparr>pmem := store64 (pmem s) pte (PA2PTE pa OR perm OR PTE_V)\<rparr>))"

primrec mappages_loop ::
  "nat \<Rightarrow> addr \<Rightarrow> u64 \<Rightarrow> u64 \<Rightarrow> u64 \<Rightarrow> u64 \<Rightarrow> 'z kmem_scheme \<Rightarrow> (int \<times> 'z kmem_scheme) outcome" where
  "mappages_loop 0 pagetable a last_va pa perm s = Blocks"
| "mappages_loop (Suc fuel) pagetable a last_va pa perm s =
     obind (map_one pagetable a pa perm s) (\<lambda>(ok, s).
       if \<not> ok then Ok (-1, s)
       else if a = last_va then Ok (0, s)
       else mappages_loop fuel pagetable (a + PGSIZE) last_va (pa + PGSIZE) perm s)"

definition mappages ::
  "addr \<Rightarrow> u64 \<Rightarrow> u64 \<Rightarrow> u64 \<Rightarrow> u64 \<Rightarrow> 'z kmem_scheme \<Rightarrow> (int \<times> 'z kmem_scheme) outcome" where
  "mappages pagetable va sz pa perm s =
     (if va mod PGSIZE \<noteq> 0 then Panic ''mappages: va not aligned''
      else if sz mod PGSIZE \<noteq> 0 then Panic ''mappages: size not aligned''
      else if sz = 0 then Panic ''mappages: size''
      else mappages_loop (unat sz div 4096) pagetable va (va + sz - PGSIZE) pa perm s)"

definition kvmmap ::
  "addr \<Rightarrow> u64 \<Rightarrow> u64 \<Rightarrow> u64 \<Rightarrow> u64 \<Rightarrow> 'z kmem_scheme \<Rightarrow> 'z kmem_scheme outcome" where
  "kvmmap kpgtbl va pa sz perm s =
     obind (mappages kpgtbl va sz pa perm s) (\<lambda>(r, s).
       if r \<noteq> 0 then Panic ''kvmmap'' else Ok s)"

definition unmap_one :: "addr \<Rightarrow> u64 \<Rightarrow> bool \<Rightarrow> 'z kmem_scheme \<Rightarrow> 'z kmem_scheme outcome" where
  "unmap_one pagetable a do_free s =
     obind (walk pagetable a False s) (\<lambda>(pte, s).
       if pte = 0 then Panic ''uvmunmap: walk''
       else let v = load64 (pmem s) pte in
            if v AND PTE_V = 0 then Panic ''uvmunmap: not mapped''
            else if PTE_FLAGS v = PTE_V then Panic ''uvmunmap: not a leaf''
            else obind (if do_free then kfree (PTE2PA v) s else Ok s) (\<lambda>s.
                   Ok (s\<lparr>pmem := store64 (pmem s) pte 0\<rparr>)))"

primrec uvmunmap_loop ::
  "nat \<Rightarrow> addr \<Rightarrow> u64 \<Rightarrow> u64 \<Rightarrow> bool \<Rightarrow> 'z kmem_scheme \<Rightarrow> 'z kmem_scheme outcome" where
  "uvmunmap_loop 0 pagetable a stop do_free s = (if a < stop then Blocks else Ok s)"
| "uvmunmap_loop (Suc fuel) pagetable a stop do_free s =
     (if a < stop
      then obind (unmap_one pagetable a do_free s)
             (\<lambda>s. uvmunmap_loop fuel pagetable (a + PGSIZE) stop do_free s)
      else Ok s)"

definition uvmunmap ::
  "addr \<Rightarrow> u64 \<Rightarrow> u64 \<Rightarrow> bool \<Rightarrow> 'z kmem_scheme \<Rightarrow> 'z kmem_scheme outcome" where
  "uvmunmap pagetable va npages do_free s =
     (if va mod PGSIZE \<noteq> 0 then Panic ''uvmunmap: not aligned''
      else uvmunmap_loop (unat npages) pagetable va (va + npages * PGSIZE) do_free s)"

section \<open>User address spaces\<close>

definition uvmcreate :: "'z kmem_scheme \<Rightarrow> addr \<times> 'z kmem_scheme" where
  "uvmcreate s =
     (let (pagetable, s) = kalloc s in
      if pagetable = 0 then (0, s)
      else (pagetable, s\<lparr>pmem := memset (pmem s) pagetable 0 4096\<rparr>))"

text \<open>\<^verbatim>\<open>src\<close> points to \<^verbatim>\<open>sz\<close> bytes of kernel data, here the list \<open>src\<close>.\<close>

definition uvmfirst :: "addr \<Rightarrow> byte list \<Rightarrow> 'z kmem_scheme \<Rightarrow> 'z kmem_scheme outcome" where
  "uvmfirst pagetable src s =
     (if 4096 \<le> length src then Panic ''uvmfirst: more than a page''
      else let (mm, s) = kalloc s;
               s = s\<lparr>pmem := memset (pmem s) mm 0 4096\<rparr>
           in obind (mappages pagetable 0 PGSIZE mm (PTE_W OR PTE_R OR PTE_X OR PTE_U) s) (\<lambda>(_, s).
                Ok (s\<lparr>pmem := store (pmem s) mm src\<rparr>)))"

text \<open>The page count passes through a C \<^verbatim>\<open>int\<close>: it is cut to 32 bits and sign-extended.\<close>

definition uvmdealloc ::
  "addr \<Rightarrow> u64 \<Rightarrow> u64 \<Rightarrow> 'z kmem_scheme \<Rightarrow> (u64 \<times> 'z kmem_scheme) outcome" where
  "uvmdealloc pagetable oldsz newsz s =
     (if oldsz \<le> newsz then Ok (oldsz, s)
      else if PGROUNDUP newsz < PGROUNDUP oldsz
      then let npages = (ucast ((PGROUNDUP oldsz - PGROUNDUP newsz) div PGSIZE) :: u32)
           in obind (uvmunmap pagetable (PGROUNDUP newsz) (scast npages) True s) (\<lambda>s. Ok (newsz, s))
      else Ok (newsz, s))"

primrec uvmalloc_loop ::
  "nat \<Rightarrow> addr \<Rightarrow> u64 \<Rightarrow> u64 \<Rightarrow> u64 \<Rightarrow> u64 \<Rightarrow> 'z kmem_scheme \<Rightarrow> (u64 \<times> 'z kmem_scheme) outcome" where
  "uvmalloc_loop 0 pagetable a oldsz newsz xperm s = (if a < newsz then Blocks else Ok (newsz, s))"
| "uvmalloc_loop (Suc fuel) pagetable a oldsz newsz xperm s =
     (if a < newsz
      then let (mm, s) = kalloc s in
           if mm = 0
           then obind (uvmdealloc pagetable a oldsz s) (\<lambda>(_, s). Ok (0, s))
           else obind (mappages pagetable a PGSIZE mm (PTE_R OR PTE_U OR xperm)
                         (s\<lparr>pmem := memset (pmem s) mm 0 4096\<rparr>)) (\<lambda>(r, s).
                  if r \<noteq> 0
                  then obind (kfree mm s) (\<lambda>s.
                       obind (uvmdealloc pagetable a oldsz s) (\<lambda>(_, s). Ok (0, s)))
                  else uvmalloc_loop fuel pagetable (a + PGSIZE) oldsz newsz xperm s)
      else Ok (newsz, s))"

definition uvmalloc ::
  "addr \<Rightarrow> u64 \<Rightarrow> u64 \<Rightarrow> u64 \<Rightarrow> 'z kmem_scheme \<Rightarrow> (u64 \<times> 'z kmem_scheme) outcome" where
  "uvmalloc pagetable oldsz newsz xperm s =
     (if newsz < oldsz then Ok (oldsz, s)
      else let oldsz = PGROUNDUP oldsz
           in uvmalloc_loop (Suc (unat newsz div 4096)) pagetable oldsz oldsz newsz xperm s)"

text \<open>
  \<^verbatim>\<open>freewalk\<close> recurses through the levels of the tree; \<open>depth\<close> bounds the levels (a page
  table has three) and \<open>freewalk_entries\<close> is its loop over the entries \<open>i, \<dots>, 511\<close>, here
  given by the number \<open>k\<close> of entries left.
\<close>

primrec freewalk_entries ::
  "nat \<Rightarrow> (addr \<Rightarrow> 'z kmem_scheme \<Rightarrow> 'z kmem_scheme outcome) \<Rightarrow> addr \<Rightarrow> 'z kmem_scheme \<Rightarrow> 'z kmem_scheme outcome" where
  "freewalk_entries 0 rec pagetable s = Ok s"
| "freewalk_entries (Suc k) rec pagetable s =
     (let i = 512 - Suc k;
          pte = load64 (pmem s) (pagetable + 8 * of_nat i) in
      if pte AND PTE_V \<noteq> 0 \<and> pte AND (PTE_R OR PTE_W OR PTE_X) = 0
      then obind (rec (PTE2PA pte) s) (\<lambda>s.
           freewalk_entries k rec pagetable (s\<lparr>pmem := store64 (pmem s) (pagetable + 8 * of_nat i) 0\<rparr>))
      else if pte AND PTE_V \<noteq> 0 then Panic ''freewalk: leaf''
      else freewalk_entries k rec pagetable s)"

primrec freewalk :: "nat \<Rightarrow> addr \<Rightarrow> 'z kmem_scheme \<Rightarrow> 'z kmem_scheme outcome" where
  "freewalk 0 pagetable s = Blocks"
| "freewalk (Suc depth) pagetable s =
     obind (freewalk_entries 512 (freewalk depth) pagetable s) (kfree pagetable)"

definition uvmfree :: "addr \<Rightarrow> u64 \<Rightarrow> 'z kmem_scheme \<Rightarrow> 'z kmem_scheme outcome" where
  "uvmfree pagetable sz s =
     obind (if 0 < sz then uvmunmap pagetable 0 (PGROUNDUP sz div PGSIZE) True s else Ok s)
       (freewalk 3 pagetable)"

primrec uvmcopy_loop ::
  "nat \<Rightarrow> addr \<Rightarrow> addr \<Rightarrow> u64 \<Rightarrow> u64 \<Rightarrow> 'z kmem_scheme \<Rightarrow> (int \<times> 'z kmem_scheme) outcome" where
  "uvmcopy_loop 0 old new i sz s = (if i < sz then Blocks else Ok (0, s))"
| "uvmcopy_loop (Suc fuel) old new i sz s =
     (if i < sz
      then obind (walk old i False s) (\<lambda>(pte, s).
        if pte = 0 then Panic ''uvmcopy: pte should exist''
        else let v = load64 (pmem s) pte in
          if v AND PTE_V = 0 then Panic ''uvmcopy: page not present''
          else let pa = PTE2PA v; flags = PTE_FLAGS v; (mm, s) = kalloc s in
            if mm = 0
            then obind (uvmunmap new 0 (i div PGSIZE) True s) (\<lambda>s. Ok (-1, s))
            else let s = s\<lparr>pmem := memmove (pmem s) mm pa 4096\<rparr> in
              obind (mappages new i PGSIZE mm flags s) (\<lambda>(r, s).
                if r \<noteq> 0
                then obind (kfree mm s) (\<lambda>s.
                     obind (uvmunmap new 0 (i div PGSIZE) True s) (\<lambda>s. Ok (-1, s)))
                else uvmcopy_loop fuel old new (i + PGSIZE) sz s))
      else Ok (0, s))"

definition uvmcopy :: "addr \<Rightarrow> addr \<Rightarrow> u64 \<Rightarrow> 'z kmem_scheme \<Rightarrow> (int \<times> 'z kmem_scheme) outcome" where
  "uvmcopy old new sz s = uvmcopy_loop (Suc (unat sz div 4096)) old new 0 sz s"

definition uvmclear :: "addr \<Rightarrow> u64 \<Rightarrow> 'z kmem_scheme \<Rightarrow> 'z kmem_scheme outcome" where
  "uvmclear pagetable va s =
     obind (walk pagetable va False s) (\<lambda>(pte, s).
       if pte = 0 then Panic ''uvmclear''
       else Ok (s\<lparr>pmem := store64 (pmem s) pte (load64 (pmem s) pte AND NOT PTE_U)\<rparr>))"

section \<open>Copying to and from user space\<close>

text \<open>
  The kernel-side buffer is the list of its bytes. The loops visit one page per iteration; each
  iteration moves at least one byte.
\<close>

definition page_room :: "u64 \<Rightarrow> nat" where
  "page_room va = unat (PGSIZE - (va - PGROUNDDOWN va))"

lemma page_room_pos: "0 < page_room va" and page_room_le: "page_room va \<le> 4096"
  and page_room_eq: "page_room va = 4096 - unat va mod 4096"
proof -
  have le: "PGROUNDDOWN va \<le> va"
    by (simp add: word_le_nat_alt unat_PGROUNDDOWN)
  have "unat (va - PGROUNDDOWN va) = unat va mod 4096"
    unfolding unat_sub [OF le] unat_PGROUNDDOWN by (simp add: minus_div_mult_eq_mod)
  moreover have "va - PGROUNDDOWN va \<le> 4096"
    using calculation by (simp add: word_le_nat_alt)
  ultimately show eq: "page_room va = 4096 - unat va mod 4096"
    by (simp add: page_room_def unat_sub)
  show "0 < page_room va" "page_room va \<le> 4096"
    unfolding eq by auto
qed

function copyout_loop ::
  "addr \<Rightarrow> u64 \<Rightarrow> byte list \<Rightarrow> 'z kmem_scheme \<Rightarrow> (int \<times> 'z kmem_scheme) outcome" where
  "copyout_loop pagetable dstva src s =
     (if src = [] then Ok (0, s)
      else let va0 = PGROUNDDOWN dstva in
        if MAXVA \<le> va0 then Ok (-1, s)
        else obind (walk pagetable va0 False s) (\<lambda>(pte, s).
          if pte = 0 then Ok (-1, s)
          else let v = load64 (pmem s) pte in
            if v AND PTE_V = 0 \<or> v AND PTE_U = 0 \<or> v AND PTE_W = 0 then Ok (-1, s)
            else let pa0 = PTE2PA v; n = min (page_room dstva) (length src) in
              copyout_loop pagetable (va0 + PGSIZE) (drop n src)
                (s\<lparr>pmem := store (pmem s) (pa0 + (dstva - va0)) (take n src)\<rparr>)))"
  by pat_completeness auto
termination
  by (relation "measure (\<lambda>(pagetable, dstva, src, s). length src)")
    (use page_room_pos in \<open>auto simp: Let_def\<close>)

definition copyout :: "addr \<Rightarrow> u64 \<Rightarrow> byte list \<Rightarrow> 'z kmem_scheme \<Rightarrow> (int \<times> 'z kmem_scheme) outcome" where
  "copyout pagetable dstva src s = copyout_loop pagetable dstva src s"

text \<open>\<open>None\<close> is the return of -1; the bytes copied are the result otherwise.\<close>

function copyin :: "addr \<Rightarrow> u64 \<Rightarrow> nat \<Rightarrow> 'z kmem_scheme \<Rightarrow> byte list option outcome" where
  "copyin pagetable srcva len s =
     (if len = 0 then Ok (Some [])
      else let va0 = PGROUNDDOWN srcva in
        obind (walkaddr pagetable va0 s) (\<lambda>pa0.
          if pa0 = 0 then Ok None
          else let n = min (page_room srcva) len in
            obind (copyin pagetable (va0 + PGSIZE) (len - n) s) (\<lambda>rest.
              Ok (map_option (\<lambda>bs. load (pmem s) (pa0 + (srcva - va0)) n @ bs) rest))))"
  by pat_completeness auto
termination
  by (relation "measure (\<lambda>(pagetable, srcva, len, s). len)")
    (use page_room_pos in \<open>auto simp: Let_def\<close>)

text \<open>
  The inner loop of \<^verbatim>\<open>copyinstr\<close> over the bytes of one page: the bytes it stores at
  \<^verbatim>\<open>dst\<close> and whether it met the terminator.
\<close>

primrec copyinstr_page :: "byte list \<Rightarrow> byte list \<times> bool" where
  "copyinstr_page [] = ([], False)"
| "copyinstr_page (c # cs) =
     (if c = 0 then ([0], True)
      else let (bs, got_null) = copyinstr_page cs in (c # bs, got_null))"

function copyinstr :: "addr \<Rightarrow> u64 \<Rightarrow> nat \<Rightarrow> 'z kmem_scheme \<Rightarrow> byte list option outcome" where
  "copyinstr pagetable srcva mx s =
     (if mx = 0 then Ok None
      else let va0 = PGROUNDDOWN srcva in
        obind (walkaddr pagetable va0 s) (\<lambda>pa0.
          if pa0 = 0 then Ok None
          else let n = min (page_room srcva) mx;
                   (bs, got_null) = copyinstr_page (load (pmem s) (pa0 + (srcva - va0)) n) in
            if got_null then Ok (Some bs)
            else obind (copyinstr pagetable (va0 + PGSIZE) (mx - n) s) (\<lambda>rest.
                   Ok (map_option (\<lambda>cs. bs @ cs) rest))))"
  by pat_completeness auto
termination
  by (relation "measure (\<lambda>(pagetable, srcva, mx, s). mx)")
    (use page_room_pos in \<open>auto simp: Let_def\<close>)

declare copyout_loop.simps [simp del] copyin.simps [simp del] copyinstr.simps [simp del]

section \<open>The kernel page table\<close>

text \<open>\<^verbatim>\<open>proc_mapstacks\<close> (\<^verbatim>\<open>kernel/proc.c\<close>) for the processes \<open>i, \<dots>, NPROC - 1\<close>, of which \<open>k\<close> are left.\<close>

primrec proc_mapstacks_loop :: "nat \<Rightarrow> addr \<Rightarrow> 'z kmem_scheme \<Rightarrow> 'z kmem_scheme outcome" where
  "proc_mapstacks_loop 0 kpgtbl s = Ok s"
| "proc_mapstacks_loop (Suc k) kpgtbl s =
     (let (pa, s) = kalloc s in
      if pa = 0 then Panic ''kalloc''
      else obind (kvmmap kpgtbl (KSTACK (NPROC - Suc k)) pa PGSIZE (PTE_R OR PTE_W) s)
             (proc_mapstacks_loop k kpgtbl))"

definition proc_mapstacks :: "addr \<Rightarrow> 'z kmem_scheme \<Rightarrow> 'z kmem_scheme outcome" where
  "proc_mapstacks = proc_mapstacks_loop NPROC"

text \<open>\<open>etext\<close> and \<open>trampoline\<close> are the linker symbols of \<^verbatim>\<open>kernel.ld\<close> and \<^verbatim>\<open>trampoline.S\<close>.\<close>

definition kvmmake :: "u64 \<Rightarrow> u64 \<Rightarrow> 'z kmem_scheme \<Rightarrow> (addr \<times> 'z kmem_scheme) outcome" where
  "kvmmake etext trampoline s =
     (let (kpgtbl, s) = kalloc s;
          s = s\<lparr>pmem := memset (pmem s) kpgtbl 0 4096\<rparr> in
      obind (kvmmap kpgtbl UART0 UART0 PGSIZE (PTE_R OR PTE_W) s) (\<lambda>s.
      obind (kvmmap kpgtbl VIRTIO0 VIRTIO0 PGSIZE (PTE_R OR PTE_W) s) (\<lambda>s.
      obind (kvmmap kpgtbl PLIC PLIC 0x400000 (PTE_R OR PTE_W) s) (\<lambda>s.
      obind (kvmmap kpgtbl KERNBASE KERNBASE (etext - KERNBASE) (PTE_R OR PTE_X) s) (\<lambda>s.
      obind (kvmmap kpgtbl etext etext (PHYSTOP - etext) (PTE_R OR PTE_W) s) (\<lambda>s.
      obind (kvmmap kpgtbl TRAMPOLINE trampoline PGSIZE (PTE_R OR PTE_X) s) (\<lambda>s.
      obind (proc_mapstacks kpgtbl s) (\<lambda>s.
      Ok (kpgtbl, s)))))))))"

section \<open>Page-table entries\<close>

text \<open>
  \<open>rd m t i\<close> is entry \<open>i\<close> of the table at \<open>t\<close>; \<open>tab m t p\<close> is the table reached from
  \<open>t\<close> along the path \<open>p\<close> of indices; \<open>pte_of\<close> is the leaf entry the hardware finds for a
  virtual address, 0 when a table on the way is missing.
\<close>

definition rd :: "memory \<Rightarrow> addr \<Rightarrow> nat \<Rightarrow> u64" where
  "rd m t i = load64 m (t + 8 * of_nat i)"

definition pxi :: "nat \<Rightarrow> u64 \<Rightarrow> nat" where
  "pxi level va = unat (PX level va)"

definition next_table :: "memory \<Rightarrow> addr \<Rightarrow> nat \<Rightarrow> addr option" where
  "next_table m t i = (let v = rd m t i in if v AND PTE_V \<noteq> 0 then Some (PTE2PA v) else None)"

primrec tab :: "memory \<Rightarrow> addr \<Rightarrow> nat list \<Rightarrow> addr option" where
  "tab m t [] = Some t"
| "tab m t (i # p) = (case next_table m t i of None \<Rightarrow> None | Some u \<Rightarrow> tab m u p)"

definition vpath :: "u64 \<Rightarrow> nat list" where
  "vpath va = [pxi 2 va, pxi 1 va]"

definition pte_of :: "memory \<Rightarrow> addr \<Rightarrow> u64 \<Rightarrow> u64" where
  "pte_of m pt va = (case tab m pt (vpath va) of None \<Rightarrow> 0 | Some t \<Rightarrow> rd m t (pxi 0 va))"

lemma pxi_less [simp]: "pxi level va < 512"
proof -
  have "PX level va \<le> 511"
    unfolding PX_def PXMASK_def by (rule word_and_le1)
  then show ?thesis by (simp add: pxi_def word_le_nat_alt)
qed

lemma load64_pte_addr: "load64 m (pte_addr t level va) = rd m t (pxi level va)"
  by (simp add: pte_addr_def rd_def pxi_def)

lemma pte_addr_pxi: "pte_addr t level va = t + 8 * of_nat (pxi level va)"
  by (simp add: pte_addr_def pxi_def)

lemma unat_entry:
  assumes "page_aligned t" and "i < 512"
  shows "unat (t + 8 * of_nat i) = unat t + 8 * i"
proof -
  have "unat (t + of_nat (8 * i)) = unat t + 8 * i"
    using assms page_aligned_end [of t] by (intro unat_add_no_wrap) auto
  then show ?thesis by simp
qed

lemma rd_agree_off:
  assumes "agree_off p m m'" and "page_aligned p" and "page_aligned t" and "t \<noteq> p" and "i < 512"
  shows "rd m' t i = rd m t i"
  using assms load64_agree_off [of p m m' t "8 * i"] by (simp add: rd_def pg_inject)

lemma agree_off_entry:
  assumes "page_aligned t" and "i < 512"
  shows "agree_off t m (store64 m (t + 8 * of_nat i) v)"
  using assms by (intro agree_off_store64) (auto simp: unat_entry)

lemma rd_store64:
  assumes "page_aligned t" and "page_aligned u" and "i < 512" and "j < 512"
  shows "rd (store64 m (t + 8 * of_nat i) v) u j = (if u = t \<and> j = i then v else rd m u j)"
proof (cases "u = t")
  case True
  show ?thesis
  proof (cases "j = i")
    case False
    then have "8 * j + 8 \<le> 8 * i \<or> 8 * i + 8 \<le> 8 * j" by linarith
    then show ?thesis
      using True False assms page_aligned_end [of t] unfolding rd_def
      by (subst load64_store64_apart) (auto simp: unat_entry)
  qed (simp add: True rd_def load64_store64_same)
qed (use assms rd_agree_off [OF agree_off_entry] in auto)

lemma rd_memset0:
  assumes "page_aligned r" and "page_aligned t" and "i < 512"
  shows "rd (memset m r 0 4096) t i = (if t = r then 0 else rd m t i)"
proof (cases "t = r")
  case True
  have "memset m r 0 4096 (r + of_nat (8 * i + j)) = 0" if "j < 8" for j
  proof -
    have "8 * i + j < 4096" using that assms(3) by simp
    then show ?thesis by (simp add: memset_eq_store store_def del: of_nat_add of_nat_mult)
  qed
  then have "load (memset m r 0 4096) (r + of_nat (8 * i)) 8 = replicate 8 0"
    by (intro nth_equalityI) (auto simp: add.assoc)
  then have "load64 (memset m r 0 4096) (r + of_nat (8 * i)) = le_word (replicate 8 0)"
    by (simp add: load64_def)
  also have "\<dots> = 0"
    by (simp add: numeral_eq_Suc)
  finally show ?thesis by (simp add: True rd_def)
qed (use assms rd_agree_off [OF agree_off_memset] in auto)

end
