(* ===== verification/Pagetable.thy ===== *)
theory Pagetable
  imports Vm "HOL-Library.Sublist"
begin

text \<open>
  Correctness of \<^verbatim>\<open>kernel/vm.c\<close>: a page table in memory represents the partial map
  \<open>pte_of\<close> from virtual pages to leaf entries. The invariant is that the tables form a tree of
  pages the allocator handed out and has not taken back; under it \<^verbatim>\<open>walk\<close>,
  \<^verbatim>\<open>mappages\<close> and \<^verbatim>\<open>uvmunmap\<close> act on that map as the corresponding map operations.
\<close>

section \<open>Entry encoding\<close>

lemma drop_bit_small: "f < 1024 \<Longrightarrow> drop_bit 10 (f :: u64) = 0"
  by (simp add: drop_bit_eq_div word_less_nat_alt flip: unat_eq_zero) (simp add: unat_div)

lemma page_aligned_take_bit: "page_aligned r \<longleftrightarrow> take_bit 12 r = 0"
proof -
  have "unat (take_bit 12 r) = unat r mod 4096"
    by (simp add: take_bit_eq_mod unat_mod)
  then show ?thesis
    unfolding page_aligned_def by (metis unat_eq_zero)
qed

lemma PTE2PA_PA2PTE:
  assumes "page_aligned r" and "f < 1024"
  shows "PTE2PA (PA2PTE r OR f) = r"
proof -
  have "drop_bit 10 (push_bit 10 (drop_bit 12 r)) = drop_bit 12 r"
    by (rule bit_word_eqI) (auto simp: bit_simps dest: bit_imp_le_length)
  then have "PTE2PA (PA2PTE r OR f) = push_bit 12 (drop_bit 12 r)"
    by (simp add: PTE2PA_def PA2PTE_def drop_bit_small [OF assms(2)])
  also have "\<dots> = r"
    using assms(1) bits_ident [where n = 12 and a = r] by (simp add: page_aligned_take_bit)
  finally show ?thesis .
qed

lemma page_aligned_PTE2PA [simp]: "page_aligned (PTE2PA v)"
  unfolding page_aligned_take_bit PTE2PA_def
  by (rule bit_word_eqI) (auto simp: bit_simps)

lemma PA2PTE_and: "k < 1024 \<Longrightarrow> (PA2PTE r OR f) AND k = f AND k"
proof -
  assume k: "k < 1024"
  have "\<not> bit k n" if "10 \<le> n" for n
  proof -
    have "bit (drop_bit 10 k) (n - 10) \<longleftrightarrow> False"
      by (simp add: drop_bit_small [OF k])
    then show ?thesis using that by (simp add: bit_simps)
  qed
  then show ?thesis
    by (intro bit_word_eqI) (auto simp: PA2PTE_def bit_simps not_le)
qed

section \<open>Paths through the tables\<close>

definition paths :: "nat list set" where
  "paths = {p. length p \<le> 2 \<and> (\<forall>i\<in>set p. i < 512)}"

text \<open>The page table is a tree: no two paths lead to the same table.\<close>

definition pt_tree :: "memory \<Rightarrow> addr \<Rightarrow> bool" where
  "pt_tree m pt \<longleftrightarrow> page_aligned pt
     \<and> (\<forall>p\<in>paths. \<forall>q\<in>paths. \<forall>t. tab m pt p = Some t \<longrightarrow> tab m pt q = Some t \<longrightarrow> p = q)"

definition is_table :: "memory \<Rightarrow> addr \<Rightarrow> addr \<Rightarrow> bool" where
  "is_table m pt t \<longleftrightarrow> (\<exists>p\<in>paths. tab m pt p = Some t)"

lemma tab_append: "tab m pt (p @ q) = (case tab m pt p of None \<Rightarrow> None | Some t \<Rightarrow> tab m t q)"
  by (induction p arbitrary: pt) (auto split: option.split)

lemma tab_aligned: "page_aligned pt \<Longrightarrow> tab m pt p = Some t \<Longrightarrow> page_aligned t"
proof (induction p arbitrary: pt)
  case (Cons i p)
  then obtain u where "next_table m pt i = Some u" and "tab m u p = Some t"
    by (auto split: option.splits)
  then show ?case
    using Cons.IH [of u] by (auto simp: next_table_def Let_def split: if_splits)
qed simp

lemma tab_cong:
  "(\<And>q i r t. p = q @ i # r \<Longrightarrow> tab m pt q = Some t \<Longrightarrow> rd m' t i = rd m t i) \<Longrightarrow> tab m' pt p = tab m pt p"
proof (induction p arbitrary: pt)
  case (Cons i p)
  from Cons.prems [of "[]"] have e: "next_table m' pt i = next_table m pt i"
    by (simp add: next_table_def)
  have "tab m' u p = tab m u p" if u: "next_table m pt i = Some u" for u
  proof (rule Cons.IH)
    fix q j r t assume "p = q @ j # r" "tab m u q = Some t"
    then show "rd m' t j = rd m t j"
      using Cons.prems [of "i # q" j r t] u by simp
  qed
  then show ?case by (auto simp: e split: option.split)
qed simp

lemma paths_prefix: "q @ i # r \<in> paths \<Longrightarrow> q \<in> paths \<and> i < 512 \<and> length q < 2"
  by (auto simp: paths_def)

lemma vpath_path [simp]: "vpath va \<in> paths"
  by (simp add: paths_def vpath_def)

lemma is_table_vpath [intro]: "tab m pt (vpath va) = Some t \<Longrightarrow> is_table m pt t"
  unfolding is_table_def using vpath_path by blast

lemma vpath_length [simp]: "length (vpath va) = 2"
  by (simp add: vpath_def)

lemma pt_treeD:
  "pt_tree m pt \<Longrightarrow> p \<in> paths \<Longrightarrow> q \<in> paths \<Longrightarrow> tab m pt p = Some t \<Longrightarrow> tab m pt q = Some t \<Longrightarrow> p = q"
  unfolding pt_tree_def by blast

lemma pt_tree_aligned: "pt_tree m pt \<Longrightarrow> tab m pt p = Some t \<Longrightarrow> page_aligned t"
  by (auto simp: pt_tree_def intro: tab_aligned)

text \<open>Memory outside the tables does not matter.\<close>

lemma tab_agree_off:
  assumes "pt_tree m pt" and "agree_off r m m'" and "page_aligned r" and "\<not> is_table m pt r" and "p \<in> paths"
  shows "tab m' pt p = tab m pt p"
proof (rule tab_cong)
  fix q i e t assume p: "p = q @ i # e" and t: "tab m pt q = Some t"
  then have "t \<noteq> r" "i < 512"
    using assms(4,5) paths_prefix [of q i e] by (auto simp: is_table_def)
  then show "rd m' t i = rd m t i"
    using assms pt_tree_aligned [OF assms(1) t] by (intro rd_agree_off [of r]) auto
qed

lemma pte_of_agree_off:
  assumes "pt_tree m pt" and "agree_off r m m'" and "page_aligned r" and "\<not> is_table m pt r"
  shows "pte_of m' pt va = pte_of m pt va"
proof -
  have "rd m' t (pxi 0 va) = rd m t (pxi 0 va)" if "tab m pt (vpath va) = Some t" for t
    using assms that pt_tree_aligned [OF assms(1) that]
    by (intro rd_agree_off [of r]) (auto simp: is_table_def intro: vpath_path)
  then show ?thesis
    unfolding pte_of_def tab_agree_off [OF assms vpath_path] by (simp split: option.split)
qed

text \<open>Writing a leaf entry.\<close>

lemma tab_store_leaf:
  assumes "pt_tree m pt" and "w \<in> paths" and "length w = 2" and "tab m pt w = Some u" and "k < 512" and "p \<in> paths"
  shows "tab (store64 m (u + 8 * of_nat k) v) pt p = tab m pt p"
proof (rule tab_cong)
  fix q l e t assume p: "p = q @ l # e" and t: "tab m pt q = Some t"
  then have q: "q \<in> paths" "l < 512" "length q < 2"
    using assms(6) paths_prefix [of q l e] by auto
  have "t \<noteq> u"
    using pt_treeD [OF assms(1) q(1) assms(2) t] assms(3,4) q(3) by auto
  then show "rd (store64 m (u + 8 * of_nat k) v) t l = rd m t l"
    using pt_tree_aligned [OF assms(1)] assms(4,5) t q(2) by (simp add: rd_store64)
qed

lemma pte_of_store_leaf:
  assumes "pt_tree m pt" and u: "tab m pt (vpath va) = Some u"
  shows "pte_of (store64 m (u + 8 * of_nat (pxi 0 va)) v) pt va' =
    (if vpath va' = vpath va \<and> pxi 0 va' = pxi 0 va then v else pte_of m pt va')"
proof -
  have same: "tab (store64 m (u + 8 * of_nat (pxi 0 va)) v) pt (vpath va') = tab m pt (vpath va')"
    by (rule tab_store_leaf [OF assms(1) vpath_path vpath_length u pxi_less vpath_path])
  show ?thesis
  proof (cases "tab m pt (vpath va')")
    case None
    then have "vpath va' \<noteq> vpath va" using u by auto
    then show ?thesis by (simp add: pte_of_def same None)
  next
    case (Some t)
    have "t = u \<longleftrightarrow> vpath va' = vpath va"
      using pt_treeD [OF assms(1) vpath_path vpath_path Some, of va] u Some by auto
    then show ?thesis
      using pt_tree_aligned [OF assms(1) u] pt_tree_aligned [OF assms(1) Some]
      by (simp add: pte_of_def same Some rd_store64)
  qed
qed

text \<open>Hanging a fresh, zeroed table \<open>r\<close> into an empty entry.\<close>

lemma tab_grow:
  assumes "pt_tree m pt" and q: "q @ [k] \<in> paths" and t: "tab m pt q = Some t" and "next_table m t k = None"
    and r: "page_aligned r" "\<not> is_table m pt r" and m0: "agree_off r m m0" and p: "p \<in> paths"
    and m': "m' = store64 (memset m0 r 0 4096) (t + 8 * of_nat k) (PA2PTE r OR PTE_V)"
  shows "tab m' pt p = (if p = q @ [k] then Some r else tab m pt p)"
proof -
  have qk: "q \<in> paths" "k < 512" "length q < 2" and al: "page_aligned t"
    using paths_prefix [of q k "[]"] q pt_tree_aligned [OF assms(1) t] by auto
  have rd': "rd m' u i = (if u = t \<and> i = k then PA2PTE r OR PTE_V else if u = r then 0 else rd m u i)"
    if "page_aligned u" "i < 512" for u i
    using that al qk r rd_agree_off [OF m0] by (simp add: m' rd_store64 rd_memset0)
  have tr: "t \<noteq> r" using t qk(1) r(2) by (auto simp: is_table_def)
  have next': "next_table m' t k = Some r"
    using al qk(2) PTE2PA_PA2PTE [OF r(1), of 1] PA2PTE_and [of 1 r 1] by (simp add: next_table_def rd')
  have other: "tab m' pt p' = tab m pt p'" if "p' \<in> paths" "\<not> prefix (q @ [k]) p'" for p'
  proof (rule tab_cong)
    fix q' i e u assume p': "p' = q' @ i # e" and u: "tab m pt q' = Some u"
    then have q': "q' \<in> paths" "i < 512" using that(1) paths_prefix by blast+
    have "\<not> (u = t \<and> i = k)"
      using that(2) p' u t pt_treeD [OF assms(1) q'(1) qk(1), of t] by (auto simp: prefix_def)
    then show "rd m' u i = rd m u i"
      using rd' [OF pt_tree_aligned [OF assms(1) u] q'(2)] u q'(1) r(2) by (auto simp: is_table_def)
  qed
  show ?thesis
  proof (cases "prefix (q @ [k]) p")
    case True
    then obtain e where pe: "p = q @ k # e" by (auto simp: prefix_def)
    have q_same: "tab m' pt q = Some t"
      using other [OF qk(1)] t by (auto simp: prefix_def)
    have "tab m' r e = (if e = [] then Some r else None)"
      using rd' [OF r(1)] tr p by (cases e) (auto simp: pe paths_def next_table_def)
    then show ?thesis
      using q_same t assms(4) by (simp add: pe tab_append next')
  qed (use other [OF p] in auto)
qed

lemma pte_of_grow:
  assumes "pt_tree m pt" and q: "q @ [k] \<in> paths" and t: "tab m pt q = Some t" and "next_table m t k = None"
    and r: "page_aligned r" "\<not> is_table m pt r" and m0: "agree_off r m m0"
    and m': "m' = store64 (memset m0 r 0 4096) (t + 8 * of_nat k) (PA2PTE r OR PTE_V)"
  shows "pte_of m' pt va = pte_of m pt va"
proof -
  have qk: "q \<in> paths" "k < 512" "length q < 2" and al: "page_aligned t"
    using paths_prefix [of q k "[]"] q pt_tree_aligned [OF assms(1) t] by auto
  have grow: "tab m' pt (vpath va) = (if vpath va = q @ [k] then Some r else tab m pt (vpath va))"
    by (rule tab_grow [OF assms(1-7) vpath_path m'])
  have none: "tab m pt (q @ [k]) = None"
    using t assms(4) by (simp add: tab_append)
  have tr: "t \<noteq> r" using t qk(1) r(2) by (auto simp: is_table_def)
  have rd': "rd m' u i = (if u = r then 0 else rd m u i)" if "page_aligned u" "i < 512" "u \<noteq> t" for u i
    using that al qk r rd_agree_off [OF m0] by (simp add: m' rd_store64 rd_memset0)
  have "rd m' u (pxi 0 va) = rd m u (pxi 0 va)" if u: "tab m pt (vpath va) = Some u" for u
  proof -
    have "u \<noteq> t" using pt_treeD [OF assms(1) vpath_path qk(1) u] t qk(3) by auto
    moreover have "u \<noteq> r" using u r(2) vpath_path by (auto simp: is_table_def)
    ultimately show ?thesis using rd' pt_tree_aligned [OF assms(1) u] by simp
  qed
  moreover have "rd m' r (pxi 0 va) = 0"
    using rd' r(1) tr by simp
  ultimately show ?thesis
    using none by (auto simp: pte_of_def grow split: option.split)
qed

section \<open>The invariant\<close>

text \<open>
  \<open>vm_inv s pt ps\<close>: \<open>ps\<close> are the free pages, the tables of \<open>pt\<close> form a tree, each table is
  a page of the allocator and none is free.
\<close>

definition vm_inv :: "'z kmem_scheme \<Rightarrow> addr \<Rightarrow> addr list \<Rightarrow> bool" where
  "vm_inv s pt ps \<longleftrightarrow> free_pages s ps \<and> pt_tree (pmem s) pt
     \<and> (\<forall>t. is_table (pmem s) pt t \<longrightarrow> page_ok s t \<and> t \<notin> set ps)"

text \<open>Addresses neither in a table nor in a free page.\<close>

definition untouched :: "memory \<Rightarrow> addr \<Rightarrow> addr list \<Rightarrow> addr \<Rightarrow> bool" where
  "untouched m pt ps x \<longleftrightarrow> (\<forall>t. is_table m pt t \<longrightarrow> pg x \<noteq> pg t) \<and> (\<forall>t\<in>set ps. pg x \<noteq> pg t)"

text \<open>
  \<open>vm_ext pt s ps s' ps'\<close>: from \<open>s\<close> to \<open>s'\<close> tables may have been added, taken from the
  front of the free list, and entries of tables may have changed, but no other memory has.
\<close>

definition vm_ext :: "addr \<Rightarrow> 'z kmem_scheme \<Rightarrow> addr list \<Rightarrow> 'z kmem_scheme \<Rightarrow> addr list \<Rightarrow> bool" where
  "vm_ext pt s ps s' ps' \<longleftrightarrow> vm_inv s' pt ps' \<and> suffix ps' ps
     \<and> (\<forall>x. untouched (pmem s) pt ps x \<longrightarrow> pmem s' x = pmem s x)
     \<and> (\<forall>p\<in>paths. \<forall>t. tab (pmem s) pt p = Some t \<longrightarrow> tab (pmem s') pt p = Some t)
     \<and> (\<forall>t. is_table (pmem s') pt t \<longrightarrow> is_table (pmem s) pt t \<or> t \<in> set ps)
     \<and> kend s' = kend s \<and> kmem.more s' = kmem.more s"

definition same_map :: "addr \<Rightarrow> 'z kmem_scheme \<Rightarrow> 'z kmem_scheme \<Rightarrow> bool" where
  "same_map pt s s' \<longleftrightarrow> (\<forall>va. pte_of (pmem s') pt va = pte_of (pmem s) pt va)"

lemma vm_extD: "vm_ext pt s ps s' ps' \<Longrightarrow> vm_inv s' pt ps'"
  by (simp add: vm_ext_def)

lemma vm_ext_refl: "vm_inv s pt ps \<Longrightarrow> vm_ext pt s ps s ps"
  by (auto simp: vm_ext_def)

lemma same_map_refl [simp]: "same_map pt s s"
  by (simp add: same_map_def)

lemma same_map_trans: "same_map pt s t \<Longrightarrow> same_map pt t u \<Longrightarrow> same_map pt s u"
  by (simp add: same_map_def)

lemma vm_ext_trans:
  assumes "vm_ext pt s ps t qs" and "vm_ext pt t qs u rs"
  shows "vm_ext pt s ps u rs"
proof -
  have sub: "set qs \<subseteq> set ps"
    using assms(1) by (auto simp: vm_ext_def dest: set_mono_suffix)
  have un: "untouched (pmem t) pt qs x" if "untouched (pmem s) pt ps x" for x
    using that sub assms(1) unfolding untouched_def vm_ext_def by blast
  have "pmem u x = pmem s x" if "untouched (pmem s) pt ps x" for x
    using that un [OF that] assms unfolding vm_ext_def by metis
  moreover have "is_table (pmem s) pt w \<or> w \<in> set ps" if "is_table (pmem u) pt w" for w
    using that sub assms unfolding vm_ext_def by blast
  moreover have "suffix rs ps"
    using assms by (auto simp: vm_ext_def intro: suffix_order.order_trans)
  ultimately show ?thesis
    using assms unfolding vm_ext_def by simp
qed

lemma vm_inv_freeD:
  assumes "vm_inv s pt (r # ps)"
  shows "page_aligned r" and "\<not> is_table (pmem s) pt r" and "r \<noteq> 0" and "r \<notin> set ps"
  using assms free_pagesD [of s r ps] by (auto simp: vm_inv_def)

lemma vm_inv_tableD:
  assumes "vm_inv s pt ps" and "p \<in> paths" and "tab (pmem s) pt p = Some t"
  shows "page_aligned t" and "page_ok s t" and "t \<notin> set ps" and "t \<noteq> 0"
proof -
  show ok: "page_ok s t" "t \<notin> set ps"
    using assms by (auto simp: vm_inv_def is_table_def)
  then show "page_aligned t" "t \<noteq> 0"
    using assms(1) page_ok_nonzero by (auto simp: page_ok_def vm_inv_def free_pages_def)
qed

text \<open>One allocation in \<^verbatim>\<open>walk\<close>.\<close>

lemma vm_grow_step:
  assumes inv: "vm_inv s pt (r # ps)" and q: "q @ [k] \<in> paths" and t: "tab (pmem s) pt q = Some t"
    and none: "next_table (pmem s) t k = None"
    and m': "m' = store64 (memset (memset (pmem s) r 5 4096) r 0 4096) (t + 8 * of_nat k) (PA2PTE r OR PTE_V)"
    and s': "s' = s\<lparr>freelist := load64 (pmem s) r, pmem := m'\<rparr>"
  shows "vm_ext pt s (r # ps) s' ps" and "same_map pt s s'" and "tab (pmem s') pt (q @ [k]) = Some r"
proof -
  have tree: "pt_tree (pmem s) pt" and free: "free_pages s (r # ps)"
    using inv by (auto simp: vm_inv_def)
  note r = vm_inv_freeD [OF inv]
  have qk: "q \<in> paths" "k < 512" using paths_prefix [of q k "[]"] q by auto
  note t' = vm_inv_tableD [OF inv qk(1) t]
  have m0: "agree_off r (pmem s) (memset (pmem s) r 5 4096)"
    by (rule agree_off_memset [OF r(1)])
  note tab' = tab_grow [OF tree q t none r(1,2) m0 _ m']
  show r_tab: "tab (pmem s') pt (q @ [k]) = Some r"
    using tab' [OF q] by (simp add: s')
  have none': "tab (pmem s) pt (q @ [k]) = None"
    using t none by (simp add: tab_append)
  have old: "tab m' pt p = Some w" if "p \<in> paths" "tab (pmem s) pt p = Some w" for p w
    using that tab' none' by auto
  have tables: "is_table m' pt w \<longleftrightarrow> is_table (pmem s) pt w \<or> w = r" for w
  proof
    show "is_table m' pt w \<Longrightarrow> is_table (pmem s) pt w \<or> w = r"
      using tab' by (auto simp: is_table_def split: if_splits)
    show "is_table (pmem s) pt w \<or> w = r \<Longrightarrow> is_table m' pt w"
      using old q r_tab by (auto simp: is_table_def s')
  qed
  have "free_pages (s\<lparr>freelist := load64 (pmem s) r, pmem := memset (memset (pmem s) r 5 4096) r 0 4096\<rparr>) ps"
    using free_pages_agree_off [OF kalloc_Cons(2) [OF free] _ r(1,4)] agree_off_memset [OF r(1)] by simp
  from free_pages_agree_off [OF this _ t'(1)] have "free_pages s' ps"
    using agree_off_entry [OF t'(1) qk(2)] t'(3) by (simp add: s' m')
  moreover have "pt_tree m' pt"
    using tree r(2) tab' unfolding pt_tree_def is_table_def by (metis option.inject)
  moreover have "page_ok s w \<and> w \<notin> set ps" if "is_table m' pt w" for w
    using that tables inv r(4) by (auto simp: vm_inv_def free_pages_def)
  ultimately have "vm_inv s' pt ps"
    by (auto simp: vm_inv_def s')
  moreover have "m' x = pmem s x" if "untouched (pmem s) pt (r # ps) x" for x
  proof -
    have "pg x \<noteq> pg t" "pg x \<noteq> pg r" using that qk(1) t by (auto simp: untouched_def is_table_def)
    then show ?thesis
      using agree_off_entry [OF t'(1) qk(2)] agree_off_memset [OF r(1)] unfolding m' agree_off_def by metis
  qed
  ultimately show "vm_ext pt s (r # ps) s' ps"
    using old tables by (auto simp: vm_ext_def suffix_def s')
  show "same_map pt s s'"
    using pte_of_grow [OF tree q t none r(1,2) m0 m'] by (simp add: same_map_def s')
qed

section \<open>Indices\<close>

lemma pxi_eq: "pxi l va = unat va div 2 ^ (12 + 9 * l) mod 512"
proof -
  have "PX l va = take_bit 9 (drop_bit (12 + 9 * l) va)"
    by (simp add: PX_def PXSHIFT_def take_bit_eq_mask mask_eq_exp_minus_1)
  moreover have "unat (drop_bit n va) = unat va div 2 ^ n" for n
    using unsigned_drop_bit_eq [where 'a = nat, of n va] unat_less_64 [of va]
    by (simp add: take_bit_nat_eq_self drop_bit_nat_def)
  moreover have "unat (take_bit 9 w) = unat w mod 512" for w :: u64
    by (simp add: take_bit_eq_mod unat_mod)
  ultimately show ?thesis
    by (simp only: pxi_def)
qed

lemma pg_pxi:
  assumes "va < MAXVA"
  shows "pg va = pxi 2 va * 262144 + pxi 1 va * 512 + pxi 0 va"
proof -
  have "pg va < 67108864"
    using assms by (simp add: pg_def MAXVA_num word_less_nat_alt less_mult_imp_div_less)
  then have "pg va div 262144 mod 512 = pg va div 262144"
    by (simp add: less_mult_imp_div_less)
  moreover have "pxi 2 va = pg va div 262144 mod 512" "pxi 1 va = pg va div 512 mod 512" "pxi 0 va = pg va mod 512"
    by (simp_all add: pxi_eq pg_def div_mult2_eq [symmetric])
  moreover have "pg va = pg va div 512 * 512 + pg va mod 512"
    "pg va div 512 = pg va div 512 div 512 * 512 + pg va div 512 mod 512"
    by simp_all
  moreover have "pg va div 512 div 512 = pg va div 262144"
    by (simp add: div_mult2_eq [symmetric])
  ultimately show ?thesis by linarith
qed

text \<open>Two virtual addresses use the same leaf entry exactly when they are on the same page.\<close>

lemma same_leaf_iff:
  assumes "va < MAXVA" and "va' < MAXVA"
  shows "vpath va' = vpath va \<and> pxi 0 va' = pxi 0 va \<longleftrightarrow> pg va' = pg va"
proof
  show "vpath va' = vpath va \<and> pxi 0 va' = pxi 0 va \<Longrightarrow> pg va' = pg va"
    using assms by (simp add: pg_pxi vpath_def)
  assume pg: "pg va' = pg va"
  have "pxi l v = pg v div 2 ^ (9 * l) mod 512" for l v
    by (simp add: pxi_eq pg_def power_add div_mult2_eq)
  then show "vpath va' = vpath va \<and> pxi 0 va' = pxi 0 va"
    by (simp add: vpath_def pg)
qed

section \<open>walk\<close>

primrec rest :: "nat \<Rightarrow> u64 \<Rightarrow> nat list" where
  "rest 0 va = []"
| "rest (Suc l) va = pxi (Suc l) va # rest l va"

lemma rest_2: "rest 2 va = vpath va"
  by (simp add: vpath_def numeral_2_eq_2)

lemma walk_loop_noalloc: "walk_loop l t va False s = (tab (pmem s) t (rest l va), s)"
  by (induction l arbitrary: t) (auto simp: Let_def next_table_def load64_pte_addr)

lemma walk_noalloc:
  "va < MAXVA \<Longrightarrow> walk pt va False s =
     Ok (case tab (pmem s) pt (vpath va) of None \<Rightarrow> 0 | Some t \<Rightarrow> t + 8 * of_nat (pxi 0 va), s)"
  by (simp add: walk_def walk_loop_noalloc rest_2 pte_addr_pxi not_le split: option.split)

lemma walk_loop_alloc:
  assumes "vm_inv s pt ps" and "q \<in> paths" and "length q + l = 2" and "tab (pmem s) pt q = Some t"
    and "walk_loop l t va True s = (res, s')"
  shows "\<exists>ps'. vm_ext pt s ps s' ps' \<and> same_map pt s s' \<and> length ps \<le> length ps' + l
    \<and> (case res of None \<Rightarrow> ps' = [] | Some u \<Rightarrow> tab (pmem s') pt (q @ rest l va) = Some u)"
  using assms
proof (induction l arbitrary: s ps q t)
  case 0
  then show ?case by (auto intro!: exI [of _ ps] vm_ext_refl split: option.split)
next
  case (Suc l)
  let ?k = "pxi (Suc l) va"
  have q: "q @ [?k] \<in> paths" "length (q @ [?k]) + l = 2"
    using Suc.prems(2,3) by (auto simp: paths_def)
  have path: "(q @ [?k]) @ rest l va = q @ rest (Suc l) va" by simp
  show ?case
  proof (cases "next_table (pmem s) t ?k")
    case (Some u)
    then have "walk_loop l u va True s = (res, s')" "tab (pmem s) pt (q @ [?k]) = Some u"
      using Suc.prems(4,5)
      by (auto simp: Let_def next_table_def load64_pte_addr tab_append split: if_splits)
    from Suc.IH [OF Suc.prems(1) q this(2,1), unfolded path] show ?thesis by (metis add_Suc_right le_SucI)
  next
    case None
    then have inv0: "rd (pmem s) t ?k AND 1 = 0"
      by (simp add: next_table_def Let_def split: if_splits)
    show ?thesis
    proof (cases ps)
      case Nil
      then have "res = None" "s' = s"
        using Suc.prems(1,5) inv0 kalloc_empty [of s] by (auto simp: Let_def load64_pte_addr vm_inv_def)
      then show ?thesis using Suc.prems(1) Nil by (auto intro: vm_ext_refl)
    next
      case (Cons r ps1)
      then have inv: "vm_inv s pt (r # ps1)" and free: "free_pages s (r # ps1)"
        using Suc.prems(1) by (auto simp: vm_inv_def)
      define m where "m = store64 (memset (memset (pmem s) r 5 4096) r 0 4096) (t + 8 * of_nat ?k) (PA2PTE r OR PTE_V)"
      define s1 where "s1 = s\<lparr>freelist := load64 (pmem s) r, pmem := m\<rparr>"
      note step = vm_grow_step [OF inv q(1) Suc.prems(4) None m_def s1_def]
      have "walk_loop l r va True s1 = (res, s')"
        using Suc.prems(5) inv0 kalloc_Cons(1) [OF free] vm_inv_freeD(3) [OF inv]
        by (simp add: Let_def s1_def m_def pte_addr_pxi rd_def)
      from Suc.IH [OF vm_extD [OF step(1)] q step(3) this, unfolded path] obtain ps' where
        "vm_ext pt s1 ps1 s' ps'" "same_map pt s1 s'" "length ps1 \<le> length ps' + l"
        "case res of None \<Rightarrow> ps' = [] | Some u \<Rightarrow> tab (pmem s') pt (q @ rest (Suc l) va) = Some u" by blast
      then show ?thesis
        using vm_ext_trans [OF step(1)] same_map_trans [OF step(2)] Cons by (intro exI [of _ ps']) simp
    qed
  qed
qed

lemma entry_nonzero: "vm_inv s pt ps \<Longrightarrow> tab (pmem s) pt (vpath va) = Some u \<Longrightarrow> u + 8 * of_nat (pxi l va) \<noteq> 0"
  using vm_inv_tableD [of s pt ps "vpath va" u] unat_entry [of u "pxi l va"]
  by (metis add_eq_0_iff_both_eq_0 pxi_less unat_eq_zero vpath_path)

lemma walk_alloc:
  assumes "vm_inv s pt ps" and "va < MAXVA"
  obtains r s' ps' where "walk pt va True s = Ok (r, s')" and "vm_ext pt s ps s' ps'" and "same_map pt s s'"
    and "length ps \<le> length ps' + 2" and "r = 0 \<Longrightarrow> ps' = []"
    and "r \<noteq> 0 \<Longrightarrow> \<exists>u. tab (pmem s') pt (vpath va) = Some u \<and> r = u + 8 * of_nat (pxi 0 va)"
proof -
  obtain res s' where w: "walk_loop 2 pt va True s = (res, s')"
    by (cases "walk_loop 2 pt va True s")
  from walk_loop_alloc [OF assms(1), of "[]" 2 pt va res s'] obtain ps' where ps':
    "vm_ext pt s ps s' ps'" "same_map pt s s'"
    "case res of None \<Rightarrow> ps' = [] | Some u \<Rightarrow> tab (pmem s') pt (vpath va) = Some u" "length ps \<le> length ps' + 2"
    using w by (auto simp: paths_def rest_2 split: option.splits)
  show ?thesis
  proof (cases res)
    case None
    then show ?thesis
      using that [of 0 s' ps'] ps' w assms(2) by (simp add: walk_def not_le)
  next
    case (Some u)
    then show ?thesis
      using that [of "u + 8 * of_nat (pxi 0 va)" s' ps'] ps' w assms(2)
        entry_nonzero [OF vm_extD [OF ps'(1)], of va u 0]
      by (simp add: walk_def not_le pte_addr_pxi)
  qed
qed

section \<open>mappages\<close>

lemma leaf_store:
  assumes inv: "vm_inv s pt ps" and "va < MAXVA" and u: "tab (pmem s) pt (vpath va) = Some u"
    and s': "s' = s\<lparr>pmem := store64 (pmem s) (u + 8 * of_nat (pxi 0 va)) v\<rparr>"
  shows "vm_ext pt s ps s' ps"
    and "va' < MAXVA \<Longrightarrow> pte_of (pmem s') pt va' = (if pg va' = pg va then v else pte_of (pmem s) pt va')"
proof -
  have tree: "pt_tree (pmem s) pt" using inv by (simp add: vm_inv_def)
  note u' = vm_inv_tableD [OF inv vpath_path u]
  have same: "tab (pmem s') pt p = tab (pmem s) pt p" if "p \<in> paths" for p
    using tab_store_leaf [OF tree vpath_path vpath_length u pxi_less that] by (simp add: s')
  have tables: "is_table (pmem s') pt = is_table (pmem s) pt"
    using same by (auto simp: is_table_def fun_eq_iff)
  have "pt_tree (pmem s') pt"
    using tree same by (simp add: pt_tree_def)
  moreover have off: "agree_off u (pmem s) (pmem s')"
    using agree_off_entry [OF u'(1) pxi_less] by (simp add: s')
  moreover have "free_pages s' ps"
    using free_pages_agree_off [OF _ off u'(1,3)] inv by (simp add: vm_inv_def s')
  ultimately have "vm_inv s' pt ps"
    using inv tables by (simp add: vm_inv_def s')
  moreover have "is_table (pmem s) pt u"
    using u by blast
  then have "pmem s' x = pmem s x" if "untouched (pmem s) pt ps x" for x
    using that off by (simp add: untouched_def agree_off_def)
  ultimately show "vm_ext pt s ps s' ps"
    using same tables by (simp add: vm_ext_def s')
  show "va' < MAXVA \<Longrightarrow> pte_of (pmem s') pt va' = (if pg va' = pg va then v else pte_of (pmem s) pt va')"
    using pte_of_store_leaf [OF tree u, of v va'] same_leaf_iff [OF assms(2), of va'] by (simp add: s')
qed

lemma map_one_pages:
  assumes "vm_inv s pt ps" and "a < MAXVA" and "pte_of (pmem s) pt a AND PTE_V = 0"
  obtains ok s' ps' where "map_one pt a pa perm s = Ok (ok, s')" and "vm_ext pt s ps s' ps'" and "length ps \<le> length ps' + 2"
    and "\<not> ok \<Longrightarrow> same_map pt s s' \<and> ps' = []"
    and "ok \<Longrightarrow> \<forall>va. va < MAXVA \<longrightarrow> pte_of (pmem s') pt va =
           (if pg va = pg a then PA2PTE pa OR perm OR PTE_V else pte_of (pmem s) pt va)"
proof -
  obtain r s1 ps1 where w: "walk pt a True s = Ok (r, s1)" "vm_ext pt s ps s1 ps1" "same_map pt s s1"
    "length ps \<le> length ps1 + 2" "r = 0 \<Longrightarrow> ps1 = []"
    "r \<noteq> 0 \<Longrightarrow> \<exists>u. tab (pmem s1) pt (vpath a) = Some u \<and> r = u + 8 * of_nat (pxi 0 a)"
    by (rule walk_alloc [OF assms(1,2)]) (rule that)
  show ?thesis
  proof (cases "r = 0")
    case True
    then show ?thesis
      using that [of False s1 ps1] w by (simp add: map_one_def)
  next
    case False
    then obtain u where u: "tab (pmem s1) pt (vpath a) = Some u" "r = u + 8 * of_nat (pxi 0 a)"
      using w(6) by blast
    define s2 where "s2 = s1\<lparr>pmem := store64 (pmem s1) r (PA2PTE pa OR perm OR PTE_V)\<rparr>"
    note st = leaf_store [OF vm_extD [OF w(2)] assms(2) u(1) s2_def [unfolded u(2)]]
    have "pte_of (pmem s1) pt a = load64 (pmem s1) r"
      using u by (simp add: pte_of_def rd_def)
    then have "load64 (pmem s1) r AND PTE_V = 0"
      using assms(3) w(3) by (simp add: same_map_def)
    then have "map_one pt a pa perm s = Ok (True, s2)"
      using w(1) False by (simp add: map_one_def s2_def)
    then show ?thesis
      using that [of True s2 ps1] vm_ext_trans [OF w(2) st(1)] st(2) w(3,4) by (simp add: same_map_def)
  qed
qed

lemma map_one_ok:
  assumes "vm_inv s pt ps" and "a < MAXVA" and "pte_of (pmem s) pt a AND PTE_V = 0"
  obtains ok s' ps' where "map_one pt a pa perm s = Ok (ok, s')" and "vm_ext pt s ps s' ps'"
    and "\<not> ok \<Longrightarrow> same_map pt s s' \<and> ps' = []"
    and "ok \<Longrightarrow> \<forall>va. va < MAXVA \<longrightarrow> pte_of (pmem s') pt va =
           (if pg va = pg a then PA2PTE pa OR perm OR PTE_V else pte_of (pmem s) pt va)"
  by (rule map_one_pages [OF assms]) (rule that)

lemma pg_next: "page_aligned a \<Longrightarrow> unat a + 4096 < 2 ^ 64 \<Longrightarrow> pg (a + 4096) = Suc (pg a) \<and> page_aligned (a + 4096) \<and> unat (a + 4096) = unat a + 4096"
  using unat_add_no_wrap [of a 4096] by (simp add: pg_def page_aligned_def)

lemma mappages_loop_ok:
  assumes "vm_inv s pt ps" and "page_aligned a" and "unat a + 4096 * Suc n \<le> unat MAXVA"
    and "\<forall>va. va < MAXVA \<and> pg a \<le> pg va \<and> pg va \<le> pg a + n \<longrightarrow> pte_of (pmem s) pt va AND PTE_V = 0"
  shows "\<exists>rc s' ps'. mappages_loop (Suc n) pt a (a + of_nat (4096 * n)) pa perm s = Ok (rc, s')
    \<and> vm_ext pt s ps s' ps' \<and> (rc = 0 \<or> rc = -1 \<and> ps' = [])
    \<and> (\<forall>va. va < MAXVA \<and> \<not> (pg a \<le> pg va \<and> pg va \<le> pg a + n) \<longrightarrow> pte_of (pmem s') pt va = pte_of (pmem s) pt va)
    \<and> (rc = 0 \<longrightarrow> (\<forall>va. va < MAXVA \<and> pg a \<le> pg va \<and> pg va \<le> pg a + n \<longrightarrow>
         pte_of (pmem s') pt va = (PA2PTE (pa + of_nat (4096 * (pg va - pg a))) OR perm OR PTE_V)))"
  using assms
proof (induction n arbitrary: s ps a pa)
  case 0
  then have "a < MAXVA" by (simp add: word_less_nat_alt MAXVA_num)
  then obtain ok s' ps' where "map_one pt a pa perm s = Ok (ok, s')" "vm_ext pt s ps s' ps'"
    "\<not> ok \<Longrightarrow> same_map pt s s' \<and> ps' = []"
    "ok \<Longrightarrow> \<forall>va. va < MAXVA \<longrightarrow> pte_of (pmem s') pt va =
       (if pg va = pg a then PA2PTE pa OR perm OR PTE_V else pte_of (pmem s) pt va)"
    using map_one_ok [OF 0(1)] 0(4) by (metis le_add1 le_refl)
  then show ?case
    by (cases ok) (auto simp: same_map_def)
next
  case (Suc n)
  then have "a < MAXVA" by (simp add: word_less_nat_alt MAXVA_num)
  then obtain ok s1 ps1 where m1: "map_one pt a pa perm s = Ok (ok, s1)" "vm_ext pt s ps s1 ps1"
    "\<not> ok \<Longrightarrow> same_map pt s s1 \<and> ps1 = []"
    "ok \<Longrightarrow> \<forall>va. va < MAXVA \<longrightarrow> pte_of (pmem s1) pt va =
       (if pg va = pg a then PA2PTE pa OR perm OR PTE_V else pte_of (pmem s) pt va)"
    using map_one_ok [OF Suc.prems(1)] Suc.prems(4) by (metis le_add1 le_refl)
  have nx: "pg (a + 4096) = Suc (pg a)" "page_aligned (a + 4096)" "unat (a + 4096) = unat a + 4096"
    using pg_next [OF Suc.prems(2)] Suc.prems(3) by (simp_all add: MAXVA_num)
  show ?case
  proof (cases ok)
    case True
    have "pte_of (pmem s1) pt va AND PTE_V = 0"
      if "va < MAXVA \<and> pg (a + 4096) \<le> pg va \<and> pg va \<le> pg (a + 4096) + n" for va
      using that m1(4) True Suc.prems(4) nx(1) by simp
    then obtain rc s' ps' where ih: "mappages_loop (Suc n) pt (a + 4096) (a + 4096 + of_nat (4096 * n)) (pa + 4096) perm s1 = Ok (rc, s')"
      "vm_ext pt s1 ps1 s' ps'" "rc = 0 \<or> rc = -1 \<and> ps' = []"
      "\<forall>va. va < MAXVA \<and> \<not> (pg (a + 4096) \<le> pg va \<and> pg va \<le> pg (a + 4096) + n) \<longrightarrow> pte_of (pmem s') pt va = pte_of (pmem s1) pt va"
      "rc = 0 \<longrightarrow> (\<forall>va. va < MAXVA \<and> pg (a + 4096) \<le> pg va \<and> pg va \<le> pg (a + 4096) + n \<longrightarrow>
         pte_of (pmem s') pt va = (PA2PTE (pa + 4096 + of_nat (4096 * (pg va - pg (a + 4096)))) OR perm OR PTE_V))"
      using Suc.IH [of s1 ps1 "a + 4096" "pa + 4096"] vm_extD [OF m1(2)] nx Suc.prems(3) by auto
    have "unat (a + of_nat (4096 * Suc n)) = unat a + 4096 * Suc n"
      using Suc.prems(3) by (intro unat_add_no_wrap) (simp add: MAXVA_num)
    then have ne: "a \<noteq> a + of_nat (4096 * Suc n)" by (metis Suc_neq_Zero add_cancel_left_right mult_is_0 zero_neq_numeral)
    have e: "a + 4096 + of_nat (4096 * n) = a + of_nat (4096 * Suc n)"
      by simp
    have "mappages_loop (Suc (Suc n)) pt a (a + of_nat (4096 * Suc n)) pa perm s = Ok (rc, s')"
      using ne by (subst mappages_loop.simps) (simp only: m1(1) True obind.simps prod.case simp_thms if_False PGSIZE_def ih(1) [unfolded e])
    moreover have "pte_of (pmem s') pt va = (PA2PTE (pa + of_nat (4096 * (pg va - pg a))) OR perm OR PTE_V)"
      if "rc = 0" "va < MAXVA" "pg a \<le> pg va" "pg va \<le> pg a + Suc n" for va
    proof (cases "pg va = pg a")
      case False
      then have "pg va - pg a = Suc (pg va - pg (a + 4096))"
        using that nx(1) by simp
      then show ?thesis using that ih(5) nx(1) False by (simp add: algebra_simps)
    qed (use that True m1(4) ih(4) nx(1) in simp)
    ultimately show ?thesis
      using ih m1(4) True nx(1) vm_ext_trans [OF m1(2) ih(2)] by auto
  next
    case False
    then have "mappages_loop (Suc (Suc n)) pt a (a + of_nat (4096 * Suc n)) pa perm s = Ok (-1, s1)"
      using m1(1) by simp
    then show ?thesis
      using m1(2,3) False by (auto simp: same_map_def)
  qed
qed

lemma mappages_one_pages:
  assumes "vm_inv s pt ps" and "page_aligned a" and "a < MAXVA" and "pte_of (pmem s) pt a AND PTE_V = 0"
  obtains rc s' ps' where "mappages pt a PGSIZE pa perm s = Ok (rc, s')" and "vm_ext pt s ps s' ps'"
    and "rc = 0 \<or> rc = -1" and "length ps \<le> length ps' + 2"
    and "rc \<noteq> 0 \<Longrightarrow> same_map pt s s' \<and> ps' = []"
    and "rc = 0 \<Longrightarrow> \<forall>va. va < MAXVA \<longrightarrow> pte_of (pmem s') pt va =
           (if pg va = pg a then PA2PTE pa OR perm OR PTE_V else pte_of (pmem s) pt va)"
proof -
  obtain ok s' ps' where m: "map_one pt a pa perm s = Ok (ok, s')" "vm_ext pt s ps s' ps'" "length ps \<le> length ps' + 2"
    "\<not> ok \<Longrightarrow> same_map pt s s' \<and> ps' = []"
    "ok \<Longrightarrow> \<forall>va. va < MAXVA \<longrightarrow> pte_of (pmem s') pt va =
       (if pg va = pg a then PA2PTE pa OR perm OR PTE_V else pte_of (pmem s) pt va)"
    by (rule map_one_pages [OF assms(1,3,4)]) (rule that)
  have "a mod 4096 = 0" using assms(2) page_aligned_mod [of a] by simp
  then have "mappages pt a PGSIZE pa perm s = Ok (if ok then 0 else -1, s')"
    using m(1) by (simp add: mappages_def)
  then show ?thesis
    using that [of "if ok then 0 else -1" s' ps'] m(2-5) by (cases ok) auto
qed

lemma mappages_one:
  assumes "vm_inv s pt ps" and "page_aligned a" and "a < MAXVA" and "pte_of (pmem s) pt a AND PTE_V = 0"
  obtains rc s' ps' where "mappages pt a PGSIZE pa perm s = Ok (rc, s')" and "vm_ext pt s ps s' ps'"
    and "rc = 0 \<or> rc = -1"
    and "rc \<noteq> 0 \<Longrightarrow> same_map pt s s' \<and> ps' = []"
    and "rc = 0 \<Longrightarrow> \<forall>va. va < MAXVA \<longrightarrow> pte_of (pmem s') pt va =
           (if pg va = pg a then PA2PTE pa OR perm OR PTE_V else pte_of (pmem s) pt va)"
  by (rule mappages_one_pages [OF assms]) (rule that)

end
