(* ===== verification/Uvm.thy ===== *)
theory Uvm
  imports Pagetable
begin

text \<open>
  User address spaces, the second half of \<^verbatim>\<open>kernel/vm.c\<close>: unmapping, growing and shrinking,
  and the copies between kernel and user memory. A user address space of \<open>lim\<close> pages owns
  the frames of the pages below \<open>lim\<close>; what is mapped above (trapframe and trampoline) is not
  accessible to user code.
\<close>

section \<open>The invariant of a user address space\<close>

definition frame_of :: "memory \<Rightarrow> addr \<Rightarrow> u64 \<Rightarrow> addr" where
  "frame_of m pt va = PTE2PA (pte_of m pt va)"

definition mapped :: "memory \<Rightarrow> addr \<Rightarrow> u64 \<Rightarrow> bool" where
  "mapped m pt va \<longleftrightarrow> va < MAXVA \<and> pte_of m pt va AND PTE_V \<noteq> 0"

text \<open>The frame of \<open>va\<close> is an allocated page, not a table, and mapped by the page of \<open>va\<close> only.\<close>

definition frame_ok :: "'z kmem_scheme \<Rightarrow> addr \<Rightarrow> addr list \<Rightarrow> nat \<Rightarrow> u64 \<Rightarrow> bool" where
  "frame_ok s pt ps lim va \<longleftrightarrow>
     page_ok s (frame_of (pmem s) pt va) \<and> \<not> is_table (pmem s) pt (frame_of (pmem s) pt va)
     \<and> frame_of (pmem s) pt va \<notin> set ps
     \<and> (\<forall>va'. pg va' < lim \<and> mapped (pmem s) pt va' \<and> frame_of (pmem s) pt va' = frame_of (pmem s) pt va \<longrightarrow> pg va' = pg va)"

definition uvm_inv :: "'z kmem_scheme \<Rightarrow> addr \<Rightarrow> addr list \<Rightarrow> nat \<Rightarrow> bool" where
  "uvm_inv s pt ps lim \<longleftrightarrow> vm_inv s pt ps
     \<and> (\<forall>va. mapped (pmem s) pt va \<longrightarrow>
          (if pg va < lim then frame_ok s pt ps lim va else pte_of (pmem s) pt va AND PTE_U = 0))"

lemma page_aligned_frame [simp]: "page_aligned (frame_of m pt va)"
  by (simp add: frame_of_def)

lemma uvm_invD: "uvm_inv s pt ps lim \<Longrightarrow> vm_inv s pt ps"
  by (simp add: uvm_inv_def)

lemma uvm_inv_frame: "uvm_inv s pt ps lim \<Longrightarrow> mapped (pmem s) pt va \<Longrightarrow> pg va < lim \<Longrightarrow> frame_ok s pt ps lim va"
  by (auto simp: uvm_inv_def)

lemma uvm_inv_user: "uvm_inv s pt ps lim \<Longrightarrow> mapped (pmem s) pt va \<Longrightarrow> pte_of (pmem s) pt va AND PTE_U \<noteq> 0 \<Longrightarrow> pg va < lim"
  unfolding uvm_inv_def by metis

text \<open>A leaf of a page: all addresses of a page have the same entry.\<close>

lemma pte_of_pg: "va < MAXVA \<Longrightarrow> va' < MAXVA \<Longrightarrow> pg va' = pg va \<Longrightarrow> pte_of m pt va' = pte_of m pt va"
  using same_leaf_iff [of va va'] by (simp add: pte_of_def split: option.split)

lemma mapped_walk:
  assumes "vm_inv s pt ps" and "mapped (pmem s) pt va"
  obtains u where "tab (pmem s) pt (vpath va) = Some u"
    and "walk pt va False s = Ok (u + 8 * of_nat (pxi 0 va), s)" and "u + 8 * of_nat (pxi 0 va) \<noteq> 0"
    and "load64 (pmem s) (u + 8 * of_nat (pxi 0 va)) = pte_of (pmem s) pt va"
proof -
  obtain u where u: "tab (pmem s) pt (vpath va) = Some u"
    using assms(2) by (cases "tab (pmem s) pt (vpath va)") (auto simp: mapped_def pte_of_def)
  moreover have "walk pt va False s = Ok (u + 8 * of_nat (pxi 0 va), s)"
    using assms(2) u by (simp add: walk_noalloc mapped_def)
  moreover have "load64 (pmem s) (u + 8 * of_nat (pxi 0 va)) = pte_of (pmem s) pt va"
    using u by (simp add: pte_of_def rd_def)
  ultimately show ?thesis
    using that entry_nonzero [OF assms(1) u] by blast
qed

section \<open>Freeing a frame\<close>

text \<open>\<^verbatim>\<open>kfree\<close> of a page that is neither free nor a table leaves the page table alone.\<close>

lemma kfree_vm:
  assumes inv: "vm_inv s pt ps" and p: "page_ok s p" "p \<notin> set ps" "\<not> is_table (pmem s) pt p"
  obtains s' where "kfree p s = Ok s'" and "vm_inv s' pt (p # ps)" and "same_map pt s s'"
    and "is_table (pmem s') pt = is_table (pmem s) pt" and "agree_off p (pmem s) (pmem s')"
    and "kend s' = kend s" and "kmem.more s' = kmem.more s"
    and "\<And>q. q \<in> paths \<Longrightarrow> tab (pmem s') pt q = tab (pmem s) pt q"
proof -
  define m where "m = store64 (memset (pmem s) p 1 4096) p (freelist s)"
  have free: "free_pages s ps" and tree: "pt_tree (pmem s) pt"
    using inv by (auto simp: vm_inv_def)
  have al: "page_aligned p" using p(1) by (simp add: page_ok_def)
  have off: "agree_off p (pmem s) m"
    unfolding m_def using al by (intro agree_off_trans [OF agree_off_memset agree_off_store64]) simp_all
  have tab: "tab m pt q = tab (pmem s) pt q" if "q \<in> paths" for q
    by (rule tab_agree_off [OF tree off al p(3) that])
  then have tables: "is_table m pt = is_table (pmem s) pt"
    by (auto simp: is_table_def fun_eq_iff)
  have "pt_tree m pt"
    using tree tab by (simp add: pt_tree_def)
  then have "vm_inv (s\<lparr>pmem := m, freelist := p\<rparr>) pt (p # ps)"
    using kfree_push(2) [OF free p(1,2)] inv tables p(3) by (auto simp: vm_inv_def m_def)
  then show ?thesis
    using that [of "s\<lparr>pmem := m, freelist := p\<rparr>"] kfree_push(1) [OF free p(1,2)] tables off tab
      pte_of_agree_off [OF tree off al p(3)]
    by (simp add: m_def same_map_def)
qed

text \<open>One iteration of \<^verbatim>\<open>uvmunmap\<close> with \<^verbatim>\<open>do_free\<close>.\<close>

lemma unmap_one_ok:
  assumes inv: "uvm_inv s pt ps lim" and a: "mapped (pmem s) pt a" "pg a < lim"
    and leaf: "PTE_FLAGS (pte_of (pmem s) pt a) \<noteq> PTE_V"
  obtains s' where "unmap_one pt a True s = Ok s'" and "uvm_inv s' pt (frame_of (pmem s) pt a # ps) lim"
    and "\<And>va. va < MAXVA \<Longrightarrow> pte_of (pmem s') pt va = (if pg va = pg a then 0 else pte_of (pmem s) pt va)"
    and "is_table (pmem s') pt = is_table (pmem s) pt"
    and "\<And>x. pg x \<noteq> pg (frame_of (pmem s) pt a) \<Longrightarrow> (\<And>t. is_table (pmem s) pt t \<Longrightarrow> pg x \<noteq> pg t) \<Longrightarrow> pmem s' x = pmem s x"
    and "kend s' = kend s" and "kmem.more s' = kmem.more s"
proof -
  let ?p = "frame_of (pmem s) pt a"
  have vm: "vm_inv s pt ps" using inv by (rule uvm_invD)
  have fr: "page_ok s ?p" "?p \<notin> set ps" "\<not> is_table (pmem s) pt ?p"
    using uvm_inv_frame [OF inv a] by (auto simp: frame_ok_def)
  obtain u where u: "tab (pmem s) pt (vpath a) = Some u"
    "walk pt a False s = Ok (u + 8 * of_nat (pxi 0 a), s)" "u + 8 * of_nat (pxi 0 a) \<noteq> 0"
    "load64 (pmem s) (u + 8 * of_nat (pxi 0 a)) = pte_of (pmem s) pt a"
    using mapped_walk [OF vm a(1)] by blast
  obtain s1 where s1: "kfree ?p s = Ok s1" "vm_inv s1 pt (?p # ps)" "same_map pt s s1"
    "is_table (pmem s1) pt = is_table (pmem s) pt" "agree_off ?p (pmem s) (pmem s1)"
    "kend s1 = kend s" "kmem.more s1 = kmem.more s"
    "\<And>q. q \<in> paths \<Longrightarrow> tab (pmem s1) pt q = tab (pmem s) pt q"
    using kfree_vm [OF vm fr] by blast
  have am: "a < MAXVA" using a(1) by (simp add: mapped_def)
  have u1: "tab (pmem s1) pt (vpath a) = Some u" using u(1) s1(8) by simp
  define s2 where "s2 = s1\<lparr>pmem := store64 (pmem s1) (u + 8 * of_nat (pxi 0 a)) 0\<rparr>"
  note st = leaf_store [OF s1(2) am u1 s2_def]
  have run: "unmap_one pt a True s = Ok s2"
    using u s1(1) a(1) leaf by (simp add: unmap_one_def mapped_def s2_def Let_def flip: frame_of_def)
  have pte: "pte_of (pmem s2) pt va = (if pg va = pg a then 0 else pte_of (pmem s) pt va)" if "va < MAXVA" for va
    using st(2) [OF that] s1(3) by (simp add: same_map_def)
  have tables: "is_table (pmem s2) pt = is_table (pmem s) pt"
    using tab_store_leaf [OF _ vpath_path vpath_length u1 pxi_less] s1(2,4)
    by (simp add: is_table_def fun_eq_iff s2_def vm_inv_def)
  have mem: "pmem s2 x = pmem s x" if "pg x \<noteq> pg ?p" "\<And>t. is_table (pmem s) pt t \<Longrightarrow> pg x \<noteq> pg t" for x
  proof -
    have "pg x \<noteq> pg u" using that(2) [of u] u(1) by blast
    then show ?thesis
      using agree_off_entry [OF vm_inv_tableD(1) [OF s1(2) vpath_path u1] pxi_less] that(1) s1(5)
      by (simp add: s2_def agree_off_def)
  qed
  have old: "mapped (pmem s) pt va \<and> pg va \<noteq> pg a \<and> pte_of (pmem s2) pt va = pte_of (pmem s) pt va"
    if "mapped (pmem s2) pt va" for va
    using that pte [of va] by (auto simp: mapped_def split: if_splits)
  have "frame_ok s2 pt (?p # ps) lim va" if "mapped (pmem s2) pt va" "pg va < lim" for va
  proof -
    have f: "frame_ok s pt ps lim va" and fo: "frame_of (pmem s2) pt va = frame_of (pmem s) pt va"
      using old [OF that(1)] that(2) uvm_inv_frame [OF inv] by (auto simp: frame_of_def)
    moreover have "frame_of (pmem s) pt va \<noteq> ?p"
      using f old [OF that(1)] a unfolding frame_ok_def by metis
    moreover have "pg va' = pg va"
      if "pg va' < lim" "mapped (pmem s2) pt va'" "frame_of (pmem s2) pt va' = frame_of (pmem s2) pt va" for va'
      using that f fo old [OF that(2)] unfolding frame_ok_def by (auto simp: frame_of_def)
    ultimately show ?thesis
      using tables s1(6) by (auto simp: frame_ok_def page_ok_def s2_def)
  qed
  moreover have "pte_of (pmem s2) pt va AND PTE_U = 0" if "mapped (pmem s2) pt va" "\<not> pg va < lim" for va
    using old [OF that(1)] that(2) inv by (auto simp: uvm_inv_def)
  ultimately have "uvm_inv s2 pt (?p # ps) lim"
    using vm_extD [OF st(1)] by (auto simp: uvm_inv_def)
  then show ?thesis
    using that [OF run] pte tables mem s1(6,7) by (simp add: s2_def)
qed

section \<open>uvmunmap\<close>

text \<open>The frames of the \<open>n\<close> pages from \<open>a\<close> on.\<close>

primrec frames :: "memory \<Rightarrow> addr \<Rightarrow> u64 \<Rightarrow> nat \<Rightarrow> addr list" where
  "frames m pt a 0 = []"
| "frames m pt a (Suc n) = frame_of m pt a # frames m pt (a + 4096) n"

text \<open>The \<open>n\<close> pages from page number \<open>k\<close> on are mapped by leaf entries.\<close>

definition leaves :: "memory \<Rightarrow> addr \<Rightarrow> nat \<Rightarrow> nat \<Rightarrow> bool" where
  "leaves m pt k n \<longleftrightarrow> (\<forall>va. va < MAXVA \<and> k \<le> pg va \<and> pg va < k + n \<longrightarrow>
     mapped m pt va \<and> PTE_FLAGS (pte_of m pt va) \<noteq> PTE_V)"

lemma frames_cong:
  assumes "page_aligned a" and "unat a + 4096 * n \<le> unat MAXVA"
    and "\<And>va. va < MAXVA \<Longrightarrow> pg a \<le> pg va \<Longrightarrow> pg va < pg a + n \<Longrightarrow> pte_of m' pt va = pte_of m pt va"
  shows "frames m' pt a n = frames m pt a n"
  using assms
proof (induction n arbitrary: a)
  case (Suc n)
  have a: "a < MAXVA" using Suc.prems(2) by (simp add: word_less_nat_alt)
  have nx: "pg (a + 4096) = Suc (pg a)" "page_aligned (a + 4096)" "unat (a + 4096) = unat a + 4096"
    using pg_next [OF Suc.prems(1)] Suc.prems(2) by (simp_all add: MAXVA_num)
  have "frames m' pt (a + 4096) n = frames m pt (a + 4096) n"
    using Suc.prems(2,3) nx by (intro Suc.IH) auto
  then show ?case
    using Suc.prems(3) [OF a] by (simp add: frame_of_def)
qed simp

lemma uvmunmap_loop_ok:
  assumes "uvm_inv s pt ps lim" and "page_aligned a" and "unat a + 4096 * n \<le> unat MAXVA"
    and "pg a + n \<le> lim" and "leaves (pmem s) pt (pg a) n"
  shows "\<exists>s'. uvmunmap_loop n pt a (a + of_nat (4096 * n)) True s = Ok s'
    \<and> uvm_inv s' pt (rev (frames (pmem s) pt a n) @ ps) lim
    \<and> (\<forall>va. va < MAXVA \<longrightarrow> pte_of (pmem s') pt va =
          (if pg a \<le> pg va \<and> pg va < pg a + n then 0 else pte_of (pmem s) pt va))
    \<and> is_table (pmem s') pt = is_table (pmem s) pt
    \<and> (\<forall>x. (\<forall>f\<in>set (frames (pmem s) pt a n). pg x \<noteq> pg f) \<and> (\<forall>t. is_table (pmem s) pt t \<longrightarrow> pg x \<noteq> pg t)
          \<longrightarrow> pmem s' x = pmem s x)
    \<and> kend s' = kend s \<and> kmem.more s' = kmem.more s"
  using assms
proof (induction n arbitrary: s ps a)
  case 0
  then show ?case by auto
next
  case (Suc n)
  have am: "a < MAXVA" "pg a < lim" using Suc.prems(3,4) by (simp_all add: word_less_nat_alt)
  have nx: "pg (a + 4096) = Suc (pg a)" "page_aligned (a + 4096)" "unat (a + 4096) = unat a + 4096"
    using pg_next [OF Suc.prems(2)] Suc.prems(3) by (simp_all add: MAXVA_num)
  have ma: "mapped (pmem s) pt a" "PTE_FLAGS (pte_of (pmem s) pt a) \<noteq> PTE_V"
    using Suc.prems(5) am(1) by (auto simp: leaves_def)
  obtain s1 where s1: "unmap_one pt a True s = Ok s1" "uvm_inv s1 pt (frame_of (pmem s) pt a # ps) lim"
    "\<And>va. va < MAXVA \<Longrightarrow> pte_of (pmem s1) pt va = (if pg va = pg a then 0 else pte_of (pmem s) pt va)"
    "is_table (pmem s1) pt = is_table (pmem s) pt"
    "\<And>x. pg x \<noteq> pg (frame_of (pmem s) pt a) \<Longrightarrow> (\<And>t. is_table (pmem s) pt t \<Longrightarrow> pg x \<noteq> pg t) \<Longrightarrow> pmem s1 x = pmem s x"
    "kend s1 = kend s" "kmem.more s1 = kmem.more s"
    using unmap_one_ok [OF Suc.prems(1) ma(1) am(2) ma(2)] by blast
  have fr: "frames (pmem s1) pt (a + 4096) n = frames (pmem s) pt (a + 4096) n"
    using nx Suc.prems(3) s1(3) by (intro frames_cong) auto
  have lv: "leaves (pmem s1) pt (pg (a + 4096)) n"
    using Suc.prems(5) s1(3) by (auto simp: leaves_def mapped_def nx(1))
  obtain s' where s': "uvmunmap_loop n pt (a + 4096) (a + 4096 + of_nat (4096 * n)) True s1 = Ok s'"
    "uvm_inv s' pt (rev (frames (pmem s) pt (a + 4096) n) @ frame_of (pmem s) pt a # ps) lim"
    "\<forall>va. va < MAXVA \<longrightarrow> pte_of (pmem s') pt va =
          (if pg (a + 4096) \<le> pg va \<and> pg va < pg (a + 4096) + n then 0 else pte_of (pmem s1) pt va)"
    "is_table (pmem s') pt = is_table (pmem s) pt"
    "\<forall>x. (\<forall>f\<in>set (frames (pmem s) pt (a + 4096) n). pg x \<noteq> pg f) \<and> (\<forall>t. is_table (pmem s) pt t \<longrightarrow> pg x \<noteq> pg t)
          \<longrightarrow> pmem s' x = pmem s1 x"
    "kend s' = kend s" "kmem.more s' = kmem.more s"
    using Suc.IH [OF s1(2) nx(2) _ _ lv] Suc.prems(3,4) unfolding fr s1(4,6,7) nx(1,3)
    by auto
  have e: "a + 4096 + of_nat (4096 * n) = a + of_nat (4096 * Suc n)" by simp
  have "unat (a + of_nat (4096 * Suc n)) = unat a + 4096 * Suc n"
    using Suc.prems(3) by (intro unat_add_no_wrap) (simp add: MAXVA_num)
  then have lt: "a < a + of_nat (4096 * Suc n)" by (simp add: word_less_nat_alt)
  have "uvmunmap_loop (Suc n) pt a (a + of_nat (4096 * Suc n)) True s = Ok s'"
    using lt by (subst uvmunmap_loop.simps) (simp only: s1(1) obind.simps if_True PGSIZE_def s'(1) [unfolded e])
  moreover have "pte_of (pmem s') pt va = (if pg a \<le> pg va \<and> pg va < pg a + Suc n then 0 else pte_of (pmem s) pt va)"
    if "va < MAXVA" for va
    using that s'(3) s1(3) nx(1) by auto
  ultimately show ?case
    using s'(2,4-7) s1(5) by auto
qed

section \<open>Growing\<close>

lemma vm_ext_tables:
  "vm_ext pt s ps s' ps' \<Longrightarrow> is_table (pmem s') pt t \<Longrightarrow> is_table (pmem s) pt t \<or> t \<in> set ps"
  "vm_ext pt s ps s' ps' \<Longrightarrow> set ps' \<subseteq> set ps"
  "vm_ext pt s ps s' ps' \<Longrightarrow> kend s' = kend s"
  "vm_ext pt s ps s' ps' \<Longrightarrow> kmem.more s' = kmem.more s"
  by (auto simp: vm_ext_def dest: set_mono_suffix)

text \<open>
  The general step: the pages below \<open>lim\<close> keep their entries, page \<open>lim\<close> may get a fresh
  frame, and the tables and free pages come from the old free list.
\<close>

lemma uvm_inv_step:
  assumes inv: "uvm_inv s pt ps lim" and vm': "vm_inv s' pt ps'"
    and kend: "kend s' = kend s" and sub: "set ps' \<subseteq> set ps"
    and tabs: "\<And>t. is_table (pmem s') pt t \<Longrightarrow> is_table (pmem s) pt t \<or> t \<in> set ps"
    and pte: "\<And>va. va < MAXVA \<Longrightarrow> pte_of (pmem s') pt va = pte_of (pmem s) pt va"
  shows "uvm_inv s' pt ps' lim"
proof -
  have same: "mapped (pmem s') pt va \<longleftrightarrow> mapped (pmem s) pt va" for va
    using pte [of va] by (auto simp: mapped_def)
  have fo: "frame_of (pmem s') pt va = frame_of (pmem s) pt va" if "mapped (pmem s) pt va" for va
    using pte [of va] that by (simp add: frame_of_def mapped_def)
  have "frame_ok s' pt ps' lim va" if m: "mapped (pmem s) pt va" and "pg va < lim" for va
  proof -
    have f: "frame_ok s pt ps lim va" using uvm_inv_frame [OF inv that] .
    have "pg va' = pg va"
      if "pg va' < lim" "mapped (pmem s') pt va'" "frame_of (pmem s') pt va' = frame_of (pmem s') pt va" for va'
      using that f fo [OF m] fo [of va'] same by (simp add: frame_ok_def)
    then show ?thesis
      using f sub tabs [of "frame_of (pmem s) pt va"] fo [OF m] kend by (auto simp: frame_ok_def page_ok_def)
  qed
  moreover have "pte_of (pmem s') pt va AND PTE_U = 0" if "mapped (pmem s) pt va" "\<not> pg va < lim" for va
    using inv that pte [of va] by (auto simp: uvm_inv_def mapped_def)
  ultimately show ?thesis
    using vm' same by (auto simp: uvm_inv_def)
qed

lemma uvm_inv_ext: "uvm_inv s pt ps lim \<Longrightarrow> vm_ext pt s ps s' ps' \<Longrightarrow> same_map pt s s' \<Longrightarrow> uvm_inv s' pt ps' lim"
  by (rule uvm_inv_step) (auto simp: same_map_def dest: vm_extD vm_ext_tables)

text \<open>Taking and zeroing a page.\<close>

lemma kalloc_zero_vm:
  assumes inv: "vm_inv s pt (r # ps)"
    and s1: "s1 = s\<lparr>freelist := load64 (pmem s) r, pmem := memset (memset (pmem s) r 5 4096) r 0 4096\<rparr>"
  shows "vm_inv s1 pt ps" and "same_map pt s s1" and "is_table (pmem s1) pt = is_table (pmem s) pt"
    and "agree_off r (pmem s) (pmem s1)" and "pg x = pg r \<Longrightarrow> pmem s1 x = 0"
proof -
  note r = vm_inv_freeD [OF inv]
  have tree: "pt_tree (pmem s) pt" and free: "free_pages s (r # ps)"
    using inv by (auto simp: vm_inv_def)
  show off: "agree_off r (pmem s) (pmem s1)"
    using agree_off_trans [OF agree_off_memset agree_off_memset] r(1) by (simp add: s1)
  have tab: "tab (pmem s1) pt q = tab (pmem s) pt q" if "q \<in> paths" for q
    by (rule tab_agree_off [OF tree off r(1,2) that])
  then show tables: "is_table (pmem s1) pt = is_table (pmem s) pt"
    by (auto simp: is_table_def fun_eq_iff)
  show "same_map pt s s1"
    using pte_of_agree_off [OF tree off r(1,2)] by (simp add: same_map_def)
  have "free_pages s1 ps"
    using free_pages_agree_off [OF kalloc_Cons(2) [OF free] _ r(1,4)] agree_off_memset [OF r(1)] by (simp add: s1)
  moreover have "pt_tree (pmem s1) pt"
    using tree tab by (simp add: pt_tree_def)
  moreover have "page_ok s t \<and> t \<notin> set ps" if "is_table (pmem s) pt t" for t
    using that inv by (simp add: vm_inv_def)
  ultimately show "vm_inv s1 pt ps"
    using tables by (simp add: vm_inv_def s1)
  assume x: "pg x = pg r"
  then have "unat (x - r) < 4096"
    using pg_iff [OF r(1), of x] page_aligned_end [OF r(1)] by (subst unat_diff_less) auto
  then show "pmem s1 x = 0"
    by (simp add: s1 memset_eq_store store_def)
qed

text \<open>A fresh frame for page \<open>lim\<close>.\<close>

lemma uvm_inv_map:
  assumes inv: "uvm_inv s pt ps lim" and vm': "vm_inv s' pt ps'"
    and kend: "kend s' = kend s" and sub: "set ps' \<subseteq> set ps"
    and tabs: "\<And>t. is_table (pmem s') pt t \<Longrightarrow> is_table (pmem s) pt t \<or> t \<in> set ps"
    and pte: "\<And>va. va < MAXVA \<Longrightarrow> pte_of (pmem s') pt va = (if pg va = lim then v else pte_of (pmem s) pt va)"
    and r: "PTE2PA v = r" "r \<in> set ps" "r \<notin> set ps'" "\<not> is_table (pmem s') pt r"
  shows "uvm_inv s' pt ps' (Suc lim)"
proof -
  have rok: "page_ok s r" using inv r(2) by (auto simp: uvm_inv_def vm_inv_def free_pages_def)
  have old: "mapped (pmem s') pt va \<longleftrightarrow> mapped (pmem s) pt va" "pte_of (pmem s') pt va = pte_of (pmem s) pt va"
    if "va < MAXVA" "pg va \<noteq> lim" for va
    using pte [OF that(1)] that(2) by (auto simp: mapped_def)
  have new: "frame_of (pmem s') pt va = r" if "va < MAXVA" "pg va = lim" for va
    using pte [OF that(1)] that(2) r(1) by (simp add: frame_of_def)
  have fo: "frame_of (pmem s') pt va = frame_of (pmem s) pt va \<and> frame_ok s pt ps lim va
      \<and> frame_of (pmem s) pt va \<noteq> r"
    if "mapped (pmem s') pt va" "pg va < lim" for va
  proof -
    have v: "va < MAXVA" using that(1) by (simp add: mapped_def)
    then have f: "frame_ok s pt ps lim va"
      using uvm_inv_frame [OF inv _ that(2)] old(1) [OF v] that by simp
    then have "frame_of (pmem s) pt va \<noteq> r"
      using r(2) unfolding frame_ok_def by blast
    then show ?thesis
      using f old(2) [OF v] that(2) by (simp add: frame_of_def)
  qed
  have "frame_ok s' pt ps' (Suc lim) va" if m: "mapped (pmem s') pt va" and "pg va < Suc lim" for va
  proof (cases "pg va = lim")
    case True
    have "frame_of (pmem s') pt va = r" using new True m by (simp add: mapped_def)
    moreover have "pg va' = lim" if "pg va' < Suc lim" "mapped (pmem s') pt va'" "frame_of (pmem s') pt va' = r" for va'
      using that fo [OF that(2)] by (cases "pg va' = lim") auto
    ultimately show ?thesis
      using True r(3,4) rok kend by (auto simp: frame_ok_def page_ok_def)
  next
    case False
    then have lt: "pg va < lim" using that(2) by simp
    note f = fo [OF m lt]
    have "pg va' = pg va"
      if "pg va' < Suc lim" "mapped (pmem s') pt va'" "frame_of (pmem s') pt va' = frame_of (pmem s') pt va" for va'
    proof (cases "pg va' = lim")
      case True
      then show ?thesis using that f new [of va'] by (simp add: mapped_def)
    next
      case False
      then have "pg va' < lim" using that(1) by simp
      then show ?thesis
        using f fo [OF that(2)] that(2,3) old(1) [of va'] by (simp add: frame_ok_def mapped_def)
    qed
    moreover have "\<not> is_table (pmem s') pt (frame_of (pmem s) pt va)" "frame_of (pmem s) pt va \<notin> set ps'"
      using f tabs [of "frame_of (pmem s) pt va"] sub by (auto simp: frame_ok_def)
    ultimately show ?thesis
      using f kend unfolding frame_ok_def page_ok_def by simp
  qed
  moreover have "pte_of (pmem s') pt va AND PTE_U = 0" if "mapped (pmem s') pt va" "\<not> pg va < Suc lim" for va
    using that old [of va] inv by (auto simp: uvm_inv_def mapped_def)
  ultimately show ?thesis
    using vm' by (auto simp: uvm_inv_def)
qed

section \<open>uvmalloc\<close>

text \<open>The number of pages of \<open>sz\<close> bytes.\<close>

definition pgup :: "u64 \<Rightarrow> nat" where
  "pgup sz = (unat sz + 4095) div 4096"

text \<open>Free pages and tables come from the old free list; other memory is unchanged.\<close>

definition uvm_to :: "addr \<Rightarrow> 'z kmem_scheme \<Rightarrow> addr list \<Rightarrow> 'z kmem_scheme \<Rightarrow> addr list \<Rightarrow> bool" where
  "uvm_to pt s ps s' ps' \<longleftrightarrow> set ps' \<subseteq> set ps
     \<and> (\<forall>t. is_table (pmem s') pt t \<longrightarrow> is_table (pmem s) pt t \<or> t \<in> set ps)
     \<and> (\<forall>x. untouched (pmem s) pt ps x \<longrightarrow> pmem s' x = pmem s x)
     \<and> kend s' = kend s \<and> kmem.more s' = kmem.more s"

lemma uvm_to_refl: "uvm_to pt s ps s ps"
  by (simp add: uvm_to_def)

lemma uvm_to_trans:
  assumes "uvm_to pt s ps t qs" and "uvm_to pt t qs u rs"
  shows "uvm_to pt s ps u rs"
proof -
  have un: "untouched (pmem t) pt qs x" if "untouched (pmem s) pt ps x" for x
    using that assms(1) unfolding untouched_def uvm_to_def by blast
  have "pmem u x = pmem s x" if "untouched (pmem s) pt ps x" for x
    using that un [OF that] assms unfolding uvm_to_def by metis
  moreover have "is_table (pmem s) pt w \<or> w \<in> set ps" if "is_table (pmem u) pt w" for w
    using that assms unfolding uvm_to_def by blast
  ultimately show ?thesis
    using assms unfolding uvm_to_def by auto
qed

lemma uvm_to_ext: "vm_ext pt s ps s' ps' \<Longrightarrow> uvm_to pt s ps s' ps'"
  by (auto simp: uvm_to_def vm_ext_def dest: set_mono_suffix)

lemma uvm_to_kalloc:
  assumes "vm_inv s pt (r # ps)"
    and "s1 = s\<lparr>freelist := load64 (pmem s) r, pmem := memset (memset (pmem s) r 5 4096) r 0 4096\<rparr>"
  shows "uvm_to pt s (r # ps) s1 ps"
  using kalloc_zero_vm [OF assms] assms(2) by (auto simp: uvm_to_def untouched_def agree_off_def)

lemma uvm_inv_shrink:
  assumes "uvm_inv s pt ps lim" and "k \<le> lim" and "\<And>va. mapped (pmem s) pt va \<Longrightarrow> pg va < lim \<Longrightarrow> pg va < k"
  shows "uvm_inv s pt ps k"
proof -
  have "frame_ok s pt ps k va" if "frame_ok s pt ps lim va" for va
    using that assms(2) by (auto simp: frame_ok_def)
  moreover have "pg va < lim" if "pg va < k" for va
    using that assms(2) by simp
  moreover have "pte_of (pmem s) pt va AND PTE_U = 0" if "mapped (pmem s) pt va" "\<not> pg va < k" for va
  proof -
    have "\<not> pg va < lim" using assms(3) that by blast
    then show ?thesis using assms(1) that(1) unfolding uvm_inv_def by metis
  qed
  ultimately show ?thesis
    using assms(1) unfolding uvm_inv_def by auto
qed

text \<open>One iteration of \<^verbatim>\<open>uvmalloc\<close> that finds a free page \<open>r\<close>.\<close>

lemma uvmalloc_one:
  assumes inv: "uvm_inv s pt (r # ps) (pg a)" and a: "page_aligned a" "a < MAXVA"
    and un: "pte_of (pmem s) pt a AND PTE_V = 0" and perm: "perm < 1024"
    and s1: "s1 = s\<lparr>freelist := load64 (pmem s) r, pmem := memset (memset (pmem s) r 5 4096) r 0 4096\<rparr>"
  obtains rc s2 ps2 where "mappages pt a PGSIZE r perm s1 = Ok (rc, s2)" and "rc = 0 \<or> rc = -1"
    and "uvm_to pt s (r # ps) s2 ps2"
    and "rc = 0 \<Longrightarrow> uvm_inv s2 pt ps2 (Suc (pg a)) \<and> (\<forall>x. pg x = pg r \<longrightarrow> pmem s2 x = 0)
      \<and> (\<forall>va. va < MAXVA \<longrightarrow> pte_of (pmem s2) pt va =
           (if pg va = pg a then PA2PTE r OR perm OR PTE_V else pte_of (pmem s) pt va))"
    and "rc \<noteq> 0 \<Longrightarrow> \<exists>s3. kfree r s2 = Ok s3 \<and> uvm_inv s3 pt [r] (pg a) \<and> uvm_to pt s (r # ps) s3 [r] \<and> same_map pt s s3"
proof -
  have vm: "vm_inv s pt (r # ps)" using inv by (rule uvm_invD)
  note k = kalloc_zero_vm [OF vm s1] and r = vm_inv_freeD [OF vm]
  have un1: "pte_of (pmem s1) pt a AND PTE_V = 0"
    using un k(2) by (simp add: same_map_def)
  obtain rc s2 ps2 where m: "mappages pt a PGSIZE r perm s1 = Ok (rc, s2)" "vm_ext pt s1 ps s2 ps2" "rc = 0 \<or> rc = -1"
    "rc \<noteq> 0 \<Longrightarrow> same_map pt s1 s2 \<and> ps2 = []"
    "rc = 0 \<Longrightarrow> \<forall>va. va < MAXVA \<longrightarrow> pte_of (pmem s2) pt va =
           (if pg va = pg a then PA2PTE r OR perm OR PTE_V else pte_of (pmem s1) pt va)"
    using mappages_one [OF k(1) a un1] by blast
  note to1 = uvm_to_kalloc [OF vm s1]
  have to: "uvm_to pt s (r # ps) s2 ps2"
    by (rule uvm_to_trans [OF to1 uvm_to_ext [OF m(2)]])
  have rok: "page_ok s2 r"
    using vm to by (simp add: vm_inv_def free_pages_def page_ok_def uvm_to_def)
  have r2: "r \<notin> set ps2" "\<not> is_table (pmem s2) pt r"
    using r vm_ext_tables(1,2) [OF m(2)] k(3) by auto
  have kend: "kend s2 = kend s" and more: "kmem.more s2 = kmem.more s"
    and sub: "set ps2 \<subseteq> set (r # ps)" and tabs: "\<And>t. is_table (pmem s2) pt t \<Longrightarrow> is_table (pmem s) pt t \<or> t \<in> set (r # ps)"
    using to by (auto simp: uvm_to_def)
  have ok: "uvm_inv s2 pt ps2 (Suc (pg a)) \<and> (\<forall>x. pg x = pg r \<longrightarrow> pmem s2 x = 0)
      \<and> (\<forall>va. va < MAXVA \<longrightarrow> pte_of (pmem s2) pt va =
           (if pg va = pg a then PA2PTE r OR perm OR PTE_V else pte_of (pmem s) pt va))" if "rc = 0"
  proof -
    have pte: "pte_of (pmem s2) pt va = (if pg va = pg a then PA2PTE r OR perm OR PTE_V else pte_of (pmem s) pt va)"
      if "va < MAXVA" for va
      using m(5) [OF \<open>rc = 0\<close>] k(2) that by (simp add: same_map_def)
    have "perm OR PTE_V < 1024"
      using perm OR_upper [of "uint perm" 10 1] by (simp add: word_less_def uint_or)
    then have fr: "PTE2PA (PA2PTE r OR perm OR PTE_V) = r"
      by (rule PTE2PA_PA2PTE [OF r(1)])
    have "uvm_inv s2 pt ps2 (Suc (pg a))"
      by (rule uvm_inv_map [OF inv vm_extD [OF m(2)] kend sub tabs pte fr _ r2]) auto
    moreover have "pmem s2 x = 0" if "pg x = pg r" for x
    proof -
      have "untouched (pmem s1) pt ps x"
        using r k(1,3) that pg_inject r(1) by (auto simp: untouched_def vm_inv_def page_ok_def free_pages_def)
      then show ?thesis
        using m(2) k(5) [OF that] by (simp add: vm_ext_def)
    qed
    ultimately show ?thesis using pte by simp
  qed
  have fail: "\<exists>s3. kfree r s2 = Ok s3 \<and> uvm_inv s3 pt [r] (pg a) \<and> uvm_to pt s (r # ps) s3 [r] \<and> same_map pt s s3" if "rc \<noteq> 0"
  proof -
    have e: "ps2 = []" and same: "same_map pt s s2"
      using m(4) [OF that] same_map_trans [OF k(2)] by auto
    obtain s3 where s3: "kfree r s2 = Ok s3" "vm_inv s3 pt (r # ps2)" "same_map pt s2 s3"
      "is_table (pmem s3) pt = is_table (pmem s2) pt" "agree_off r (pmem s2) (pmem s3)"
      "kend s3 = kend s2" "kmem.more s3 = kmem.more s2"
      using kfree_vm [OF vm_extD [OF m(2)] rok r2] by metis
    have same3: "same_map pt s s3" by (rule same_map_trans [OF same s3(3)])
    have "uvm_inv s3 pt [r] (pg a)"
      using s3(2) tabs kend e same3 s3(4,6) by (intro uvm_inv_step [OF inv]) (auto simp: same_map_def)
    moreover have "uvm_to pt s (r # ps) s3 [r]"
      using to s3(4-7) tabs by (auto simp: uvm_to_def untouched_def agree_off_def)
    ultimately show ?thesis using s3(1) same3 by blast
  qed
  show ?thesis
    using that [OF m(1,3) to ok fail] by blast
qed

lemma PGROUNDUP_pgup:
  assumes "unat sz \<le> unat MAXVA"
  shows "unat (PGROUNDUP sz) = 4096 * pgup sz" and "pg (PGROUNDUP sz) = pgup sz" and "page_aligned (PGROUNDUP sz)"
    and "4096 * pgup sz \<le> unat MAXVA"
proof -
  show u: "unat (PGROUNDUP sz) = 4096 * pgup sz"
    using assms unat_PGROUNDUP [of sz] by (simp add: pgup_def MAXVA_num)
  then show "pg (PGROUNDUP sz) = pgup sz" "page_aligned (PGROUNDUP sz)"
    by (simp_all add: pg_def page_aligned_def)
  show "4096 * pgup sz \<le> unat MAXVA"
  proof -
    have "pgup sz \<le> (274877906944 + 4095) div 4096"
      using assms unfolding pgup_def by (intro div_le_mono) (simp add: MAXVA_num)
    then show ?thesis by (simp add: MAXVA_num)
  qed
qed

lemma pgup_aligned: "page_aligned a \<Longrightarrow> pgup a = pg a"
  unfolding page_aligned_eq pgup_def by simp

text \<open>The page count of \<^verbatim>\<open>uvmdealloc\<close> fits its \<^verbatim>\<open>int\<close>.\<close>

lemma npages_int:
  assumes "w = (of_nat (4096 * n) :: u64)" and "n < 2 ^ 31"
  shows "unat (scast (ucast (w div PGSIZE) :: u32) :: u64) = n"
proof -
  have "unat w = 4096 * n"
    unfolding assms(1) by (rule unat_of_nat_addr) (use assms(2) in simp)
  then have u: "unat (w div PGSIZE) = n"
    by (simp add: unat_div)
  then have d: "w div PGSIZE = of_nat n"
    by (metis word_unat_eq_iff unat_of_nat_addr unat_less_64 of_nat_unat)
  have "sint (of_nat n :: u32) = int n"
    using assms(2) by (simp add: signed_of_nat signed_take_bit_int_eq_self)
  then have "scast (of_nat n :: u32) = (of_nat n :: u64)"
    by (metis of_int_of_nat_eq scast_eq)
  then show ?thesis
    using assms(2) unfolding d by (simp add: unsigned_of_nat take_bit_nat_eq_self)
qed

lemma uvmdealloc_ok:
  assumes inv: "uvm_inv s pt ps lim" and old: "unat oldsz \<le> unat MAXVA" "pgup oldsz \<le> lim" and "pgup newsz \<le> pgup oldsz"
    and lv: "leaves (pmem s) pt (pgup newsz) (pgup oldsz - pgup newsz)"
  shows "\<exists>r s'. uvmdealloc pt oldsz newsz s = Ok (r, s')
    \<and> r = min oldsz newsz
    \<and> uvm_inv s' pt (rev (frames (pmem s) pt (PGROUNDUP newsz) (pgup oldsz - pgup newsz)) @ ps) lim
    \<and> (\<forall>va. va < MAXVA \<longrightarrow> pte_of (pmem s') pt va =
          (if pgup newsz \<le> pg va \<and> pg va < pgup oldsz then 0 else pte_of (pmem s) pt va))
    \<and> is_table (pmem s') pt = is_table (pmem s) pt
    \<and> (\<forall>x. (\<forall>f\<in>set (frames (pmem s) pt (PGROUNDUP newsz) (pgup oldsz - pgup newsz)). pg x \<noteq> pg f)
          \<and> (\<forall>t. is_table (pmem s) pt t \<longrightarrow> pg x \<noteq> pg t) \<longrightarrow> pmem s' x = pmem s x)
    \<and> kend s' = kend s \<and> kmem.more s' = kmem.more s"
proof (cases "pgup newsz < pgup oldsz")
  case True
  have lt: "newsz < oldsz"
  proof (rule ccontr)
    assume "\<not> newsz < oldsz"
    then have "pgup oldsz \<le> pgup newsz"
      unfolding pgup_def by (intro div_le_mono) (simp add: word_less_nat_alt)
    then show False using True by simp
  qed
  then have new: "unat newsz \<le> unat MAXVA" using old(1) by (simp add: word_less_nat_alt)
  note po = PGROUNDUP_pgup [OF old(1)] and pn = PGROUNDUP_pgup [OF new]
  define n where "n = pgup oldsz - pgup newsz"
  have up: "PGROUNDUP newsz < PGROUNDUP oldsz" using True po(1) pn(1) by (simp add: word_less_nat_alt)
  have n31: "n < 2 ^ 31" using po(4) by (simp add: n_def MAXVA_num)
  have "unat (PGROUNDUP oldsz - PGROUNDUP newsz) = 4096 * n"
    using up po(1) pn(1) by (simp add: unat_sub n_def diff_mult_distrib2 order.strict_implies_order)
  moreover have "of_nat (unat (PGROUNDUP oldsz - PGROUNDUP newsz)) = PGROUNDUP oldsz - PGROUNDUP newsz"
    by simp
  ultimately have "PGROUNDUP oldsz - PGROUNDUP newsz = of_nat (4096 * n)"
    by simp
  note np = npages_int [OF this n31]
  let ?np = "scast (ucast ((PGROUNDUP oldsz - PGROUNDUP newsz) div PGSIZE) :: u32) :: u64"
  have "?np * PGSIZE = of_nat (4096 * n)"
    by (subst np [symmetric]) (simp del: np)
  then have "uvmunmap pt (PGROUNDUP newsz) ?np True s = uvmunmap_loop n pt (PGROUNDUP newsz) (PGROUNDUP newsz + of_nat (4096 * n)) True s"
    unfolding uvmunmap_def np using pn(3) page_aligned_mod [of "PGROUNDUP newsz"] by simp
  then have run: "uvmdealloc pt oldsz newsz s =
      obind (uvmunmap_loop n pt (PGROUNDUP newsz) (PGROUNDUP newsz + of_nat (4096 * n)) True s) (\<lambda>s. Ok (newsz, s))"
    using lt up by (simp add: uvmdealloc_def Let_def flip: not_less)
  have b: "unat (PGROUNDUP newsz) + 4096 * n \<le> unat MAXVA" "pg (PGROUNDUP newsz) + n \<le> lim"
    "leaves (pmem s) pt (pg (PGROUNDUP newsz)) n" "pgup newsz + n = pgup oldsz"
    using po(4) pn(1,2) old(2) True lv by (simp_all add: n_def)
  have "min oldsz newsz = newsz" using lt by (simp add: min_def flip: not_less)
  then show ?thesis
    using uvmunmap_loop_ok [OF inv pn(3) b(1-3)] unfolding run pn(2) b(4) by (auto simp: n_def)
next
  case False
  then have eq: "pgup newsz = pgup oldsz" using assms(4) by simp
  have "\<not> PGROUNDUP newsz < PGROUNDUP oldsz" if "newsz < oldsz"
  proof -
    have "unat newsz \<le> unat MAXVA" using old(1) that by (simp add: word_less_nat_alt)
    then show ?thesis
      using PGROUNDUP_pgup(1) old(1) eq by (simp add: word_less_nat_alt)
  qed
  then show ?thesis
    using inv eq by (auto simp: uvmdealloc_def min_def)
qed

lemma aligned_less_pgup: "page_aligned a \<Longrightarrow> a < sz \<longleftrightarrow> pg a < pgup sz"
proof -
  assume "page_aligned a"
  then have "unat a = 4096 * pg a" by (simp add: page_aligned_eq)
  moreover have "pg a < pgup sz \<longleftrightarrow> Suc (pg a) * 4096 \<le> unat sz + 4095"
    unfolding pgup_def Suc_le_eq [symmetric] by (rule less_eq_div_iff_mult_less_eq) simp
  ultimately show ?thesis by (auto simp: word_less_nat_alt)
qed

text \<open>
  What a failed \<^verbatim>\<open>uvmalloc\<close> guarantees: the pages from \<open>orig\<close> to \<open>a\<close> are gone, all others
  are as before.
\<close>

definition undone :: "addr \<Rightarrow> u64 \<Rightarrow> u64 \<Rightarrow> 'z kmem_scheme \<Rightarrow> addr list \<Rightarrow> 'z kmem_scheme \<Rightarrow> addr list \<Rightarrow> bool" where
  "undone pt orig a s ps s' ps' \<longleftrightarrow> uvm_inv s' pt ps' (pg orig)
     \<and> (\<forall>va. va < MAXVA \<longrightarrow> pte_of (pmem s') pt va = (if pg orig \<le> pg va \<and> pg va < pg a then 0 else pte_of (pmem s) pt va))
     \<and> (\<forall>x. untouched (pmem s) pt ps x \<and> (\<forall>f\<in>set (frames (pmem s) pt orig (pg a - pg orig)). pg x \<noteq> pg f)
          \<longrightarrow> pmem s' x = pmem s x)
     \<and> kend s' = kend s \<and> kmem.more s' = kmem.more s"

lemma uvmalloc_undo:
  assumes inv: "uvm_inv t pt qs (pg a)" and to: "uvm_to pt s ps t qs" and same: "\<And>va. va < MAXVA \<Longrightarrow> pte_of (pmem t) pt va = pte_of (pmem s) pt va"
    and a: "page_aligned a" "unat a \<le> unat MAXVA" and orig: "page_aligned orig" "pg orig \<le> pg a"
    and lv: "leaves (pmem s) pt (pg orig) (pg a - pg orig)"
  shows "\<exists>s' ps'. obind (uvmdealloc pt a orig t) (\<lambda>(_, s). Ok (0, s)) = Ok (0, s') \<and> undone pt orig a s ps s' ps'"
proof -
  have up: "pgup a = pg a" "pgup orig = pg orig" "PGROUNDUP orig = orig"
    using a orig pgup_aligned PGROUNDUP_pgup(1) [of orig]
    by (auto simp: page_aligned_eq word_unat_eq_iff [of "PGROUNDUP orig" orig])
  have lv': "leaves (pmem t) pt (pg orig) (pg a - pg orig)"
    using lv same by (auto simp: leaves_def mapped_def)
  have fr: "frames (pmem t) pt orig (pg a - pg orig) = frames (pmem s) pt orig (pg a - pg orig)"
    using a orig same by (intro frames_cong) (auto simp: page_aligned_eq)
  obtain s' where s': "uvmdealloc pt a orig t = Ok (min a orig, s')"
    "uvm_inv s' pt (rev (frames (pmem s) pt orig (pg a - pg orig)) @ qs) (pg a)"
    "\<forall>va. va < MAXVA \<longrightarrow> pte_of (pmem s') pt va = (if pg orig \<le> pg va \<and> pg va < pg a then 0 else pte_of (pmem t) pt va)"
    "\<forall>x. (\<forall>f\<in>set (frames (pmem s) pt orig (pg a - pg orig)). pg x \<noteq> pg f)
          \<and> (\<forall>w. is_table (pmem t) pt w \<longrightarrow> pg x \<noteq> pg w) \<longrightarrow> pmem s' x = pmem t x"
    "kend s' = kend t" "kmem.more s' = kmem.more t"
    using uvmdealloc_ok [OF inv a(2), of orig] lv' orig up unfolding up fr by auto
  have "uvm_inv s' pt (rev (frames (pmem s) pt orig (pg a - pg orig)) @ qs) (pg orig)"
    by (rule uvm_inv_shrink [OF s'(2) orig(2)]) (use s'(3) in \<open>auto simp: mapped_def split: if_splits\<close>)
  moreover have "pmem s' x = pmem s x"
    if "untouched (pmem s) pt ps x" "\<forall>f\<in>set (frames (pmem s) pt orig (pg a - pg orig)). pg x \<noteq> pg f" for x
  proof -
    have "\<forall>w. is_table (pmem t) pt w \<longrightarrow> pg x \<noteq> pg w"
      using that(1) to unfolding untouched_def uvm_to_def by blast
    then show ?thesis using that s'(4) to by (simp add: uvm_to_def)
  qed
  ultimately have "undone pt orig a s ps s' (rev (frames (pmem s) pt orig (pg a - pg orig)) @ qs)"
    using s'(3,5,6) same to by (simp add: undone_def uvm_to_def)
  then show ?thesis using s'(1) by auto
qed

text \<open>What a successful \<^verbatim>\<open>uvmalloc\<close> guarantees: the pages from \<open>a\<close> up to \<open>newsz\<close> are fresh and zero.\<close>

definition grown :: "addr \<Rightarrow> u64 \<Rightarrow> u64 \<Rightarrow> u64 \<Rightarrow> 'z kmem_scheme \<Rightarrow> addr list \<Rightarrow> 'z kmem_scheme \<Rightarrow> addr list \<Rightarrow> bool" where
  "grown pt a newsz xperm s ps s' ps' \<longleftrightarrow> uvm_inv s' pt ps' (max (pg a) (pgup newsz)) \<and> uvm_to pt s ps s' ps'
     \<and> (\<forall>va. va < MAXVA \<longrightarrow>
          (if pg a \<le> pg va \<and> pg va < pgup newsz
           then mapped (pmem s') pt va \<and> PTE_FLAGS (pte_of (pmem s') pt va) = (PTE_R OR PTE_U OR xperm OR PTE_V)
                \<and> (\<forall>x. pg x = pg (frame_of (pmem s') pt va) \<longrightarrow> pmem s' x = 0)
           else pte_of (pmem s') pt va = pte_of (pmem s) pt va))"

lemma frames_snoc: "frames m pt a (Suc n) = frames m pt a n @ [frame_of m pt (a + of_nat (4096 * n))]"
proof (induction n arbitrary: a)
  case (Suc n)
  have "frames m pt a (Suc (Suc n)) = frame_of m pt a # frames m pt (a + 4096) (Suc n)" by simp
  also have "\<dots> = frame_of m pt a # frames m pt (a + 4096) n @ [frame_of m pt (a + 4096 + of_nat (4096 * n))]"
    by (simp only: Suc.IH)
  also have "a + 4096 + of_nat (4096 * n) = a + of_nat (4096 * Suc n)" by simp
  finally show ?case by simp
qed simp

lemma word_or_less: "(x :: u64) < 1024 \<Longrightarrow> y < 1024 \<Longrightarrow> x OR y < 1024"
  using OR_upper [of "uint x" 10 "uint y"] by (simp add: word_less_def uint_or)

lemma flags_small: "x < 1024 \<Longrightarrow> PTE_FLAGS (PA2PTE r OR x) = x"
proof -
  assume x: "x < 1024"
  have "unat (take_bit 10 x) = unat x"
    using x by (simp add: take_bit_eq_mod unat_mod word_less_nat_alt)
  then have "take_bit 10 x = x"
    by (simp only: word_unat_eq_iff)
  then have "x AND 0x3FF = x"
    by (simp add: take_bit_eq_mask mask_eq_exp_minus_1)
  then show ?thesis by (simp add: PTE_FLAGS_def PA2PTE_and)
qed

text \<open>An iteration composed with what the remaining iterations achieve.\<close>

lemma or_not_V: "PTE_R OR x OR PTE_V \<noteq> PTE_V"
proof
  assume "PTE_R OR x OR PTE_V = PTE_V"
  then have "bit (2 OR x OR 1 :: u64) 1 = bit (1 :: u64) 1" by simp
  then show False by (simp add: bit_simps)
qed

lemma leaves_snoc:
  assumes "leaves (pmem s) pt k (j - k)" and "k \<le> j"
    and "\<And>va. va < MAXVA \<Longrightarrow> pte_of (pmem s') pt va = (if pg va = j then v else pte_of (pmem s) pt va)"
    and "v AND PTE_V \<noteq> 0" and "PTE_FLAGS v \<noteq> PTE_V"
  shows "leaves (pmem s') pt k (Suc j - k)"
  unfolding leaves_def
proof (intro allI impI, elim conjE)
  fix va assume va: "va < MAXVA" "k \<le> pg va" "pg va < k + (Suc j - k)"
  show "mapped (pmem s') pt va \<and> PTE_FLAGS (pte_of (pmem s') pt va) \<noteq> PTE_V"
  proof (cases "pg va = j")
    case True
    then show ?thesis using assms(3) [OF va(1)] assms(4,5) va(1) by (simp add: mapped_def)
  next
    case False
    then have "pg va < k + (j - k)" using va assms(2) by simp
    then show ?thesis
      using assms(1) assms(3) [OF va(1)] va False by (simp add: leaves_def mapped_def)
  qed
qed

lemma grown_step:
  assumes it: "uvm_inv s2 pt ps2 (Suc (pg a)) \<and> (\<forall>x. pg x = pg r \<longrightarrow> pmem s2 x = 0)
      \<and> (\<forall>va. va < MAXVA \<longrightarrow> pte_of (pmem s2) pt va = (if pg va = pg a then PA2PTE r OR fl else pte_of (pmem s) pt va))"
    and to: "uvm_to pt s ps s2 ps2" and nx: "pg b = Suc (pg a)" and lt: "pg a < pgup newsz"
    and fl: "fl < 1024" "fl AND PTE_V \<noteq> 0" "fl = (PTE_R OR PTE_U OR xperm OR PTE_V)" and r: "page_aligned r"
    and rest: "grown pt b newsz xperm s2 ps2 s' ps'"
  shows "grown pt a newsz xperm s ps s' ps'"
proof -
  have max: "max (pg b) (pgup newsz) = max (pg a) (pgup newsz)"
    using nx lt by (simp add: max_def)
  have first: "mapped (pmem s') pt va \<and> PTE_FLAGS (pte_of (pmem s') pt va) = fl
      \<and> (\<forall>x. pg x = pg (frame_of (pmem s') pt va) \<longrightarrow> pmem s' x = 0)" if va: "va < MAXVA" "pg va = pg a" for va
  proof -
    have pte: "pte_of (pmem s') pt va = pte_of (pmem s2) pt va" "pte_of (pmem s2) pt va = (PA2PTE r OR fl)"
      using rest it va nx by (simp_all add: grown_def)
    have m2: "mapped (pmem s2) pt va" and fr: "frame_of (pmem s2) pt va = r" "frame_of (pmem s') pt va = r"
      using pte va(1) fl(2) PA2PTE_and [of 1 r fl] PTE2PA_PA2PTE [OF r fl(1)] by (simp_all add: mapped_def frame_of_def)
    have "frame_ok s2 pt ps2 (Suc (pg a)) va"
      using it m2 va(2) by (intro uvm_inv_frame) auto
    then have "untouched (pmem s2) pt ps2 x" if "pg x = pg r" for x
      using that fr r it by (auto simp: untouched_def frame_ok_def uvm_inv_def vm_inv_def page_ok_def free_pages_def pg_inject)
    then have "pmem s' x = 0" if "pg x = pg r" for x
      using rest it that by (simp add: grown_def uvm_to_def)
    then show ?thesis
      using m2 pte fr flags_small [OF fl(1)] by (simp add: mapped_def)
  qed
  show ?thesis
    unfolding grown_def
  proof (intro conjI allI impI)
    show "uvm_inv s' pt ps' (max (pg a) (pgup newsz))" using rest max by (simp add: grown_def)
    show "uvm_to pt s ps s' ps'" using uvm_to_trans [OF to] rest by (simp add: grown_def)
    fix va assume va: "va < MAXVA"
    show "if pg a \<le> pg va \<and> pg va < pgup newsz
          then mapped (pmem s') pt va \<and> PTE_FLAGS (pte_of (pmem s') pt va) = (PTE_R OR PTE_U OR xperm OR PTE_V)
               \<and> (\<forall>x. pg x = pg (frame_of (pmem s') pt va) \<longrightarrow> pmem s' x = 0)
          else pte_of (pmem s') pt va = pte_of (pmem s) pt va"
    proof (cases "pg va = pg a")
      case True
      then show ?thesis using first [OF va] lt fl(3) by simp
    next
      case False
      then have "pte_of (pmem s2) pt va = pte_of (pmem s) pt va" using it va by simp
      then show ?thesis using rest va nx False unfolding grown_def by (metis Suc_le_eq le_less)
    qed
  qed
qed

lemma undone_step:
  assumes it: "uvm_inv s2 pt ps2 (Suc (pg a)) \<and> (\<forall>x. pg x = pg r \<longrightarrow> pmem s2 x = 0)
      \<and> (\<forall>va. va < MAXVA \<longrightarrow> pte_of (pmem s2) pt va = (if pg va = pg a then PA2PTE r OR fl else pte_of (pmem s) pt va))"
    and to: "uvm_to pt s ps s2 ps2" and nx: "pg b = Suc (pg a)" and un: "pte_of (pmem s) pt a = 0"
    and a: "page_aligned a" "a < MAXVA" and orig: "page_aligned orig" "pg orig \<le> pg a"
    and fl: "fl < 1024" and r: "page_aligned r" "r \<in> set ps"
    and rest: "undone pt orig b s2 ps2 s' ps'"
  shows "undone pt orig a s ps s' ps'"
proof -
  have bound: "unat orig + 4096 * (pg a - pg orig) = unat a"
    using a(1) orig by (simp add: page_aligned_eq)
  have "unat (orig + of_nat (4096 * (pg a - pg orig))) = unat a"
    using bound unat_less_64 [of a] by (subst unat_add_no_wrap) auto
  then have last: "orig + of_nat (4096 * (pg a - pg orig)) = a"
    by (simp only: word_unat_eq_iff)
  have "frames (pmem s2) pt orig (pg b - pg orig) = frames (pmem s2) pt orig (pg a - pg orig) @ [frame_of (pmem s2) pt a]"
    using orig(2) nx last by (simp only: Suc_diff_le frames_snoc)
  moreover have "frames (pmem s2) pt orig (pg a - pg orig) = frames (pmem s) pt orig (pg a - pg orig)"
    using it bound a(2) by (intro frames_cong [OF orig(1)]) (auto simp: word_less_nat_alt)
  moreover have "frame_of (pmem s2) pt a = r"
    using it a(2) PTE2PA_PA2PTE [OF r(1) fl] by (simp add: frame_of_def)
  ultimately have fr: "frames (pmem s2) pt orig (pg b - pg orig) = frames (pmem s) pt orig (pg a - pg orig) @ [r]"
    by simp
  have pte: "pte_of (pmem s') pt va = (if pg orig \<le> pg va \<and> pg va < pg a then 0 else pte_of (pmem s) pt va)"
    if va: "va < MAXVA" for va
    using rest it va nx un orig(2) pte_of_pg [OF a(2) va] by (auto simp: undone_def)
  have "pmem s' x = pmem s x"
    if x: "untouched (pmem s) pt ps x" "\<forall>f\<in>set (frames (pmem s) pt orig (pg a - pg orig)). pg x \<noteq> pg f" for x
  proof -
    have "untouched (pmem s2) pt ps2 x"
      using x(1) to unfolding untouched_def uvm_to_def by blast
    moreover have "pg x \<noteq> pg r" using x(1) r(2) by (simp add: untouched_def)
    ultimately show ?thesis
      using rest x to by (simp add: undone_def fr uvm_to_def)
  qed
  then show ?thesis
    using rest pte to by (simp add: undone_def uvm_to_def)
qed

lemma uvmalloc_loop_ok:
  assumes "uvm_inv s pt ps (pg a)" and "page_aligned a" and "page_aligned orig" and "pg orig \<le> pg a"
    and "leaves (pmem s) pt (pg orig) (pg a - pg orig)" and "unat newsz \<le> unat MAXVA"
    and "\<forall>va. va < MAXVA \<and> pg a \<le> pg va \<and> pg va < pgup newsz \<longrightarrow> pte_of (pmem s) pt va = 0"
    and "pgup newsz \<le> pg a + fuel" and "xperm < 1024"
  shows "\<exists>rc s' ps'. uvmalloc_loop fuel pt a orig newsz xperm s = Ok (rc, s')
    \<and> (rc = newsz \<and> grown pt a newsz xperm s ps s' ps' \<or> rc = 0 \<and> undone pt orig a s ps s' ps')"
  using assms
proof (induction fuel arbitrary: s ps a)
  case 0
  then show ?case
    by (auto simp: aligned_less_pgup grown_def max_def uvm_to_refl intro!: exI [of _ ps])
next
  case (Suc fuel)
  show ?case
  proof (cases "a < newsz")
    case False
    then show ?thesis
      using Suc.prems by (auto simp: aligned_less_pgup grown_def max_def uvm_to_refl intro!: exI [of _ ps])
  next
    case True
    then have am: "a < MAXVA" "unat a \<le> unat MAXVA" and lt: "pg a < pgup newsz"
      using Suc.prems(2,6) by (auto simp: word_less_nat_alt aligned_less_pgup [symmetric])
    have un: "pte_of (pmem s) pt a = 0" using Suc.prems(7) am(1) lt by simp
    let ?perm = "PTE_R OR PTE_U OR xperm"
    show ?thesis
    proof (cases ps)
      case Nil
      then have "kalloc s = (0, s)"
        using Suc.prems(1) by (intro kalloc_empty) (simp add: uvm_inv_def vm_inv_def)
      then show ?thesis
        using uvmalloc_undo [OF Suc.prems(1) uvm_to_refl _ Suc.prems(2) am(2) Suc.prems(3,4,5)] True by auto
    next
      case (Cons r ps1)
      have perm: "?perm < 1024"
        using Suc.prems(9) by (intro word_or_less) auto
      define s1 where "s1 = s\<lparr>freelist := load64 (pmem s) r, pmem := memset (memset (pmem s) r 5 4096) r 0 4096\<rparr>"
      have inv: "uvm_inv s pt (r # ps1) (pg a)" using Suc.prems(1) Cons by simp
      have kal: "kalloc s = (r, s\<lparr>freelist := load64 (pmem s) r, pmem := memset (pmem s) r 5 4096\<rparr>)" and r0: "r \<noteq> 0"
        using kalloc_Cons(1) [of s r ps1] inv vm_inv_freeD(3) [OF uvm_invD [OF inv]] by (auto simp: uvm_inv_def vm_inv_def)
      obtain rc s2 ps2 where m: "mappages pt a PGSIZE r ?perm s1 = Ok (rc, s2)" "rc = 0 \<or> rc = -1"
        "uvm_to pt s (r # ps1) s2 ps2"
        "rc = 0 \<Longrightarrow> uvm_inv s2 pt ps2 (Suc (pg a)) \<and> (\<forall>x. pg x = pg r \<longrightarrow> pmem s2 x = 0)
          \<and> (\<forall>va. va < MAXVA \<longrightarrow> pte_of (pmem s2) pt va =
               (if pg va = pg a then PA2PTE r OR ?perm OR PTE_V else pte_of (pmem s) pt va))"
        "rc \<noteq> 0 \<Longrightarrow> \<exists>s3. kfree r s2 = Ok s3 \<and> uvm_inv s3 pt [r] (pg a) \<and> uvm_to pt s (r # ps1) s3 [r] \<and> same_map pt s s3"
        using uvmalloc_one [OF inv Suc.prems(2) am(1) _ perm s1_def] un by (metis zero_and_eq)
      show ?thesis
      proof (cases "rc = 0")
        case False
        then obtain s3 where s3: "kfree r s2 = Ok s3" "uvm_inv s3 pt [r] (pg a)" "uvm_to pt s (r # ps1) s3 [r]" "same_map pt s s3"
          using m(5) by blast
        show ?thesis
          using uvmalloc_undo [OF s3(2,3) _ Suc.prems(2) am(2) Suc.prems(3,4,5)] s3(1,4) m(1) False True kal r0 Cons
          by (auto simp: same_map_def s1_def)
      next
        case rc: True
        have nx: "pg (a + 4096) = Suc (pg a)" "page_aligned (a + 4096)"
          using pg_next [OF Suc.prems(2)] am(1) by (simp_all add: MAXVA_num word_less_nat_alt)
        note m4 = m(4) [OF rc]
        have small: "?perm OR PTE_V < 1024"
          using perm by (rule word_or_less) simp
        have fl: "?perm OR PTE_V < 1024" "PTE_FLAGS (PA2PTE r OR (?perm OR PTE_V)) \<noteq> PTE_V" "(?perm OR PTE_V) AND PTE_V \<noteq> 0"
          using small or_not_V [of "PTE_U OR xperm"] flags_small [OF small, of r]
          by (simp_all add: or.assoc bit.conj_disj_distrib2)
        have V: "(PA2PTE r OR (?perm OR PTE_V)) AND PTE_V \<noteq> 0"
          using fl(3) PA2PTE_and [of 1 r "?perm OR PTE_V"] by simp
        have m4': "uvm_inv s2 pt ps2 (Suc (pg a)) \<and> (\<forall>x. pg x = pg r \<longrightarrow> pmem s2 x = 0)
          \<and> (\<forall>va. va < MAXVA \<longrightarrow> pte_of (pmem s2) pt va =
               (if pg va = pg a then PA2PTE r OR (?perm OR PTE_V) else pte_of (pmem s) pt va))"
          using m4 by (simp add: or.assoc)
        have lv: "leaves (pmem s2) pt (pg orig) (pg (a + 4096) - pg orig)"
          unfolding nx(1) by (rule leaves_snoc [OF Suc.prems(5,4) _ V fl(2)]) (use m4' in blast)
        obtain rc' s' ps' where ih: "uvmalloc_loop fuel pt (a + 4096) orig newsz xperm s2 = Ok (rc', s')"
          "rc' = newsz \<and> grown pt (a + 4096) newsz xperm s2 ps2 s' ps' \<or> rc' = 0 \<and> undone pt orig (a + 4096) s2 ps2 s' ps'"
          using Suc.IH [of s2 ps2 "a + 4096"] m4 nx lv Suc.prems(3,4,6-9) by auto
        have run: "uvmalloc_loop (Suc fuel) pt a orig newsz xperm s = Ok (rc', s')"
          using True kal r0 m(1) rc ih(1) by (simp add: s1_def)
        have ral: "page_aligned r" using vm_inv_freeD(1) [OF uvm_invD [OF inv]] .
        have "rc' = newsz \<and> grown pt a newsz xperm s ps s' ps' \<or> rc' = 0 \<and> undone pt orig a s ps s' ps'"
          using ih(2) grown_step [OF m4' m(3) nx(1) lt fl(1,3) _ ral]
            undone_step [OF m4' m(3) nx(1) un Suc.prems(2) am(1) Suc.prems(3,4) fl(1) ral]
          by (auto simp: Cons or.assoc)
        then show ?thesis using run by blast
      qed
    qed
  qed
qed


text \<open>An empty page table in an allocator with three free pages.\<close>

definition vm_ex :: kmem where
  "vm_ex = \<lparr>pmem = store64 (store64 (\<lambda>_. 0) 0x80020000 0x80021000) 0x80021000 0x80022000,
            freelist = 0x80020000, kend = 0x80010000\<rparr>"

lemma vm_ex_free: "free_pages vm_ex [0x80020000, 0x80021000, 0x80022000]"
proof -
  have "load64 (store64 m 0x80021000 v) 0x80020000 = load64 m 0x80020000" for m v
    by (rule load64_store64_apart) simp_all
  moreover have "load64 (store64 m 0x80021000 v) 0x80022000 = load64 m 0x80022000"
    "load64 (store64 m 0x80020000 v) 0x80022000 = load64 m 0x80022000" for m v
    by (rule load64_store64_apart; simp)+
  ultimately show ?thesis
    by (simp add: free_pages_def vm_ex_def load64_store64_same load64_zero page_ok_def page_aligned_def PHYSTOP_num)
qed

lemma vm_ex_rd: "i < 512 \<Longrightarrow> rd (pmem vm_ex) 0x80030000 i = 0"
proof -
  assume i: "i < 512"
  have al: "page_aligned 0x80020000" "page_aligned 0x80021000" "page_aligned 0x80030000"
    by (simp_all add: page_aligned_def)
  have "rd (store64 m 0x80021000 v) 0x80030000 i = rd m 0x80030000 i"
    "rd (store64 m 0x80020000 v) 0x80030000 i = rd m 0x80030000 i" for m v
    using rd_store64 [OF al(2,3), of 0 i m v] rd_store64 [OF al(1,3), of 0 i m v] i by simp_all
  then show ?thesis by (simp add: vm_ex_def rd_def load64_zero)
qed

lemma vm_ex_tab: "p \<in> paths \<Longrightarrow> tab (pmem vm_ex) 0x80030000 p = (if p = [] then Some 0x80030000 else None)"
  using vm_ex_rd by (cases p) (auto simp: paths_def next_table_def)

lemma vm_ex_pte: "pte_of (pmem vm_ex) 0x80030000 va = 0"
  using vm_ex_tab [OF vpath_path, of va] by (simp add: pte_of_def vpath_def)

lemma vm_ex_inv: "uvm_inv vm_ex 0x80030000 [0x80020000, 0x80021000, 0x80022000] 0"
proof -
  have "[] \<in> paths" by (simp add: paths_def)
  then have "is_table (pmem vm_ex) 0x80030000 t \<longleftrightarrow> t = 0x80030000" for t
    by (auto simp: is_table_def vm_ex_tab split: if_splits)
  moreover have "page_ok vm_ex 0x80030000"
    by (simp add: vm_ex_def page_ok_def page_aligned_def PHYSTOP_num)
  moreover have "pt_tree (pmem vm_ex) 0x80030000"
    by (auto simp: pt_tree_def vm_ex_tab page_aligned_def split: if_splits)
  ultimately show ?thesis
    using vm_ex_free by (auto simp: uvm_inv_def vm_inv_def mapped_def vm_ex_pte)
qed


end
