(* ===== verification/Ucopy.thy ===== *)
theory Ucopy
  imports Uvm
begin

text \<open>
  \<^verbatim>\<open>copyin\<close>, \<^verbatim>\<open>copyout\<close> and \<^verbatim>\<open>copyinstr\<close> of \<^verbatim>\<open>kernel/vm.c\<close> against the flat
  view a user program has of its memory: \<open>ubyte m pt va\<close> is the byte the hardware reads at the
  user address \<open>va\<close>.
\<close>

section \<open>The user's view of memory\<close>

definition uaccess :: "memory \<Rightarrow> addr \<Rightarrow> u64 \<Rightarrow> bool" where
  "uaccess m pt va \<longleftrightarrow> mapped m pt va \<and> pte_of m pt va AND PTE_U \<noteq> 0"

definition uwrite :: "memory \<Rightarrow> addr \<Rightarrow> u64 \<Rightarrow> bool" where
  "uwrite m pt va \<longleftrightarrow> uaccess m pt va \<and> pte_of m pt va AND PTE_W \<noteq> 0"

definition upa :: "memory \<Rightarrow> addr \<Rightarrow> u64 \<Rightarrow> addr" where
  "upa m pt va = frame_of m pt va + (va - PGROUNDDOWN va)"

definition ubyte :: "memory \<Rightarrow> addr \<Rightarrow> u64 \<Rightarrow> byte" where
  "ubyte m pt va = m (upa m pt va)"

section \<open>Addresses within a page\<close>

lemma PGROUNDDOWN_pg: "pg x = pg y \<Longrightarrow> PGROUNDDOWN x = PGROUNDDOWN y"
  using unat_PGROUNDDOWN [of x] unat_PGROUNDDOWN [of y] by (simp add: pg_def word_unat_eq_iff)

lemma PGROUNDDOWN_page: "page_aligned (PGROUNDDOWN va)" "pg (PGROUNDDOWN va) = pg va"
  by (simp_all add: page_aligned_def pg_def unat_PGROUNDDOWN)

lemma unat_offset: "unat (va - PGROUNDDOWN va) = unat va mod 4096"
proof -
  have "PGROUNDDOWN va \<le> va"
    by (simp add: word_le_nat_alt unat_PGROUNDDOWN)
  then show ?thesis
    by (simp add: unat_sub unat_PGROUNDDOWN minus_div_mult_eq_mod)
qed

lemma of_nat_offset: "(of_nat (unat va mod 4096) :: u64) = va - PGROUNDDOWN va"
  by (simp flip: unat_offset)

lemma in_page:
  assumes "i < page_room va"
  shows "unat (va + of_nat i) = unat va + i" and "pg (va + of_nat i) = pg va"
proof -
  have d: "unat va = 4096 * pg va + unat va mod 4096"
    by (simp add: pg_def)
  have i: "unat va mod 4096 + i < 4096"
    using assms page_room_eq [of va] by simp
  have "4096 * pg va + 4096 \<le> 2 ^ 64"
    using page_aligned_end [OF PGROUNDDOWN_page(1), of va] by (simp add: unat_PGROUNDDOWN pg_def mult.commute)
  then show u: "unat (va + of_nat i) = unat va + i"
    using d i by (intro unat_add_no_wrap) linarith
  show "pg (va + of_nat i) = pg va"
    unfolding pg_def [of "va + of_nat i"] u div_page_iff using d i by linarith
qed

lemma room_iff: "unat (x - va) < page_room va \<Longrightarrow> pg x = pg va"
  using in_page(2) [of "unat (x - va)" va] by simp

lemma next_page: "PGROUNDDOWN va + 4096 = va + of_nat (page_room va)"
  by (simp add: page_room_def)

lemma MAXVA_pg: "va < MAXVA \<longleftrightarrow> pg va < 67108864"
  by (simp add: word_less_nat_alt MAXVA_num pg_def div_less_iff_less_mult)

lemma page_cong:
  assumes "pg va' = pg va"
  shows "va' < MAXVA \<longleftrightarrow> va < MAXVA" and "mapped m pt va' \<longleftrightarrow> mapped m pt va"
    and "uaccess m pt va' \<longleftrightarrow> uaccess m pt va" and "uwrite m pt va' \<longleftrightarrow> uwrite m pt va"
    and "va < MAXVA \<Longrightarrow> frame_of m pt va' = frame_of m pt va"
proof -
  show m: "va' < MAXVA \<longleftrightarrow> va < MAXVA" using assms by (simp add: MAXVA_pg)
  have e: "pte_of m pt va' = pte_of m pt va" if "va < MAXVA"
    using pte_of_pg [OF that] assms m that by blast
  then show "mapped m pt va' \<longleftrightarrow> mapped m pt va" "uaccess m pt va' \<longleftrightarrow> uaccess m pt va"
    "uwrite m pt va' \<longleftrightarrow> uwrite m pt va" "va < MAXVA \<Longrightarrow> frame_of m pt va' = frame_of m pt va"
    using m by (cases "va < MAXVA"; simp add: mapped_def uaccess_def uwrite_def frame_of_def)+
qed

lemma upa_in_page:
  assumes "uaccess m pt va" and "i < page_room va"
  shows "upa m pt (va + of_nat i) = frame_of m pt va + (va - PGROUNDDOWN va) + of_nat i"
proof -
  have "frame_of m pt (va + of_nat i) = frame_of m pt va"
    using page_cong(5) [OF in_page(2) [OF assms(2)]] assms(1) by (simp add: uaccess_def mapped_def)
  then show ?thesis
    using PGROUNDDOWN_pg [OF in_page(2) [OF assms(2)]] by (simp add: upa_def algebra_simps)
qed

lemma walkaddr_eq:
  assumes "vm_inv s pt ps"
  shows "walkaddr pt va s = Ok (if uaccess (pmem s) pt va then frame_of (pmem s) pt va else 0)"
proof (cases "va < MAXVA")
  case True
  show ?thesis
  proof (cases "tab (pmem s) pt (vpath va)")
    case None
    then show ?thesis
      using True by (simp add: walkaddr_def walk_noalloc uaccess_def mapped_def pte_of_def flip: not_less)
  next
    case (Some u)
    then have "pte_of (pmem s) pt va = load64 (pmem s) (u + 8 * of_nat (pxi 0 va))"
      by (simp add: pte_of_def rd_def)
    then show ?thesis
      using True Some entry_nonzero [OF assms Some, of 0]
      by (simp add: walkaddr_def walk_noalloc uaccess_def mapped_def frame_of_def Let_def flip: not_less)
  qed
qed (auto simp: walkaddr_def uaccess_def mapped_def)

lemma uaccess_frame:
  assumes "uvm_inv s pt ps lim" and "uaccess (pmem s) pt va"
  shows "pg va < lim" and "frame_ok s pt ps lim va" and "frame_of (pmem s) pt va \<noteq> 0"
proof -
  show lim: "pg va < lim" using uvm_inv_user [OF assms(1)] assms(2) by (simp add: uaccess_def)
  show f: "frame_ok s pt ps lim va"
    using uvm_inv_frame [OF assms(1) _ lim] assms(2) by (simp add: uaccess_def)
  show "frame_of (pmem s) pt va \<noteq> 0"
    using f page_ok_nonzero [of s] assms(1) by (auto simp: frame_ok_def uvm_inv_def vm_inv_def free_pages_def)
qed

section \<open>copyin\<close>

lemma copyin_ok:
  assumes "uvm_inv s pt ps lim"
  shows "copyin pt srcva len s =
    Ok (if \<forall>i<len. uaccess (pmem s) pt (srcva + of_nat i)
        then Some (map (\<lambda>i. ubyte (pmem s) pt (srcva + of_nat i)) [0..<len]) else None)"
proof (induction len arbitrary: srcva rule: less_induct)
  case (less len)
  show ?case
  proof (cases "len = 0 \<or> \<not> uaccess (pmem s) pt srcva")
    case True
    then show ?thesis
      using page_cong(3) [OF PGROUNDDOWN_page(2), of "pmem s" pt srcva]
      by (subst copyin.simps) (auto simp: walkaddr_eq [OF uvm_invD [OF assms]] intro!: exI [of _ "0 :: nat"])
  next
    case False
    define n where "n = min (page_room srcva) len"
    have acc: "uaccess (pmem s) pt srcva" and len: "0 < len" using False by auto
    have n: "n \<le> page_room srcva" "n \<le> len" "0 < n"
      using len page_room_pos [of srcva] by (auto simp: n_def)
    have F: "frame_of (pmem s) pt (PGROUNDDOWN srcva) = frame_of (pmem s) pt srcva"
      using page_cong(5) [OF PGROUNDDOWN_page(2)] acc by (simp add: uaccess_def mapped_def)
    have ih: "copyin pt (PGROUNDDOWN srcva + PGSIZE) (len - n) s =
        Ok (if \<forall>i<len - n. uaccess (pmem s) pt (srcva + of_nat (n + i))
            then Some (map (\<lambda>i. ubyte (pmem s) pt (srcva + of_nat (n + i))) [0..<len - n]) else None)"
      using less [of "len - n" "PGROUNDDOWN srcva + PGSIZE"] n len next_page [of srcva]
      by (cases "n = len") (auto simp: n_def min_def add.assoc)
    have first: "load (pmem s) (frame_of (pmem s) pt srcva + (srcva - PGROUNDDOWN srcva)) n =
        map (\<lambda>i. ubyte (pmem s) pt (srcva + of_nat i)) [0..<n]"
      using n(1) upa_in_page [OF acc] by (auto simp: load_def ubyte_def)
    have all: "(\<forall>i<len. uaccess (pmem s) pt (srcva + of_nat i)) \<longleftrightarrow>
        (\<forall>i<len - n. uaccess (pmem s) pt (srcva + of_nat (n + i)))"
    proof (intro iffI allI impI)
      fix i assume *: "\<forall>i<len. uaccess (pmem s) pt (srcva + of_nat i)" "i < len - n"
      show "uaccess (pmem s) pt (srcva + of_nat (n + i))"
        using *(2) by (intro *(1) [rule_format]) simp
    next
      fix i assume *: "\<forall>i<len - n. uaccess (pmem s) pt (srcva + of_nat (n + i))" "i < len"
      show "uaccess (pmem s) pt (srcva + of_nat i)"
      proof (cases "i < n")
        case True
        then show ?thesis using acc page_cong(3) [OF in_page(2)] n(1) by simp
      next
        case False
        then show ?thesis using *(1) [rule_format, of "i - n"] *(2) by simp
      qed
    qed
    have split: "[0..<len] = [0..<n] @ map (\<lambda>i. n + i) [0..<len - n]"
      using n(2) upt_add_eq_append [of 0 n "len - n"] by (simp add: map_add_upt add.commute)
    have acc0: "uaccess (pmem s) pt (PGROUNDDOWN srcva)"
      using acc page_cong(3) [OF PGROUNDDOWN_page(2)] by simp
    have "copyin pt srcva len s = obind (copyin pt (PGROUNDDOWN srcva + PGSIZE) (len - n) s)
        (\<lambda>rest. Ok (map_option (\<lambda>bs. map (\<lambda>i. ubyte (pmem s) pt (srcva + of_nat i)) [0..<n] @ bs) rest))"
      using len acc0 uaccess_frame(3) [OF assms acc]
      by (subst copyin.simps) (simp add: walkaddr_eq [OF uvm_invD [OF assms]] Let_def F first flip: n_def)
    then show ?thesis
      unfolding ih all split by simp
  qed
qed

section \<open>copyout\<close>

text \<open>Writing within one user page.\<close>

lemma store_user_page:
  assumes inv: "uvm_inv s pt ps lim" and acc: "uaccess (pmem s) pt va" and len: "length bs \<le> page_room va"
    and s': "s' = s\<lparr>pmem := store (pmem s) (frame_of (pmem s) pt va + (va - PGROUNDDOWN va)) bs\<rparr>"
  shows "uvm_inv s' pt ps lim" and "pte_of (pmem s') pt = pte_of (pmem s) pt"
    and "uaccess (pmem s) pt x \<Longrightarrow> ubyte (pmem s') pt x = (if unat (x - va) < length bs then bs ! unat (x - va) else ubyte (pmem s) pt x)"
    and "agree_off (frame_of (pmem s) pt va) (pmem s) (pmem s')"
proof -
  let ?F = "frame_of (pmem s) pt va" and ?o = "va - PGROUNDDOWN va"
  have f: "page_ok s ?F" "\<not> is_table (pmem s) pt ?F" "?F \<notin> set ps" and
    inj: "\<And>x. pg x < lim \<Longrightarrow> mapped (pmem s) pt x \<Longrightarrow> frame_of (pmem s) pt x = ?F \<Longrightarrow> pg x = pg va"
    using uaccess_frame(2) [OF inv acc] by (auto simp: frame_ok_def)
  have al: "page_aligned ?F" by simp
  have "unat ?F + unat ?o < 2 ^ 64"
    using page_aligned_end [OF al] mod_less_divisor [of 4096 "unat va"] unfolding unat_offset by linarith
  then have st: "unat (?F + ?o) = unat ?F + unat va mod 4096"
    using unat_add_no_wrap [of ?F "unat va mod 4096"] by (simp add: unat_offset of_nat_offset)
  show off: "agree_off ?F (pmem s) (pmem s')"
    using len page_room_eq [of va] st by (simp add: s' agree_off_store)
  have tree: "pt_tree (pmem s) pt" using inv by (simp add: uvm_inv_def vm_inv_def)
  show pte: "pte_of (pmem s') pt = pte_of (pmem s) pt"
    using pte_of_agree_off [OF tree off al f(2)] by auto
  have tab: "tab (pmem s') pt q = tab (pmem s) pt q" if "q \<in> paths" for q
    by (rule tab_agree_off [OF tree off al f(2) that])
  then have tables: "is_table (pmem s') pt = is_table (pmem s) pt"
    by (auto simp: is_table_def fun_eq_iff)
  have "free_pages s' ps"
    using free_pages_agree_off [OF _ off al f(3)] inv by (simp add: uvm_inv_def vm_inv_def s')
  moreover have "pt_tree (pmem s') pt" using tree tab by (simp add: pt_tree_def)
  ultimately have "vm_inv s' pt ps"
    using inv tables by (simp add: uvm_inv_def vm_inv_def s')
  then show "uvm_inv s' pt ps lim"
    using tables pte by (intro uvm_inv_step [OF inv]) (auto simp: s')
  assume x: "uaccess (pmem s) pt x"
  have upa: "upa (pmem s') pt x = upa (pmem s) pt x"
    by (simp add: upa_def frame_of_def pte)
  show "ubyte (pmem s') pt x = (if unat (x - va) < length bs then bs ! unat (x - va) else ubyte (pmem s) pt x)"
  proof (cases "pg x = pg va")
    case True
    have d: "upa (pmem s) pt x - (?F + ?o) = x - va"
      using page_cong(5) [OF True, of "pmem s" pt] PGROUNDDOWN_pg [OF True] x acc
      by (simp add: upa_def uaccess_def mapped_def)
    have mem: "pmem s' = store (pmem s) (?F + ?o) bs" by (simp add: s')
    show ?thesis
      unfolding ubyte_def upa unfolding mem store_def d ..
  next
    case False
    have "frame_of (pmem s) pt x \<noteq> ?F"
      using inj [of x] uaccess_frame(1) [OF inv x] x False by (auto simp: uaccess_def)
    moreover have "pg (upa (pmem s) pt x) = pg (frame_of (pmem s) pt x)"
      using pg_offset [of "frame_of (pmem s) pt x" "unat x mod 4096"] of_nat_offset [of x]
      by (simp add: upa_def)
    ultimately have "pg (upa (pmem s) pt x) \<noteq> pg ?F"
      by (simp add: pg_inject)
    moreover have "\<not> unat (x - va) < length bs"
      using room_iff [of x va] len False by auto
    ultimately show ?thesis
      using off upa by (simp add: ubyte_def agree_off_def)
  qed
qed

lemma uaccess_cong:
  "pte_of m' pt = pte_of m pt \<Longrightarrow> uaccess m' pt = uaccess m pt"
  "pte_of m' pt = pte_of m pt \<Longrightarrow> uwrite m' pt = uwrite m pt"
  by (auto simp: uaccess_def uwrite_def mapped_def fun_eq_iff)

text \<open>What a copy of \<open>bs\<close> to \<open>va\<close> may change: the user bytes of the range, and nothing else.\<close>

definition user_update :: "addr \<Rightarrow> u64 \<Rightarrow> byte list \<Rightarrow> 'z kmem_scheme \<Rightarrow> 'z kmem_scheme \<Rightarrow> bool" where
  "user_update pt va bs s s' \<longleftrightarrow> pte_of (pmem s') pt = pte_of (pmem s) pt
     \<and> (\<forall>x. uaccess (pmem s) pt x \<longrightarrow>
          ubyte (pmem s') pt x = (if unat (x - va) < length bs then bs ! unat (x - va) else ubyte (pmem s) pt x))
     \<and> (\<forall>x. (\<forall>v. uwrite (pmem s) pt v \<longrightarrow> pg x \<noteq> pg (frame_of (pmem s) pt v)) \<longrightarrow> pmem s' x = pmem s x)
     \<and> freelist s' = freelist s \<and> kend s' = kend s \<and> kmem.more s' = kmem.more s"

lemma user_update_append:
  assumes "user_update pt va as s t" and "user_update pt (va + of_nat (length as)) bs t u"
    and "length as + length bs < 2 ^ 64"
  shows "user_update pt va (as @ bs) s u"
proof -
  have pte: "pte_of (pmem t) pt = pte_of (pmem s) pt" "pte_of (pmem u) pt = pte_of (pmem s) pt"
    using assms(1,2) by (auto simp: user_update_def)
  note acc = uaccess_cong [OF pte(1)]
  have "ubyte (pmem u) pt x =
      (if unat (x - va) < length (as @ bs) then (as @ bs) ! unat (x - va) else ubyte (pmem s) pt x)"
    if x: "uaccess (pmem s) pt x" for x
  proof -
    define d where "d = x - va"
    have e: "x - (va + of_nat (length as)) = d - of_nat (length as)" by (simp add: d_def)
    have la: "unat (of_nat (length as) :: u64) = length as" using assms(3) by simp
    have sub: "unat (d - of_nat (length as)) = (if length as \<le> unat d then unat d - length as else unat d + 2 ^ 64 - length as)"
      unfolding unat_sub_if' la by simp
    have 1: "ubyte (pmem t) pt x = (if unat d < length as then as ! unat d else ubyte (pmem s) pt x)"
      using assms(1) x by (simp add: user_update_def d_def)
    have 2: "ubyte (pmem u) pt x = (if unat (d - of_nat (length as)) < length bs
        then bs ! unat (d - of_nat (length as)) else ubyte (pmem t) pt x)"
      using assms(2) x acc(1) unfolding e [symmetric] by (simp add: user_update_def)
    show ?thesis
      unfolding d_def [symmetric]
    proof (cases "length as \<le> unat d")
      case True
      then have "unat (d - of_nat (length as)) = unat d - length as" using sub by simp
      then show "ubyte (pmem u) pt x = (if unat d < length (as @ bs) then (as @ bs) ! unat d else ubyte (pmem s) pt x)"
        using True 1 2 by (auto simp: nth_append)
    next
      case False
      then have "\<not> unat (d - of_nat (length as)) < length bs" using sub assms(3) by simp
      then show "ubyte (pmem u) pt x = (if unat d < length (as @ bs) then (as @ bs) ! unat d else ubyte (pmem s) pt x)"
        using False 1 2 by (simp add: nth_append)
    qed
  qed
  moreover have "pmem u x = pmem s x" if "\<forall>v. uwrite (pmem s) pt v \<longrightarrow> pg x \<noteq> pg (frame_of (pmem s) pt v)" for x
    using that assms(1,2) acc(2) pte by (simp add: user_update_def frame_of_def)
  ultimately show ?thesis
    using assms(1,2) pte by (simp add: user_update_def)
qed

text \<open>The same on memories: a copy to user space changes nothing but the memory.\<close>

definition user_mem :: "addr \<Rightarrow> u64 \<Rightarrow> byte list \<Rightarrow> memory \<Rightarrow> memory \<Rightarrow> bool" where
  "user_mem pt va bs m m' \<longleftrightarrow> pte_of m' pt = pte_of m pt
     \<and> (\<forall>x. uaccess m pt x \<longrightarrow> ubyte m' pt x = (if unat (x - va) < length bs then bs ! unat (x - va) else ubyte m pt x))
     \<and> (\<forall>x. (\<forall>v. uwrite m pt v \<longrightarrow> pg x \<noteq> pg (frame_of m pt v)) \<longrightarrow> m' x = m x)"

lemma user_update_iff: "user_update pt va bs s t \<longleftrightarrow> user_mem pt va bs (pmem s) (pmem t) \<and> t = s\<lparr>pmem := pmem t\<rparr>"
proof -
  have "freelist t = freelist s \<and> kend t = kend s \<and> kmem.more t = kmem.more s \<longleftrightarrow> t = s\<lparr>pmem := pmem t\<rparr>"
    by (cases s, cases t) auto
  then show ?thesis by (simp only: user_update_def user_mem_def conj_assoc)
qed

lemma user_mem_append:
  assumes "user_mem pt va as m1 m2" and "user_mem pt (va + of_nat (length as)) bs m2 m3" and "length as + length bs < 2 ^ 64"
  shows "user_mem pt va (as @ bs) m1 m3"
  using user_update_append [of pt va as "\<lparr>pmem = m1, freelist = 0, kend = 0\<rparr>" "\<lparr>pmem = m2, freelist = 0, kend = 0\<rparr>" bs "\<lparr>pmem = m3, freelist = 0, kend = 0\<rparr>"]
    assms by (simp add: user_update_iff)

lemma user_mem_refl: "user_mem pt va [] m m"
  by (simp add: user_mem_def)

lemma user_mem_access:
  assumes "user_mem pt va bs m m'"
  shows "uwrite m' pt = uwrite m pt" "uaccess m' pt = uaccess m pt"
  using assms by (auto simp: user_mem_def intro: uaccess_cong)

lemma user_mem_nth:
  assumes "user_mem pt va bs m m'" "uaccess m pt (va + of_nat j)" "j < length bs" "length bs < 2 ^ 64"
  shows "ubyte m' pt (va + of_nat j) = bs ! j"
proof -
  have "unat (of_nat j :: u64) = j" using assms(3,4) by simp
  then show ?thesis using assms(1-3) by (simp add: user_mem_def)
qed

text \<open>One iteration of \<^verbatim>\<open>copyout\<close>.\<close>

lemma copyout_step:
  assumes inv: "uvm_inv s pt ps lim" and "src \<noteq> []"
  shows "copyout_loop pt dstva src s =
    (if uwrite (pmem s) pt dstva
     then let n = min (page_room dstva) (length src) in
          copyout_loop pt (dstva + of_nat (page_room dstva)) (drop n src)
            (s\<lparr>pmem := store (pmem s) (frame_of (pmem s) pt dstva + (dstva - PGROUNDDOWN dstva)) (take n src)\<rparr>)
     else Ok (-1, s))"
proof -
  let ?v0 = "PGROUNDDOWN dstva"
  note pd = page_cong [OF PGROUNDDOWN_page(2) [of dstva]]
  show ?thesis
  proof (cases "mapped (pmem s) pt ?v0")
    case True
    then obtain u where u: "walk pt ?v0 False s = Ok (u + 8 * of_nat (pxi 0 ?v0), s)" "u + 8 * of_nat (pxi 0 ?v0) \<noteq> 0"
      "load64 (pmem s) (u + 8 * of_nat (pxi 0 ?v0)) = pte_of (pmem s) pt ?v0"
      using mapped_walk [OF uvm_invD [OF inv]] by blast
    have m: "\<not> MAXVA \<le> ?v0" "dstva < MAXVA" using True pd(1) by (auto simp: mapped_def)
    have e: "PTE2PA (pte_of (pmem s) pt ?v0) = frame_of (pmem s) pt dstva"
      using pd(5) [OF m(2)] by (simp add: frame_of_def)
    have "uwrite (pmem s) pt dstva \<longleftrightarrow>
        \<not> (pte_of (pmem s) pt ?v0 AND PTE_V = 0 \<or> pte_of (pmem s) pt ?v0 AND PTE_U = 0 \<or> pte_of (pmem s) pt ?v0 AND PTE_W = 0)"
      using pd(4) m by (auto simp: uwrite_def uaccess_def mapped_def not_le)
    then show ?thesis
      using assms(2) m(1) u next_page [of dstva] e by (subst copyout_loop.simps) (auto simp: Let_def)
  next
    case False
    then have no: "\<not> uwrite (pmem s) pt dstva" using pd(2) by (auto simp: uwrite_def uaccess_def)
    show ?thesis
    proof (cases "MAXVA \<le> ?v0")
      case True
      then show ?thesis using assms(2) no by (subst copyout_loop.simps) simp
    next
      case m: False
      then have w: "walk pt ?v0 False s = Ok (case tab (pmem s) pt (vpath ?v0) of None \<Rightarrow> 0 | Some t \<Rightarrow> t + 8 * of_nat (pxi 0 ?v0), s)"
        by (simp add: walk_noalloc not_le)
      show ?thesis
      proof (cases "tab (pmem s) pt (vpath ?v0)")
        case None
        then show ?thesis using assms(2) no m w by (subst copyout_loop.simps) simp
      next
        case (Some t)
        then have "load64 (pmem s) (t + 8 * of_nat (pxi 0 ?v0)) AND PTE_V = 0"
          using False m by (simp add: mapped_def pte_of_def rd_def)
        then show ?thesis
          using assms(2) no m w Some entry_nonzero [OF uvm_invD [OF inv] Some, of 0]
          by (subst copyout_loop.simps) simp
      qed
    qed
  qed
qed

lemma copyout_ok:
  assumes "uvm_inv s pt ps lim" and "length src < 2 ^ 64"
  shows "\<exists>s' n. copyout pt dstva src s =
      Ok (if \<forall>i<length src. uwrite (pmem s) pt (dstva + of_nat i) then 0 else -1, s')
    \<and> uvm_inv s' pt ps lim \<and> user_update pt dstva (take n src) s s'
    \<and> ((\<forall>i<length src. uwrite (pmem s) pt (dstva + of_nat i)) \<longrightarrow> n = length src)"
  unfolding copyout_def using assms
proof (induction "length src" arbitrary: src s dstva rule: less_induct)
  case less
  show ?case
  proof (cases "src = []")
    case True
    then show ?thesis
      using less.prems by (subst copyout_loop.simps) (auto simp: user_update_def)
  next
    case False
    note step = copyout_step [OF less.prems(1) False, of dstva]
    show ?thesis
    proof (cases "uwrite (pmem s) pt dstva")
      case no: False
      then have "\<not> (\<forall>i<length src. uwrite (pmem s) pt (dstva + of_nat i))"
        using False by (auto intro!: exI [of _ "0 :: nat"])
      then show ?thesis
        using no less.prems(1) unfolding step by (auto simp: user_update_def intro!: exI [of _ "0 :: nat"])
    next
      case True
      define n where "n = min (page_room dstva) (length src)"
      define s1 where "s1 = s\<lparr>pmem := store (pmem s) (frame_of (pmem s) pt dstva + (dstva - PGROUNDDOWN dstva)) (take n src)\<rparr>"
      have n: "n \<le> page_room dstva" "n \<le> length src" "0 < n" "length (take n src) = n"
        using page_room_pos [of dstva] False by (auto simp: n_def)
      have acc: "uaccess (pmem s) pt dstva" using True by (simp add: uwrite_def)
      note st = store_user_page [OF less.prems(1) acc _ s1_def, unfolded n(4), OF n(1)]
      have up: "user_update pt dstva (take n src) s s1"
        using st(2-4) True n by (auto simp: user_update_def s1_def agree_off_def)
      have nx: "dstva + of_nat n = dstva + of_nat (page_room dstva) \<or> drop n src = []"
        by (auto simp: n_def min_def)
      have "length (drop n src) < length src" "length (drop n src) < 2 ^ 64" using n less.prems(2) by auto
      from less.hyps [OF this(1) st(1) this(2), of "dstva + of_nat n"] obtain s' k where ih:
        "copyout_loop pt (dstva + of_nat n) (drop n src) s1 =
           Ok (if \<forall>i<length src - n. uwrite (pmem s) pt (dstva + of_nat n + of_nat i) then 0 else -1, s')"
        "uvm_inv s' pt ps lim" "user_update pt (dstva + of_nat n) (take k (drop n src)) s1 s'"
        "(\<forall>i<length src - n. uwrite (pmem s) pt (dstva + of_nat n + of_nat i)) \<longrightarrow> k = length src - n"
        using uaccess_cong(2) [OF st(2)] by auto
      have all: "(\<forall>i<length src. uwrite (pmem s) pt (dstva + of_nat i)) \<longleftrightarrow>
          (\<forall>i<length src - n. uwrite (pmem s) pt (dstva + of_nat n + of_nat i))" (is "?L = ?R")
      proof
        assume ?L then show ?R using n(2) by (auto simp: add.assoc simp flip: of_nat_add)
      next
        assume R: ?R
        show ?L
        proof (intro allI impI)
          fix i assume i: "i < length src"
          show "uwrite (pmem s) pt (dstva + of_nat i)"
          proof (cases "i < n")
            case True
            then show ?thesis using \<open>uwrite (pmem s) pt dstva\<close> page_cong(4) [OF in_page(2)] n(1) by simp
          next
            case False
            then show ?thesis using R [rule_format, of "i - n"] i by (simp add: add.assoc flip: of_nat_add)
          qed
        qed
      qed
      have "copyout_loop pt (dstva + of_nat (page_room dstva)) (drop n src) s1 = copyout_loop pt (dstva + of_nat n) (drop n src) s1"
        using nx by (auto simp: copyout_loop.simps [of _ _ "[]"])
      then have run: "copyout_loop pt dstva src s = copyout_loop pt (dstva + of_nat n) (drop n src) s1"
        using True unfolding step by (simp add: Let_def s1_def flip: n_def)
      have "user_update pt dstva (take n src @ take k (drop n src)) s s'"
        using user_update_append [OF up _ , of "take k (drop n src)" s'] ih(3) n(4) less.prems(2) by (simp add: n(4))
      moreover have "take n src @ take k (drop n src) = take (n + k) src"
        by (simp add: take_add)
      ultimately show ?thesis
        using ih n(2) unfolding run all by (intro exI [of _ s'] exI [of _ "n + k"]) auto
    qed
  qed
qed

text \<open>A copy of accessible bytes, with its effect on the memory.\<close>

lemma copyout_all:
  assumes "uvm_inv s pt ps lim" "length src < 2 ^ 64" "\<forall>i<length src. uwrite (pmem s) pt (dstva + of_nat i)"
  shows "\<exists>m. copyout pt dstva src s = Ok (0, s\<lparr>pmem := m\<rparr>) \<and> user_mem pt dstva src (pmem s) m \<and> uvm_inv (s\<lparr>pmem := m\<rparr>) pt ps lim"
proof -
  obtain s' where "copyout pt dstva src s = Ok (0, s')" "uvm_inv s' pt ps lim" "user_update pt dstva src s s'"
    using copyout_ok [OF assms(1,2), of dstva] assms(3) by auto
  then show ?thesis by (metis user_update_iff)
qed

lemma uvm_inv_cong:
  assumes "pmem t = pmem s" "freelist t = freelist s" "kend t = kend s"
  shows "uvm_inv t pt ps lim \<longleftrightarrow> uvm_inv s pt ps lim"
  using assms by (simp add: uvm_inv_def vm_inv_def free_pages_def frame_ok_def page_ok_def)

section \<open>An address space with two pages\<close>

text \<open>
  Virtual pages 0 and 1 are mapped to the frames \<open>0x80033000\<close> and \<open>0x80036000\<close>, readable and
  writable by the user; nothing is free.
\<close>

definition uvm_ex :: kmem where
  "uvm_ex = \<lparr>pmem =
     store64 (store64 (store64 (store64 (\<lambda>_. 0)
       0x80030000 (PA2PTE 0x80031000 OR PTE_V)) 0x80031000 (PA2PTE 0x80032000 OR PTE_V))
       0x80032000 (PA2PTE 0x80033000 OR 0x17)) 0x80032008 (PA2PTE 0x80036000 OR 0x17),
     freelist = 0, kend = 0x80010000\<rparr>"

lemma ex_aligned: "page_aligned 0x80030000" "page_aligned 0x80031000" "page_aligned 0x80032000"
  "page_aligned 0x80033000" "page_aligned 0x80036000"
  by (simp_all add: page_aligned_def)

lemma ex_store:
  assumes "page_aligned u" and "j < 512"
  shows "rd (store64 m 0x80032008 v) u j = (if u = 0x80032000 \<and> j = 1 then v else rd m u j)"
    and "rd (store64 m 0x80032000 v) u j = (if u = 0x80032000 \<and> j = 0 then v else rd m u j)"
    and "rd (store64 m 0x80031000 v) u j = (if u = 0x80031000 \<and> j = 0 then v else rd m u j)"
    and "rd (store64 m 0x80030000 v) u j = (if u = 0x80030000 \<and> j = 0 then v else rd m u j)"
  using rd_store64 [OF ex_aligned(3) assms(1) _ assms(2), of 1 m v] rd_store64 [OF ex_aligned(3) assms(1) _ assms(2), of 0 m v]
    rd_store64 [OF ex_aligned(2) assms(1) _ assms(2), of 0 m v] rd_store64 [OF ex_aligned(1) assms(1) _ assms(2), of 0 m v]
  by simp_all

lemma uvm_ex_rd:
  assumes "page_aligned t" and "i < 512"
  shows "rd (pmem uvm_ex) t i =
    (if t = 0x80032000 \<and> i = 1 then PA2PTE 0x80036000 OR 0x17
     else if t = 0x80032000 \<and> i = 0 then PA2PTE 0x80033000 OR 0x17
     else if t = 0x80031000 \<and> i = 0 then PA2PTE 0x80032000 OR PTE_V
     else if t = 0x80030000 \<and> i = 0 then PA2PTE 0x80031000 OR PTE_V else 0)"
proof -
  have "rd (\<lambda>_. 0) u j = 0" for u j by (simp add: rd_def load64_zero)
  then show ?thesis
    using assms by (simp add: uvm_ex_def ex_store ex_aligned)
qed

lemma uvm_ex_next:
  assumes "i < 512"
  shows "next_table (pmem uvm_ex) 0x80030000 i = (if i = 0 then Some 0x80031000 else None)"
    and "next_table (pmem uvm_ex) 0x80031000 i = (if i = 0 then Some 0x80032000 else None)"
  using uvm_ex_rd [OF ex_aligned(1) assms] uvm_ex_rd [OF ex_aligned(2) assms]
    PTE2PA_PA2PTE [OF ex_aligned(2), of 1] PTE2PA_PA2PTE [OF ex_aligned(3), of 1]
    PA2PTE_and [of 1 _ 1]
  by (simp_all add: next_table_def)

lemma uvm_ex_tab:
  "p \<in> paths \<Longrightarrow> tab (pmem uvm_ex) 0x80030000 p =
    (if p = [] then Some 0x80030000 else if p = [0] then Some 0x80031000 else if p = [0, 0] then Some 0x80032000 else None)"
proof -
  assume p: "p \<in> paths"
  then consider "p = []" | i where "p = [i]" "i < 512" | i j where "p = [i, j]" "i < 512" "j < 512"
    by (cases p; cases "tl p") (auto simp: paths_def)
  then show ?thesis
    by cases (auto simp: uvm_ex_next)
qed

lemma uvm_ex_pte:
  assumes "va < MAXVA"
  shows "pte_of (pmem uvm_ex) 0x80030000 va =
    (if pg va = 0 then PA2PTE 0x80033000 OR 0x17 else if pg va = 1 then PA2PTE 0x80036000 OR 0x17 else 0)"
proof -
  have small: "pxi 1 va < 512" "pxi 0 va < 512" by simp_all
  show ?thesis
    unfolding pg_pxi [OF assms] pte_of_def uvm_ex_tab [OF vpath_path] using small
    by (simp add: vpath_def uvm_ex_rd [OF ex_aligned(3)] del: One_nat_def)
qed

lemma uvm_ex_inv: "uvm_inv uvm_ex 0x80030000 [] 2"
proof -
  have tabs: "is_table (pmem uvm_ex) 0x80030000 t \<Longrightarrow> t \<in> {0x80030000, 0x80031000, 0x80032000}" for t
    by (auto simp: is_table_def uvm_ex_tab split: if_splits)
  have tree: "pt_tree (pmem uvm_ex) 0x80030000"
    by (auto simp: pt_tree_def uvm_ex_tab ex_aligned split: if_splits)
  have ok: "page_ok uvm_ex t" if "t \<in> {0x80030000, 0x80031000, 0x80032000, 0x80033000, 0x80036000}" for t
    using that by (auto simp: uvm_ex_def page_ok_def page_aligned_def PHYSTOP_num)
  have "free_pages uvm_ex []"
    by (simp add: uvm_ex_def free_pages_def)
  then have vm: "vm_inv uvm_ex 0x80030000 []"
    using tree tabs ok unfolding vm_inv_def by fastforce
  have m: "mapped (pmem uvm_ex) 0x80030000 va \<Longrightarrow> va < MAXVA \<and> (pg va = 0 \<or> pg va = 1)" for va
    using uvm_ex_pte [of va] by (auto simp: mapped_def split: if_splits)
  have fr: "frame_of (pmem uvm_ex) 0x80030000 va = (if pg va = 0 then 0x80033000 else 0x80036000)"
    if "va < MAXVA" "pg va = 0 \<or> pg va = 1" for va
    using that uvm_ex_pte [of va] PTE2PA_PA2PTE [OF ex_aligned(4), of "0x17"] PTE2PA_PA2PTE [OF ex_aligned(5), of "0x17"]
    by (auto simp: frame_of_def)
  have "frame_ok uvm_ex 0x80030000 [] 2 va" if "mapped (pmem uvm_ex) 0x80030000 va" for va
  proof -
    have "pg va' = pg va" if "mapped (pmem uvm_ex) 0x80030000 va'"
      "frame_of (pmem uvm_ex) 0x80030000 va' = frame_of (pmem uvm_ex) 0x80030000 va" for va'
      using that fr m [OF that(1)] m [OF \<open>mapped (pmem uvm_ex) 0x80030000 va\<close>] by (auto split: if_splits)
    moreover have "frame_of (pmem uvm_ex) 0x80030000 va \<in> {0x80033000, 0x80036000}"
      using fr m [OF that] by simp
    ultimately show ?thesis
      using tabs [of "frame_of (pmem uvm_ex) 0x80030000 va"] ok [of "frame_of (pmem uvm_ex) 0x80030000 va"]
      by (auto simp: frame_ok_def)
  qed
  then show ?thesis
    using vm m by (fastforce simp: uvm_inv_def)
qed

lemma uvm_ex_write: "va < 0x2000 \<Longrightarrow> uwrite (pmem uvm_ex) 0x80030000 va"
proof -
  assume va: "va < 0x2000"
  then have "va < MAXVA" and "pg va = 0 \<or> pg va = 1"
    by (auto simp: MAXVA_num word_less_nat_alt pg_def div_page_iff)
  then show ?thesis
    using uvm_ex_pte [of va] PA2PTE_and [of 1] PA2PTE_and [of 4] PA2PTE_and [of 16]
    by (auto simp: uwrite_def uaccess_def mapped_def)
qed

section \<open>Properties\<close>

text \<open>
  C20. \<^verbatim>\<open>copyin\<close> reads user memory: on every address space that satisfies the invariant it
  returns exactly the \<open>len\<close> bytes the user program has at \<open>srcva\<close>, however the range crosses
  page boundaries, provided every byte of the range is mapped for user access, and fails otherwise.
\<close>

theorem copyin_correct:
  assumes "uvm_inv s pt ps lim"
  shows "copyin pt srcva len s =
    Ok (if \<forall>i<len. uaccess (pmem s) pt (srcva + of_nat i)
        then Some (map (\<lambda>i. ubyte (pmem s) pt (srcva + of_nat i)) [0..<len]) else None)"
  by (rule copyin_ok [OF assms])

lemma uvm_ex_range: "\<forall>i<length [7, 8 :: byte]. uwrite (pmem uvm_ex) 0x80030000 (0xfff + of_nat i)"
  using uvm_ex_write [of "0xfff"] uvm_ex_write [of "0x1000"] by (simp add: All_less_Suc)

theorem copyin_correct_witness:
  "copyin 0x80030000 0xfff 2 uvm_ex =
     Ok (Some [ubyte (pmem uvm_ex) 0x80030000 0xfff, ubyte (pmem uvm_ex) 0x80030000 0x1000])"
proof -
  have "\<forall>i<2. uaccess (pmem uvm_ex) 0x80030000 (0xfff + of_nat i)"
    using uvm_ex_range by (simp add: uwrite_def)
  then show ?thesis
    using copyin_correct [OF uvm_ex_inv, of "0xfff" 2] by (simp add: upt_rec)
qed

text \<open>
  C21. \<^verbatim>\<open>copyout\<close> writes user memory: it returns 0 exactly when every byte of the destination
  range is mapped writable for the user; then the user program sees the bytes \<open>src\<close> at
  \<open>dstva\<close> and every other byte of its memory unchanged. It never changes a mapping, the free list
  or a byte of memory outside the writable pages of that process, whatever the arguments.
\<close>

theorem copyout_correct:
  assumes "uvm_inv s pt ps lim" and "length src < 2 ^ 64"
  shows "\<exists>rc s'. copyout pt dstva src s = Ok (rc, s') \<and> uvm_inv s' pt ps lim
    \<and> rc = (if \<forall>i<length src. uwrite (pmem s) pt (dstva + of_nat i) then 0 else -1)
    \<and> pte_of (pmem s') pt = pte_of (pmem s) pt
    \<and> (rc = 0 \<longrightarrow> (\<forall>i<length src. ubyte (pmem s') pt (dstva + of_nat i) = src ! i))
    \<and> (\<forall>x. uaccess (pmem s) pt x \<and> length src \<le> unat (x - dstva) \<longrightarrow> ubyte (pmem s') pt x = ubyte (pmem s) pt x)
    \<and> (\<forall>x. (\<forall>v. uwrite (pmem s) pt v \<longrightarrow> pg x \<noteq> pg (frame_of (pmem s) pt v)) \<longrightarrow> pmem s' x = pmem s x)
    \<and> freelist s' = freelist s \<and> kmem.more s' = kmem.more s"
proof -
  let ?all = "\<forall>i<length src. uwrite (pmem s) pt (dstva + of_nat i)"
  obtain s' n where r: "copyout pt dstva src s = Ok (if ?all then 0 else -1, s')"
    "uvm_inv s' pt ps lim" "user_update pt dstva (take n src) s s'" "?all \<longrightarrow> n = length src"
    using copyout_ok [OF assms, of dstva] by blast
  have "ubyte (pmem s') pt (dstva + of_nat i) = src ! i" if ?all "i < length src" for i
  proof -
    have "uaccess (pmem s) pt (dstva + of_nat i)" using that by (simp add: uwrite_def)
    moreover have "unat (dstva + of_nat i - dstva) = i" using that(2) assms(2) by simp
    ultimately show ?thesis
      using r(3,4) that by (simp add: user_update_def)
  qed
  moreover have "ubyte (pmem s') pt x = ubyte (pmem s) pt x"
    if "uaccess (pmem s) pt x" "length src \<le> unat (x - dstva)" for x
    using r(3) that by (simp add: user_update_def)
  ultimately show ?thesis
    using r by (auto simp: user_update_def)
qed

theorem copyout_correct_witness:
  "\<exists>s'. copyout 0x80030000 0xfff [7, 8] uvm_ex = Ok (0, s') \<and> ubyte (pmem s') 0x80030000 0xfff = 7
     \<and> ubyte (pmem s') 0x80030000 0x1000 = 8"
proof -
  obtain rc s' where "copyout 0x80030000 0xfff [7, 8] uvm_ex = Ok (rc, s')" "rc = 0"
    "rc = 0 \<longrightarrow> (\<forall>i<length [7, 8 :: byte]. ubyte (pmem s') 0x80030000 (0xfff + of_nat i) = [7, 8] ! i)"
    using copyout_correct [OF uvm_ex_inv, of "[7, 8]" "0xfff"] uvm_ex_range by auto
  then show ?thesis by (simp add: All_less_Suc)
qed

text \<open>
  C2. Round trip: what \<^verbatim>\<open>copyout\<close> stored in user memory, \<^verbatim>\<open>copyin\<close> reads back, for
  any bytes and any address at which \<^verbatim>\<open>copyout\<close> succeeds.
\<close>

theorem copyout_copyin:
  assumes "uvm_inv s pt ps lim" and "length src < 2 ^ 64" and "copyout pt va src s = Ok (0, s')"
  shows "copyin pt va (length src) s' = Ok (Some src)"
proof -
  let ?all = "\<forall>i<length src. uwrite (pmem s) pt (va + of_nat i)"
  obtain t n where r: "copyout pt va src s = Ok (if ?all then 0 else -1, t)"
    "uvm_inv t pt ps lim" "user_update pt va (take n src) s t" "?all \<longrightarrow> n = length src"
    using copyout_ok [OF assms(1,2), of va] by blast
  have t: "t = s'" and all: ?all using r(1) assms(3) by (auto split: if_splits)
  have acc: "uaccess (pmem s') pt = uaccess (pmem s) pt"
    using r(3) t by (intro uaccess_cong) (simp add: user_update_def)
  have "ubyte (pmem s') pt (va + of_nat i) = src ! i" if "i < length src" for i
  proof -
    have "unat (va + of_nat i - va) = i" using that assms(2) by simp
    then show ?thesis using r(3,4) all that t by (simp add: user_update_def uwrite_def)
  qed
  then have "map (\<lambda>i. ubyte (pmem s') pt (va + of_nat i)) [0..<length src] = src"
    by (intro nth_equalityI) auto
  then show ?thesis
    using copyin_ok [OF r(2), of va "length src"] all acc t by (simp add: uwrite_def)
qed

theorem copyout_copyin_witness:
  "\<exists>s'. copyout 0x80030000 0xfff [7, 8] uvm_ex = Ok (0, s') \<and> copyin 0x80030000 0xfff 2 s' = Ok (Some [7, 8])"
proof -
  obtain s' where s': "copyout 0x80030000 0xfff [7, 8] uvm_ex = Ok (0, s')"
    using copyout_ok [OF uvm_ex_inv, of "[7, 8]" "0xfff"] uvm_ex_range by auto
  have "length [7, 8 :: byte] < 2 ^ 64" by simp
  from copyout_copyin [OF uvm_ex_inv this s'] s' show ?thesis by (simp add: numeral_2_eq_2)
qed

section \<open>Mapping and unmapping a range\<close>

lemma range_pg:
  assumes "page_aligned va" and "unat sz = 4096 * Suc n" and "unat va + unat sz \<le> unat MAXVA"
  shows "va \<le> v \<and> unat v < unat va + unat sz \<longleftrightarrow> pg va \<le> pg v \<and> pg v \<le> pg va + n"
proof -
  have "unat va = 4096 * pg va" using assms(1) by (simp add: page_aligned_eq)
  moreover have "4096 * pg v \<le> unat v" "unat v < 4096 * pg v + 4096"
    using div_page_iff [of "unat v" "pg v"] by (simp_all add: pg_def)
  ultimately show ?thesis using assms(2) by (auto simp: word_le_nat_alt)
qed

text \<open>
  C14. \<^verbatim>\<open>mappages\<close> on a page-aligned range with no mapping yet always returns. If it returns 0,
  the page table maps exactly that range to consecutive physical pages with the given permissions and
  is unchanged elsewhere; if it returns -1, the allocator is exhausted. The page-table invariant is
  kept in both cases and mappings outside the range never change.
\<close>

theorem mappages_correct:
  assumes "vm_inv s pt ps" and "va mod PGSIZE = 0" and "sz mod PGSIZE = 0" and "sz \<noteq> 0"
    and fits: "unat va + unat sz \<le> unat MAXVA"
    and un: "\<forall>v. v < MAXVA \<and> va \<le> v \<and> unat v < unat va + unat sz \<longrightarrow> pte_of (pmem s) pt v AND PTE_V = 0"
  shows "\<exists>rc s' ps'. mappages pt va sz pa perm s = Ok (rc, s') \<and> vm_inv s' pt ps' \<and> (rc = 0 \<or> rc = -1 \<and> ps' = [])
    \<and> (\<forall>v. v < MAXVA \<and> \<not> (va \<le> v \<and> unat v < unat va + unat sz) \<longrightarrow> pte_of (pmem s') pt v = pte_of (pmem s) pt v)
    \<and> (rc = 0 \<longrightarrow> (\<forall>v. v < MAXVA \<and> va \<le> v \<and> unat v < unat va + unat sz \<longrightarrow>
         pte_of (pmem s') pt v = (PA2PTE (pa + (PGROUNDDOWN v - va)) OR perm OR PTE_V)))"
proof -
  have al: "page_aligned va" "page_aligned sz"
    using assms(2,3) by (simp_all only: page_aligned_mod)
  have "unat sz \<noteq> 0" using assms(4) by (simp add: unat_eq_zero)
  then obtain n where n: "unat sz = 4096 * Suc n"
    using al(2) by (metis mult_0_right not0_implies_Suc page_aligned_eq)
  have sz: "sz = of_nat (4096 * Suc n)"
    using n by (metis of_nat_unat ucast_id)
  have run: "mappages pt va sz pa perm s = mappages_loop (Suc n) pt va (va + of_nat (4096 * n)) pa perm s"
    using assms(2-4) n by (simp add: mappages_def sz del: mappages_loop.simps)
  have off: "of_nat (4096 * (pg v - pg va)) = PGROUNDDOWN v - va" if "pg va \<le> pg v" for v
  proof -
    have "unat (PGROUNDDOWN v) = unat va + 4096 * (pg v - pg va)"
      using that al(1) by (simp add: unat_PGROUNDDOWN page_aligned_eq flip: pg_def)
    then have "PGROUNDDOWN v = va + of_nat (4096 * (pg v - pg va))"
      by (metis of_nat_add of_nat_unat ucast_id)
    then show ?thesis by simp
  qed
  note pg = range_pg [OF al(1) n fits]
  obtain rc s' ps' where r: "mappages_loop (Suc n) pt va (va + of_nat (4096 * n)) pa perm s = Ok (rc, s')"
    "vm_ext pt s ps s' ps'" "rc = 0 \<or> rc = -1 \<and> ps' = []"
    "\<forall>v. v < MAXVA \<and> \<not> (pg va \<le> pg v \<and> pg v \<le> pg va + n) \<longrightarrow> pte_of (pmem s') pt v = pte_of (pmem s) pt v"
    "rc = 0 \<longrightarrow> (\<forall>v. v < MAXVA \<and> pg va \<le> pg v \<and> pg v \<le> pg va + n \<longrightarrow>
         pte_of (pmem s') pt v = (PA2PTE (pa + of_nat (4096 * (pg v - pg va))) OR perm OR PTE_V))"
    using mappages_loop_ok [OF assms(1) al(1), of n pa perm] fits n un pg by auto
  have "pte_of (pmem s') pt v = (PA2PTE (pa + (PGROUNDDOWN v - va)) OR perm OR PTE_V)"
    if "rc = 0" "v < MAXVA" "pg va \<le> pg v" "pg v \<le> pg va + n" for v
    using r(5) that off [OF that(3)] by simp
  then show ?thesis
    unfolding run pg using r(1,3,4) vm_extD [OF r(2)] by blast
qed

theorem mappages_correct_witness:
  "\<exists>rc s' ps'. mappages 0x80030000 0x1000 0x2000 0x80040000 PTE_R vm_ex = Ok (rc, s') \<and> vm_inv s' 0x80030000 ps'
     \<and> (rc = 0 \<longrightarrow> pte_of (pmem s') 0x80030000 0x2000 = (PA2PTE 0x80041000 OR PTE_R OR PTE_V))"
proof -
  have "PGROUNDDOWN 0x2000 = 0x2000" by (simp add: PGROUNDDOWN_def)
  then show ?thesis
    using mappages_correct [OF uvm_invD [OF vm_ex_inv], of "0x1000" "0x2000" "0x80040000" PTE_R]
    by (fastforce simp: vm_ex_pte MAXVA_num)
qed

text \<open>
  C22. Shrinking a process. \<^verbatim>\<open>uvmdealloc\<close> of mapped pages returns the new size, removes exactly
  the mappings of the pages above it, puts their frames on the free list (so each is freed once) and
  leaves the remaining user pages, their contents and every other mapping alone. The page count it
  passes through a 32-bit \<^verbatim>\<open>int\<close> is never truncated.
\<close>

theorem uvmdealloc_correct:
  assumes "uvm_inv s pt ps (pgup oldsz)" and "oldsz \<le> MAXVA" and "newsz \<le> oldsz"
    and "leaves (pmem s) pt (pgup newsz) (pgup oldsz - pgup newsz)"
  shows "\<exists>s'. uvmdealloc pt oldsz newsz s = Ok (newsz, s')
    \<and> uvm_inv s' pt (rev (frames (pmem s) pt (PGROUNDUP newsz) (pgup oldsz - pgup newsz)) @ ps) (pgup newsz)
    \<and> (\<forall>va. va < MAXVA \<longrightarrow> pte_of (pmem s') pt va =
          (if pgup newsz \<le> pg va \<and> pg va < pgup oldsz then 0 else pte_of (pmem s) pt va))
    \<and> (\<forall>x. (\<forall>f\<in>set (frames (pmem s) pt (PGROUNDUP newsz) (pgup oldsz - pgup newsz)). pg x \<noteq> pg f)
          \<and> (\<forall>t. is_table (pmem s) pt t \<longrightarrow> pg x \<noteq> pg t) \<longrightarrow> pmem s' x = pmem s x)"
proof -
  have mono: "pgup newsz \<le> pgup oldsz"
    using assms(3) unfolding pgup_def by (intro div_le_mono) (simp add: word_le_nat_alt)
  have "unat oldsz \<le> unat MAXVA" using assms(2) by (simp add: word_le_nat_alt)
  from uvmdealloc_ok [OF assms(1) this order.refl mono assms(4)] obtain s' where s':
    "uvmdealloc pt oldsz newsz s = Ok (min oldsz newsz, s')"
    "uvm_inv s' pt (rev (frames (pmem s) pt (PGROUNDUP newsz) (pgup oldsz - pgup newsz)) @ ps) (pgup oldsz)"
    "\<forall>va. va < MAXVA \<longrightarrow> pte_of (pmem s') pt va =
          (if pgup newsz \<le> pg va \<and> pg va < pgup oldsz then 0 else pte_of (pmem s) pt va)"
    "\<forall>x. (\<forall>f\<in>set (frames (pmem s) pt (PGROUNDUP newsz) (pgup oldsz - pgup newsz)). pg x \<noteq> pg f)
          \<and> (\<forall>t. is_table (pmem s) pt t \<longrightarrow> pg x \<noteq> pg t) \<longrightarrow> pmem s' x = pmem s x"
    by blast
  have "uvm_inv s' pt (rev (frames (pmem s) pt (PGROUNDUP newsz) (pgup oldsz - pgup newsz)) @ ps) (pgup newsz)"
    by (rule uvm_inv_shrink [OF s'(2) mono]) (use s'(3) in \<open>auto simp: mapped_def split: if_splits\<close>)
  moreover have "min oldsz newsz = newsz" using assms(3) by (simp add: min_def)
  ultimately show ?thesis using s' by auto
qed

theorem uvmdealloc_correct_witness:
  "\<exists>s'. uvmdealloc 0x80030000 0x2000 0x1000 uvm_ex = Ok (0x1000, s') \<and> uvm_inv s' 0x80030000 [0x80036000] 1"
proof -
  have pte1: "pte_of (pmem uvm_ex) 0x80030000 va = (PA2PTE 0x80036000 OR 0x17)" if "va < MAXVA" "pg va = 1" for va
    using uvm_ex_pte that by simp
  have "leaves (pmem uvm_ex) 0x80030000 1 1"
    using pte1 PA2PTE_and [of 1] flags_small [of "0x17"] by (auto simp: leaves_def mapped_def less_Suc_eq)
  moreover have "frame_of (pmem uvm_ex) 0x80030000 0x1000 = 0x80036000"
    using pte1 [of "0x1000"] PTE2PA_PA2PTE [OF ex_aligned(5), of "0x17"] by (simp add: frame_of_def MAXVA_num pg_def)
  moreover have "pgup 0x2000 = 2" "pgup 0x1000 = 1" "PGROUNDUP 0x1000 = 0x1000"
    by (simp_all add: pgup_def PGROUNDUP_def)
  ultimately show ?thesis
    using uvmdealloc_correct [of uvm_ex "0x80030000" "[]" "0x2000" "0x1000"] uvm_ex_inv by (auto simp: MAXVA_num)
qed

end
