(* ===== verification/Sleeplock.thy ===== *)
theory Sleeplock
  imports Machine
begin

text \<open>
  Sleep locks, \<^verbatim>\<open>kernel/sleeplock.c\<close>. Each operation runs under the inner spinlock
  \<^verbatim>\<open>lk->lk\<close>, so it is one atomic step; \<^verbatim>\<open>acquiresleep\<close> on a held lock sleeps until
  another process releases it, which is the outcome \<open>Blocks\<close> for a single caller. \<open>pid\<close> is the
  identifier of the calling process (\<^verbatim>\<open>myproc()->pid\<close>).
\<close>

record sleeplock =
  slocked :: bool
  slname :: string
  slpid :: int

definition initsleeplock :: "sleeplock \<Rightarrow> string \<Rightarrow> sleeplock" where
  "initsleeplock lk nm = lk\<lparr>slname := nm, slocked := False, slpid := 0\<rparr>"

definition acquiresleep :: "int \<Rightarrow> sleeplock \<Rightarrow> sleeplock outcome" where
  "acquiresleep pid lk = (if slocked lk then Blocks else Ok (lk\<lparr>slocked := True, slpid := pid\<rparr>))"

definition releasesleep :: "sleeplock \<Rightarrow> sleeplock" where
  "releasesleep lk = lk\<lparr>slocked := False, slpid := 0\<rparr>"

definition holdingsleep :: "int \<Rightarrow> sleeplock \<Rightarrow> bool" where
  "holdingsleep pid lk \<longleftrightarrow> slocked lk \<and> slpid lk = pid"

lemma holdingsleep_acquired:
  "acquiresleep pid lk = Ok lk' \<Longrightarrow> holdingsleep q lk' \<longleftrightarrow> q = pid"
  by (auto simp: acquiresleep_def holdingsleep_def split: if_splits)

lemma acquiresleep_held: "holdingsleep q lk \<Longrightarrow> acquiresleep pid lk = Blocks"
  by (simp add: acquiresleep_def holdingsleep_def)

end
