(* ===== verification/Fsdefs.thy ===== *)
theory Fsdefs
  imports Machine
begin

text \<open>
  The on-disk format, \<^verbatim>\<open>kernel/fs.h\<close>: layout constants and macros, and the little-endian
  access to the fields of the structures that live in a disk block. A block is the list of its
  \<open>BSIZE\<close> bytes.
\<close>

type_synonym block = "byte list"

definition ROOTINO :: u32 where [simp]: "ROOTINO = 1"
definition BSIZE :: nat where [simp]: "BSIZE = 1024"
definition FSMAGIC :: u32 where [simp]: "FSMAGIC = 0x10203040"
definition NDIRECT :: nat where [simp]: "NDIRECT = 12"
definition NINDIRECT :: nat where [simp]: "NINDIRECT = BSIZE div 4"
definition MAXFILE :: nat where [simp]: "MAXFILE = NDIRECT + NINDIRECT"
definition DIRSIZ :: nat where [simp]: "DIRSIZ = 14"

record superblock =
  magic :: u32
  sbsize :: u32
  nblocks :: u32
  ninodes :: u32
  nlog :: u32
  logstart :: u32
  inodestart :: u32
  bmapstart :: u32

text \<open>\<^verbatim>\<open>sizeof(struct dinode)\<close> is 64 and \<^verbatim>\<open>sizeof(struct dirent)\<close> is 16.\<close>

definition IPB :: u32 where [simp]: "IPB = 16"
definition BPB :: u32 where [simp]: "BPB = 8192"

definition IBLOCK :: "u32 \<Rightarrow> superblock \<Rightarrow> u32" where
  "IBLOCK i sb = i div IPB + inodestart sb"

definition BBLOCK :: "u32 \<Rightarrow> superblock \<Rightarrow> u32" where
  "BBLOCK b sb = b div BPB + bmapstart sb"

section \<open>Fields of a block\<close>

definition get_bytes :: "block \<Rightarrow> nat \<Rightarrow> nat \<Rightarrow> byte list" where
  "get_bytes d off n = take n (drop off d)"

definition put_bytes :: "block \<Rightarrow> nat \<Rightarrow> byte list \<Rightarrow> block" where
  "put_bytes d off bs = take off d @ bs @ drop (off + length bs) d"

definition get32 :: "block \<Rightarrow> nat \<Rightarrow> u32" where
  "get32 d off = le_word (get_bytes d off 4)"

definition put32 :: "block \<Rightarrow> nat \<Rightarrow> u32 \<Rightarrow> block" where
  "put32 d off v = put_bytes d off (le_bytes 4 v)"

definition get16 :: "block \<Rightarrow> nat \<Rightarrow> u16" where
  "get16 d off = le_word (get_bytes d off 2)"

definition put16 :: "block \<Rightarrow> nat \<Rightarrow> u16 \<Rightarrow> block" where
  "put16 d off v = put_bytes d off (le_bytes 2 v)"

lemma length_put_bytes [simp]: "off + length bs \<le> length d \<Longrightarrow> length (put_bytes d off bs) = length d"
  by (simp add: put_bytes_def)

lemma length_get_bytes [simp]: "off + n \<le> length d \<Longrightarrow> length (get_bytes d off n) = n"
  by (simp add: get_bytes_def)

lemma get_put_same: "off + length bs \<le> length d \<Longrightarrow> get_bytes (put_bytes d off bs) off (length bs) = bs"
  by (simp add: get_bytes_def put_bytes_def)

lemma nth_put_bytes:
  "off + length bs \<le> length d \<Longrightarrow> i < length d \<Longrightarrow>
     put_bytes d off bs ! i = (if off \<le> i \<and> i < off + length bs then bs ! (i - off) else d ! i)"
  by (auto simp: put_bytes_def nth_append min_def)

lemma get_bytes_eqI:
  "off + n \<le> length d \<Longrightarrow> off + n \<le> length d' \<Longrightarrow> (\<And>i. off \<le> i \<Longrightarrow> i < off + n \<Longrightarrow> d ! i = d' ! i) \<Longrightarrow>
     get_bytes d off n = get_bytes d' off n"
  by (rule nth_equalityI) (auto simp: get_bytes_def)

lemma get_put_other:
  assumes "off + length bs \<le> length d" and "off' + n \<le> length d" and "off' + n \<le> off \<or> off + length bs \<le> off'"
  shows "get_bytes (put_bytes d off bs) off' n = get_bytes d off' n"
  using assms by (intro get_bytes_eqI) (auto simp: nth_put_bytes)

lemma length_put32 [simp]: "off + 4 \<le> length d \<Longrightarrow> length (put32 d off v) = length d"
  by (simp add: put32_def)

lemma length_put16 [simp]: "off + 2 \<le> length d \<Longrightarrow> length (put16 d off v) = length d"
  by (simp add: put16_def)

lemma get32_put32: "off + 4 \<le> length d \<Longrightarrow> get32 (put32 d off v) off = v"
  using get_put_same [of off "le_bytes 4 v" d] by (simp add: get32_def put32_def le_word_le_bytes_full)

lemma get16_put16: "off + 2 \<le> length d \<Longrightarrow> get16 (put16 d off v) off = v"
  using get_put_same [of off "le_bytes 2 v" d] by (simp add: get16_def put16_def le_word_le_bytes_full)

lemma get32_put32_other:
  "off + 4 \<le> length d \<Longrightarrow> off' + 4 \<le> length d \<Longrightarrow> off' + 4 \<le> off \<or> off + 4 \<le> off' \<Longrightarrow>
     get32 (put32 d off v) off' = get32 d off'"
  by (simp add: get32_def put32_def get_put_other)

end
