(* ===== verification/Bio.thy ===== *)
theory Bio
  imports Sleeplock Fsdefs Kalloc
begin

text \<open>
  The buffer cache, \<^verbatim>\<open>kernel/bio.c\<close>. Buffers are named by their index in
  \<^verbatim>\<open>bcache.buf\<close>; index \<open>HEAD\<close> is \<^verbatim>\<open>bcache.head\<close>, and the recency list is the doubly
  linked list of the source. \<open>disk\<close> is the block device behind \<^verbatim>\<open>virtio_disk_rw\<close>, with the
  sequence of the writes it has completed in \<open>dwrites\<close>. The cache is shown to be transparent:
  through it the clients see one map from block numbers to contents.
\<close>

section \<open>State\<close>

record buf =
  valid :: bool
  bdev :: u32
  blockno :: u32
  block_lock :: sleeplock
  refcnt :: u32
  bprev :: nat
  bnext :: nat
  bdata :: block

record bstate = kmem +
  bufs :: "nat \<Rightarrow> buf"
  disk :: "u32 \<Rightarrow> block"
  dwrites :: "(u32 \<times> block) list"
  curpid :: int

definition HEAD :: nat where "HEAD = NBUF"

definition upd :: "nat \<Rightarrow> (buf \<Rightarrow> buf) \<Rightarrow> 'z bstate_scheme \<Rightarrow> 'z bstate_scheme" where
  "upd b f s = s\<lparr>bufs := (bufs s)(b := f (bufs s b))\<rparr>"

section \<open>The disk\<close>

text \<open>
  \<^verbatim>\<open>virtio_disk_rw\<close> as its callers see it: it returns when the request has completed. The
  device number is not part of the request.
\<close>

definition virtio_disk_rw :: "nat \<Rightarrow> bool \<Rightarrow> 'z bstate_scheme \<Rightarrow> 'z bstate_scheme" where
  "virtio_disk_rw b wr s =
     (let bn = blockno (bufs s b) in
      if wr then s\<lparr>disk := (disk s)(bn := bdata (bufs s b)), dwrites := dwrites s @ [(bn, bdata (bufs s b))]\<rparr>
      else upd b (\<lambda>x. x\<lparr>bdata := disk s bn\<rparr>) s)"

section \<open>Operations\<close>

text \<open>\<^verbatim>\<open>binit\<close> for the buffers \<open>0, \<dots>, k - 1\<close>.\<close>

primrec binit_loop :: "nat \<Rightarrow> 'z bstate_scheme \<Rightarrow> 'z bstate_scheme" where
  "binit_loop 0 s = s"
| "binit_loop (Suc b) s =
     (let s = binit_loop b s;
          first = bnext (bufs s HEAD);
          s = upd b (\<lambda>x. x\<lparr>bnext := first, bprev := HEAD, block_lock := initsleeplock (block_lock x) ''buffer''\<rparr>) s;
          s = upd first (\<lambda>x. x\<lparr>bprev := b\<rparr>) s
      in upd HEAD (\<lambda>x. x\<lparr>bnext := b\<rparr>) s)"

definition binit :: "'z bstate_scheme \<Rightarrow> 'z bstate_scheme" where
  "binit s = binit_loop NBUF (upd HEAD (\<lambda>x. x\<lparr>bprev := HEAD, bnext := HEAD\<rparr>) s)"

text \<open>
  The two loops of \<^verbatim>\<open>bget\<close>, from the head forward for the block and backward for an unused
  buffer. The list has \<open>NBUF\<close> buffers, so \<open>NBUF\<close> steps reach the head again.
\<close>

primrec bget_find :: "nat \<Rightarrow> nat \<Rightarrow> u32 \<Rightarrow> u32 \<Rightarrow> 'z bstate_scheme \<Rightarrow> nat option" where
  "bget_find 0 b d bn s = None"
| "bget_find (Suc fuel) b d bn s =
     (if b = HEAD then None
      else if bdev (bufs s b) = d \<and> blockno (bufs s b) = bn then Some b
      else bget_find fuel (bnext (bufs s b)) d bn s)"

primrec bget_unused :: "nat \<Rightarrow> nat \<Rightarrow> 'z bstate_scheme \<Rightarrow> nat option" where
  "bget_unused 0 b s = None"
| "bget_unused (Suc fuel) b s =
     (if b = HEAD then None
      else if refcnt (bufs s b) = 0 then Some b
      else bget_unused fuel (bprev (bufs s b)) s)"

definition lock_buf :: "nat \<Rightarrow> 'z bstate_scheme \<Rightarrow> (nat \<times> 'z bstate_scheme) outcome" where
  "lock_buf b s = obind (acquiresleep (curpid s) (block_lock (bufs s b)))
     (\<lambda>lk. Ok (b, upd b (\<lambda>x. x\<lparr>block_lock := lk\<rparr>) s))"

definition bget :: "u32 \<Rightarrow> u32 \<Rightarrow> 'z bstate_scheme \<Rightarrow> (nat \<times> 'z bstate_scheme) outcome" where
  "bget d bn s =
     (case bget_find NBUF (bnext (bufs s HEAD)) d bn s of
        Some b \<Rightarrow> lock_buf b (upd b (\<lambda>x. x\<lparr>refcnt := refcnt x + 1\<rparr>) s)
      | None \<Rightarrow>
          (case bget_unused NBUF (bprev (bufs s HEAD)) s of
             Some b \<Rightarrow> lock_buf b (upd b (\<lambda>x. x\<lparr>bdev := d, blockno := bn, valid := False, refcnt := 1\<rparr>) s)
           | None \<Rightarrow> Panic ''bget: no buffers''))"

definition bread :: "u32 \<Rightarrow> u32 \<Rightarrow> 'z bstate_scheme \<Rightarrow> (nat \<times> 'z bstate_scheme) outcome" where
  "bread d bn s = obind (bget d bn s) (\<lambda>(b, s).
     if \<not> valid (bufs s b)
     then Ok (b, upd b (\<lambda>x. x\<lparr>valid := True\<rparr>) (virtio_disk_rw b False s))
     else Ok (b, s))"

definition bwrite :: "nat \<Rightarrow> 'z bstate_scheme \<Rightarrow> 'z bstate_scheme outcome" where
  "bwrite b s =
     (if \<not> holdingsleep (curpid s) (block_lock (bufs s b)) then Panic ''bwrite''
      else Ok (virtio_disk_rw b True s))"

text \<open>The pointer updates of \<^verbatim>\<open>brelse\<close> that move an unused buffer to the front.\<close>

definition to_front :: "nat \<Rightarrow> 'z bstate_scheme \<Rightarrow> 'z bstate_scheme" where
  "to_front b s =
     (let s = upd (bnext (bufs s b)) (\<lambda>x. x\<lparr>bprev := bprev (bufs s b)\<rparr>) s;
          s = upd (bprev (bufs s b)) (\<lambda>x. x\<lparr>bnext := bnext (bufs s b)\<rparr>) s;
          s = upd b (\<lambda>x. x\<lparr>bnext := bnext (bufs s HEAD)\<rparr>) s;
          s = upd b (\<lambda>x. x\<lparr>bprev := HEAD\<rparr>) s;
          s = upd (bnext (bufs s HEAD)) (\<lambda>x. x\<lparr>bprev := b\<rparr>) s
      in upd HEAD (\<lambda>x. x\<lparr>bnext := b\<rparr>) s)"

definition brelse :: "nat \<Rightarrow> 'z bstate_scheme \<Rightarrow> 'z bstate_scheme outcome" where
  "brelse b s =
     (if \<not> holdingsleep (curpid s) (block_lock (bufs s b)) then Panic ''brelse''
      else let s = upd b (\<lambda>x. x\<lparr>block_lock := releasesleep (block_lock x)\<rparr>) s;
               s = upd b (\<lambda>x. x\<lparr>refcnt := refcnt x - 1\<rparr>) s
           in Ok (if refcnt (bufs s b) = 0 then to_front b s else s))"

definition bpin :: "nat \<Rightarrow> 'z bstate_scheme \<Rightarrow> 'z bstate_scheme" where
  "bpin b s = upd b (\<lambda>x. x\<lparr>refcnt := refcnt x + 1\<rparr>) s"

definition bunpin :: "nat \<Rightarrow> 'z bstate_scheme \<Rightarrow> 'z bstate_scheme" where
  "bunpin b s = upd b (\<lambda>x. x\<lparr>refcnt := refcnt x - 1\<rparr>) s"

section \<open>The recency list\<close>

text \<open>\<open>chain f a xs z\<close>: following \<open>f\<close> from \<open>a\<close> visits \<open>xs\<close> and then reaches \<open>z\<close>.\<close>

primrec chain :: "(nat \<Rightarrow> nat) \<Rightarrow> nat \<Rightarrow> nat list \<Rightarrow> nat \<Rightarrow> bool" where
  "chain f a [] z \<longleftrightarrow> f a = z"
| "chain f a (x # xs) z \<longleftrightarrow> f a = x \<and> chain f x xs z"

definition nx :: "'z bstate_scheme \<Rightarrow> nat \<Rightarrow> nat" where
  "nx s = (\<lambda>b. bnext (bufs s b))"

definition pv :: "'z bstate_scheme \<Rightarrow> nat \<Rightarrow> nat" where
  "pv s = (\<lambda>b. bprev (bufs s b))"

definition lru :: "'z bstate_scheme \<Rightarrow> nat list \<Rightarrow> bool" where
  "lru s xs \<longleftrightarrow> chain (nx s) HEAD xs HEAD \<and> chain (pv s) HEAD (rev xs) HEAD
     \<and> distinct xs \<and> set xs = {0..<NBUF}"

lemma chain_append: "chain f a (xs @ y # ys) z \<longleftrightarrow> chain f a xs y \<and> chain f y ys z"
  by (induction xs arbitrary: a) auto

lemma chain_cong: "(\<And>x. x \<in> set (a # xs) \<Longrightarrow> f x = g x) \<Longrightarrow> chain f a xs z = chain g a xs z"
  by (induction xs arbitrary: a) auto

lemma chain_upd: "x \<notin> set (a # xs) \<Longrightarrow> chain (f(x := v)) a xs z = chain f a xs z"
  by (rule chain_cong) auto

text \<open>Redirecting the last link of a chain.\<close>

lemma chain_last: "distinct (a # xs) \<Longrightarrow> chain f a xs z \<Longrightarrow> chain (f(last (a # xs) := z')) a xs z'"
  by (induction xs arbitrary: a) (auto simp: chain_upd)

lemma chain_last_eq: "chain f a xs z \<Longrightarrow> f (last (a # xs)) = z"
  by (induction xs arbitrary: a) auto

lemma chain_hd: "chain f a xs z \<Longrightarrow> f a = hd (xs @ [z])"
  by (cases xs) auto

lemma chain_join: "chain f a xs (hd (ys @ [z])) \<Longrightarrow> ys = [] \<or> chain f (hd ys) (tl ys) z \<Longrightarrow> chain f a (xs @ ys) z"
  by (cases ys) (auto simp: chain_append)

text \<open>Taking \<open>b\<close> out of a chain.\<close>

lemma chain_remove:
  assumes "distinct (a # us @ b # vs)" and "chain f a (us @ b # vs) z"
  shows "chain (f(last (a # us) := f b)) a (us @ vs) z"
proof -
  have c: "chain f a us b" "chain f b vs z" using assms(2) by (auto simp: chain_append)
  have l: "last (a # us) \<notin> set (b # vs)" using assms(1) last_in_set [of "a # us"] by (auto simp del: last.simps)
  have "f b = hd (vs @ [z])" using chain_hd [OF c(2)] .
  then have "chain (f(last (a # us) := f b)) a us (hd (vs @ [z]))"
    using chain_last [of a us f b "f b"] assms(1) c(1) by simp
  moreover have "vs = [] \<or> chain (f(last (a # us) := f b)) (hd vs) (tl vs) z"
    using c(2) l by (cases vs) (auto simp: chain_upd simp del: last.simps)
  ultimately show ?thesis by (rule chain_join)
qed

lemma chain_restart: "chain f a xs z \<Longrightarrow> g b = f a \<Longrightarrow> (\<And>x. x \<in> set xs \<Longrightarrow> g x = f x) \<Longrightarrow> chain g b xs z"
proof (cases xs)
  case (Cons y ys)
  assume *: "chain f a xs z" "g b = f a" "\<And>x. x \<in> set xs \<Longrightarrow> g x = f x"
  then have "chain g y ys z = chain f y ys z" using Cons by (intro chain_cong) auto
  then show ?thesis using * Cons by simp
qed simp

lemma link_upd:
  "nx (upd b (\<lambda>x. x\<lparr>bnext := v\<rparr>) s) = (nx s)(b := v)" "nx (upd b (\<lambda>x. x\<lparr>bprev := v\<rparr>) s) = nx s"
  "pv (upd b (\<lambda>x. x\<lparr>bnext := v\<rparr>) s) = pv s" "pv (upd b (\<lambda>x. x\<lparr>bprev := v\<rparr>) s) = (pv s)(b := v)"
  by (auto simp: nx_def pv_def upd_def)

lemma link_eq: "bnext (bufs s b) = nx s b" "bprev (bufs s b) = pv s b"
  by (simp_all add: nx_def pv_def)

lemma upd_apply [simp]: "bufs (upd b f s) c = (if c = b then f (bufs s b) else bufs s c)"
  by (simp add: upd_def)

lemma upd_fields [simp]:
  "disk (upd b f s) = disk s" "dwrites (upd b f s) = dwrites s" "curpid (upd b f s) = curpid s"
  "bstate.more (upd b f s) = bstate.more s" "pmem (upd b f s) = pmem s" "freelist (upd b f s) = freelist s" "kend (upd b f s) = kend s"
  by (simp_all add: upd_def)

lemma hd_rev_last: "hd (rev us @ [a]) = last (a # us)"
  by (cases us rule: rev_cases) auto

lemma last_rev_hd: "last (a # rev vs) = hd (vs @ [a])"
  by (cases vs) auto

text \<open>\<open>to_front\<close> moves \<open>b\<close> to the front of the recency list.\<close>

lemma lru_to_front:
  assumes "lru s (us @ b # vs)"
  shows "lru (to_front b s) (b # us @ vs)"
proof -
  define N P where "N = nx s" and "P = pv s"
  have ch: "chain N HEAD (us @ b # vs) HEAD" "chain P HEAD (rev vs @ b # rev us) HEAD"
    and d: "distinct (us @ b # vs)" "set (us @ b # vs) = {0..<NBUF}"
    using assms by (auto simp: lru_def N_def P_def)
  have HEAD: "HEAD \<notin> set (us @ b # vs)" unfolding d(2) by (simp add: HEAD_def)
  then have d1: "distinct (HEAD # us @ b # vs)" "distinct (HEAD # rev vs @ b # rev us)" "b \<noteq> HEAD"
    using d(1) by auto
  have Pb: "P b = last (HEAD # us)" and Nb: "N b = last (HEAD # rev vs)"
    using ch chain_hd [of P b "rev us" HEAD] chain_hd [of N b vs HEAD]
    by (auto simp: chain_append hd_rev_last last_rev_hd simp del: last.simps)
  have neq: "N b \<noteq> b" "P b \<noteq> b"
    using d1 last_in_set [of "HEAD # us"] last_in_set [of "HEAD # rev vs"] unfolding Pb Nb by (auto simp del: last.simps)
  define N1 P1 where "N1 = N(P b := N b)" and "P1 = P(N b := P b)"
  have c1: "chain N1 HEAD (us @ vs) HEAD"
    using chain_remove [OF d1(1) ch(1)] by (simp only: N1_def Pb)
  have c2: "chain P1 HEAD (rev (us @ vs)) HEAD"
    using chain_remove [OF d1(2) ch(2)] by (simp add: P1_def Nb del: last.simps)
  have first: "N1 HEAD = last (HEAD # rev (us @ vs))" "N1 HEAD \<noteq> b"
  proof -
    show f: "N1 HEAD = last (HEAD # rev (us @ vs))"
      unfolding last_rev_hd by (rule chain_hd [OF c1])
    have "last (HEAD # rev (us @ vs)) \<in> set (HEAD # us @ vs)"
      using last_in_set [of "HEAD # rev (us @ vs)"] by (auto simp del: last.simps)
    then show "N1 HEAD \<noteq> b"
      unfolding f using d1 by (auto simp del: last.simps)
  qed
  have nx': "nx (to_front b s) = (N1(b := N1 HEAD))(HEAD := b)"
    using d1(3) neq by (simp add: to_front_def Let_def link_upd link_eq N1_def N_def P_def del: upd_apply)
  have pv': "pv (to_front b s) = (P1(b := HEAD))(N1 HEAD := b)"
    using d1(3) neq by (simp add: to_front_def Let_def link_upd link_eq N1_def P1_def N_def P_def del: upd_apply)
  have "chain ((N1(b := N1 HEAD))(HEAD := b)) b (us @ vs) HEAD"
    by (rule chain_restart [OF c1]) (use d1 in auto)
  then have front: "chain (nx (to_front b s)) HEAD (b # us @ vs) HEAD"
    by (simp add: nx')
  have "chain (pv (to_front b s)) HEAD (rev (us @ vs)) b"
  proof -
    have "chain (P1(N1 HEAD := b)) HEAD (rev (us @ vs)) b"
      unfolding first(1) by (rule chain_last [OF _ c2]) (use d1 in auto)
    moreover have "(P1(b := HEAD))(N1 HEAD := b) = (P1(N1 HEAD := b))(b := HEAD)"
      using first(2) by (auto simp: fun_eq_iff)
    ultimately show ?thesis
      unfolding pv' using d1 by (simp add: chain_upd)
  qed
  moreover have "rev (b # us @ vs) = rev (us @ vs) @ b # []" by simp
  moreover have "pv (to_front b s) b = HEAD" using first(2) by (simp add: pv')
  ultimately have "chain (pv (to_front b s)) HEAD (rev (b # us @ vs)) HEAD"
    by (simp only: chain_append chain.simps)
  then show ?thesis
    using d front by (auto simp: lru_def)
qed

definition core :: "buf \<Rightarrow> bool \<times> u32 \<times> u32 \<times> sleeplock \<times> u32 \<times> block" where
  "core x = (valid x, bdev x, blockno x, block_lock x, refcnt x, bdata x)"

lemma core_link:
  "core (bufs (upd b (\<lambda>x. x\<lparr>bnext := v\<rparr>) s) c) = core (bufs s c)"
  "core (bufs (upd b (\<lambda>x. x\<lparr>bprev := v\<rparr>) s) c) = core (bufs s c)"
  by (simp_all add: core_def)

lemma core_to_front: "core (bufs (to_front b s) c) = core (bufs s c)"
  by (simp add: to_front_def Let_def core_link del: upd_apply)

lemma to_front_other:
  "valid (bufs (to_front b s) c) = valid (bufs s c)" "bdev (bufs (to_front b s) c) = bdev (bufs s c)"
  "blockno (bufs (to_front b s) c) = blockno (bufs s c)" "block_lock (bufs (to_front b s) c) = block_lock (bufs s c)"
  "refcnt (bufs (to_front b s) c) = refcnt (bufs s c)" "bdata (bufs (to_front b s) c) = bdata (bufs s c)"
  using core_to_front [of b s c] by (simp_all add: core_def)

lemma to_front_fields [simp]:
  "disk (to_front b s) = disk s" "dwrites (to_front b s) = dwrites s" "curpid (to_front b s) = curpid s"
  "bstate.more (to_front b s) = bstate.more s" "pmem (to_front b s) = pmem s" "freelist (to_front b s) = freelist s" "kend (to_front b s) = kend s"
  by (simp_all add: to_front_def Let_def del: upd_apply)

text \<open>The two scans of \<^verbatim>\<open>bget\<close> are searches through the list.\<close>

lemma bget_find_eq:
  assumes "chain (nx s) b xs HEAD" and "b \<noteq> HEAD" and "HEAD \<notin> set xs" and "length xs < n"
  shows "bget_find n b d bn s = find (\<lambda>b. bdev (bufs s b) = d \<and> blockno (bufs s b) = bn) (b # xs)"
  using assms
proof (induction xs arbitrary: b n)
  case Nil
  then obtain n' where "n = Suc n'" by (cases n) auto
  then show ?case using Nil by (cases n') (auto simp: nx_def)
next
  case (Cons x xs)
  then obtain n' where "n = Suc n'" by (cases n) auto
  then show ?case using Cons by (auto simp: nx_def)
qed

lemma bget_unused_eq:
  assumes "chain (pv s) b xs HEAD" and "b \<noteq> HEAD" and "HEAD \<notin> set xs" and "length xs < n"
  shows "bget_unused n b s = find (\<lambda>b. refcnt (bufs s b) = 0) (b # xs)"
  using assms
proof (induction xs arbitrary: b n)
  case Nil
  then obtain n' where "n = Suc n'" by (cases n) auto
  then show ?case using Nil by (cases n') (auto simp: pv_def)
next
  case (Cons x xs)
  then obtain n' where "n = Suc n'" by (cases n) auto
  then show ?case using Cons by (auto simp: pv_def)
qed

lemma lru_scans:
  assumes "lru s xs"
  shows "bget_find NBUF (bnext (bufs s HEAD)) d bn s = find (\<lambda>b. bdev (bufs s b) = d \<and> blockno (bufs s b) = bn) xs"
    and "bget_unused NBUF (bprev (bufs s HEAD)) s = find (\<lambda>b. refcnt (bufs s b) = 0) (rev xs)"
proof -
  have len: "length xs = NBUF"
    using assms distinct_card [of xs] by (simp add: lru_def)
  have H: "HEAD \<notin> set xs" using assms by (auto simp: lru_def HEAD_def)
  have ch: "chain (nx s) HEAD xs HEAD" "chain (pv s) HEAD (rev xs) HEAD"
    using assms by (auto simp: lru_def)
  obtain y ys where y: "xs = y # ys" using len by (cases xs) auto
  obtain z zs where z: "rev xs = z # zs" using len by (cases "rev xs") auto
  have zs: "set zs \<subseteq> set xs" "z \<in> set xs" "length zs < NBUF"
    using z len by (metis set_rev set_subset_Cons, metis set_rev list.set_intros(1), metis length_rev length_Cons lessI)
  show "bget_find NBUF (bnext (bufs s HEAD)) d bn s = find (\<lambda>b. bdev (bufs s b) = d \<and> blockno (bufs s b) = bn) xs"
    using bget_find_eq [of s y ys NBUF d bn] ch(1) H y len by (auto simp: nx_def)
  show "bget_unused NBUF (bprev (bufs s HEAD)) s = find (\<lambda>b. refcnt (bufs s b) = 0) (rev xs)"
  proof -
    have h: "z \<noteq> HEAD" "HEAD \<notin> set zs" using H zs(1,2) by auto
    have c: "chain (pv s) z zs HEAD" "bprev (bufs s HEAD) = z" using ch(2) unfolding z by (auto simp: pv_def)
    show ?thesis
      unfolding c(2) z by (rule bget_unused_eq [OF c(1) h zs(3)])
  qed
qed

section \<open>The cache invariant\<close>

text \<open>
  \<open>H\<close> are the buffers the running process holds, \<open>P\<close> the buffers pinned by the log. A
  buffer that is neither held nor pinned, and so may be recycled, agrees with the disk; no block is
  cached twice.
\<close>

definition buf_ok :: "(u32 \<Rightarrow> block) \<Rightarrow> int \<Rightarrow> buf \<Rightarrow> bool \<Rightarrow> bool \<Rightarrow> bool" where
  "buf_ok dsk pid x h p \<longleftrightarrow> length (bdata x) = BSIZE \<and> (slocked (block_lock x) \<longleftrightarrow> h) \<and> (h \<longrightarrow> slpid (block_lock x) = pid)
     \<and> unat (refcnt x) = of_bool h + of_bool p \<and> (h \<or> p \<longrightarrow> valid x) \<and> (valid x \<longrightarrow> bdev x = ROOTDEV)
     \<and> (\<not> h \<and> \<not> p \<and> valid x \<longrightarrow> bdata x = dsk (blockno x))"

definition uniq :: "(nat \<Rightarrow> buf) \<Rightarrow> bool" where
  "uniq bs \<longleftrightarrow> (\<forall>i<NBUF. \<forall>j<NBUF. bdev (bs i) = ROOTDEV \<and> bdev (bs j) = ROOTDEV \<and> blockno (bs i) = blockno (bs j) \<longrightarrow> i = j)"

definition cinv :: "'z bstate_scheme \<Rightarrow> nat set \<Rightarrow> nat set \<Rightarrow> bool" where
  "cinv s H P \<longleftrightarrow> (\<exists>xs. lru s xs) \<and> H \<subseteq> {0..<NBUF} \<and> P \<subseteq> {0..<NBUF} \<and> (\<forall>bn. length (disk s bn) = BSIZE)
     \<and> (\<forall>i<NBUF. buf_ok (disk s) (curpid s) (bufs s i) (i \<in> H) (i \<in> P)) \<and> uniq (bufs s)"

text \<open>The contents of the blocks as the clients of the cache see them.\<close>

definition blk :: "'z bstate_scheme \<Rightarrow> u32 \<Rightarrow> block" where
  "blk s bn = (case find (\<lambda>i. valid (bufs s i) \<and> bdev (bufs s i) = ROOTDEV \<and> blockno (bufs s i) = bn) [0..<NBUF] of
     Some i \<Rightarrow> bdata (bufs s i) | None \<Rightarrow> disk s bn)"

text \<open>Everything but the buffers.\<close>

definition brest :: "'z bstate_scheme \<Rightarrow> (u32 \<Rightarrow> block) \<times> (u32 \<times> block) list \<times> int \<times> memory \<times> addr \<times> addr \<times> 'z" where
  "brest s = (disk s, dwrites s, curpid s, pmem s, freelist s, kend s, bstate.more s)"

lemma brest_upd [simp]: "brest (upd b f s) = brest s" "brest (to_front b s) = brest s"
  by (simp_all add: brest_def)

lemma buf_ok_core: "core x = core y \<Longrightarrow> buf_ok d p x h q = buf_ok d p y h q"
  by (auto simp: core_def buf_ok_def)

lemma uniq_core: "(\<And>i. i < NBUF \<Longrightarrow> core (bs' i) = core (bs i)) \<Longrightarrow> uniq bs \<Longrightarrow> uniq bs'"
  by (auto simp: core_def uniq_def)

lemma find_upt_Some: "find Q [0..<n] = Some i \<Longrightarrow> i < n \<and> Q i"
  by (auto simp: find_Some_iff)

lemma find_upt_unique: "i < n \<Longrightarrow> Q i \<Longrightarrow> (\<And>j. j < n \<Longrightarrow> Q j \<Longrightarrow> j = i) \<Longrightarrow> find Q [0..<n] = Some i"
proof (cases "find Q [0..<n]")
  case None
  moreover assume "i < n" "Q i"
  ultimately show ?thesis by (simp add: find_None_iff)
next
  case (Some k)
  assume u: "\<And>j. j < n \<Longrightarrow> Q j \<Longrightarrow> j = i"
  have "k = i" by (rule u) (use find_upt_Some [OF Some] in auto)
  then show ?thesis using Some by simp
qed

lemma blk_uncached:
  "(\<And>i. i < NBUF \<Longrightarrow> valid (bufs s i) \<Longrightarrow> bdev (bufs s i) = ROOTDEV \<Longrightarrow> blockno (bufs s i) \<noteq> bn) \<Longrightarrow> blk s bn = disk s bn"
  unfolding blk_def by (auto split: option.split dest!: find_upt_Some)

lemma blk_cached:
  assumes "uniq (bufs s)" and "i < NBUF" and "valid (bufs s i)" and "bdev (bufs s i) = ROOTDEV"
  shows "blk s (blockno (bufs s i)) = bdata (bufs s i)"
proof -
  have "find (\<lambda>j. valid (bufs s j) \<and> bdev (bufs s j) = ROOTDEV \<and> blockno (bufs s j) = blockno (bufs s i)) [0..<NBUF] = Some i"
    using assms by (intro find_upt_unique) (auto simp: uniq_def)
  then show ?thesis by (simp add: blk_def)
qed

lemma blk_cong:
  assumes "\<And>i. i < NBUF \<Longrightarrow> valid (bufs s' i) = valid (bufs s i) \<and> bdev (bufs s' i) = bdev (bufs s i)
      \<and> blockno (bufs s' i) = blockno (bufs s i) \<and> bdata (bufs s' i) = bdata (bufs s i)"
    and "disk s' = disk s"
  shows "blk s' = blk s"
proof
  fix bn
  have "find (\<lambda>i. valid (bufs s' i) \<and> bdev (bufs s' i) = ROOTDEV \<and> blockno (bufs s' i) = bn) [0..<NBUF]
      = find (\<lambda>i. valid (bufs s i) \<and> bdev (bufs s i) = ROOTDEV \<and> blockno (bufs s i) = bn) [0..<NBUF]"
    using assms(1) by (intro find_cong) auto
  then show "blk s' bn = blk s bn"
    using assms by (auto simp: blk_def split: option.split dest!: find_upt_Some)
qed

lemma cinvD:
  assumes "cinv s H P"
  shows "\<And>i. i < NBUF \<Longrightarrow> buf_ok (disk s) (curpid s) (bufs s i) (i \<in> H) (i \<in> P)" and "uniq (bufs s)"
    and "H \<subseteq> {0..<NBUF}" and "P \<subseteq> {0..<NBUF}" and "\<exists>xs. lru s xs" and "\<And>bn. length (disk s bn) = BSIZE"
  using assms by (auto simp: cinv_def)

lemma cinv_held:
  assumes "cinv s H P" and "b \<in> H \<union> P"
  shows "b < NBUF" and "valid (bufs s b)" and "bdev (bufs s b) = ROOTDEV" and "length (bdata (bufs s b)) = BSIZE"
    and "blk s (blockno (bufs s b)) = bdata (bufs s b)"
proof -
  show b: "b < NBUF" using assms cinvD(3,4) [OF assms(1)] by auto
  show v: "valid (bufs s b)" "bdev (bufs s b) = ROOTDEV" "length (bdata (bufs s b)) = BSIZE"
    using cinvD(1) [OF assms(1) b] assms(2) by (auto simp: buf_ok_def)
  show "blk s (blockno (bufs s b)) = bdata (bufs s b)"
    by (rule blk_cached [OF cinvD(2) [OF assms(1)] b v(1,2)])
qed

lemma cinv_holding: "cinv s H P \<Longrightarrow> b \<in> H \<Longrightarrow> holdingsleep (curpid s) (block_lock (bufs s b))"
  using cinvD(1) [of s H P b] cinvD(3) [of s H P] by (auto simp: holdingsleep_def buf_ok_def)

lemma cinv_inj: "cinv s H P \<Longrightarrow> a \<in> H \<union> P \<Longrightarrow> b \<in> H \<union> P \<Longrightarrow> blockno (bufs s a) = blockno (bufs s b) \<Longrightarrow> a = b"
  using cinvD(2) [of s H P] cinv_held(1,3) [of s H P a] cinv_held(1,3) [of s H P b] unfolding uniq_def by blast

lemma length_blk: "cinv s H P \<Longrightarrow> length (blk s bn) = BSIZE"
  using cinvD(1) [of s H P] cinvD(6) [of s H P] unfolding blk_def
  by (auto split: option.split dest!: find_upt_Some simp: buf_ok_def)

text \<open>The recency list depends on the links only.\<close>

lemma lru_links: "nx s' = nx s \<Longrightarrow> pv s' = pv s \<Longrightarrow> lru s' xs = lru s xs"
  by (simp add: lru_def)

lemma links_upd:
  "(\<And>x. bnext (f x) = bnext x \<and> bprev (f x) = bprev x) \<Longrightarrow> nx (upd b f s) = nx s \<and> pv (upd b f s) = pv s"
  by (auto simp: nx_def pv_def fun_eq_iff)

text \<open>Changing one buffer.\<close>

lemma cinv_upd:
  assumes inv: "cinv s H P" and "b < NBUF"
    and links: "\<And>x. bnext (f x) = bnext x \<and> bprev (f x) = bprev x"
    and H': "H' = (if h then insert b H else H - {b})" and P': "P' = (if p then insert b P else P - {b})"
    and ok: "buf_ok (disk s) (curpid s) (f (bufs s b)) h p"
    and un: "bdev (f (bufs s b)) = ROOTDEV \<Longrightarrow>
       (\<And>j. j < NBUF \<Longrightarrow> j \<noteq> b \<Longrightarrow> bdev (bufs s j) = ROOTDEV \<Longrightarrow> blockno (bufs s j) \<noteq> blockno (f (bufs s b)))"
  shows "cinv (upd b f s) H' P'"
proof -
  have "\<exists>xs. lru (upd b f s) xs"
    using cinvD(5) [OF inv] links_upd [OF links, where s = s and b = b] lru_links by metis
  moreover have "buf_ok (disk s) (curpid s) (bufs (upd b f s) i) (i \<in> H') (i \<in> P')" if "i < NBUF" for i
    using cinvD(1) [OF inv that] ok H' P' by auto
  moreover have "uniq (bufs (upd b f s))"
    unfolding uniq_def
  proof (intro allI impI, elim conjE)
    fix i j assume ij: "i < NBUF" "j < NBUF" "bdev (bufs (upd b f s) i) = ROOTDEV" "bdev (bufs (upd b f s) j) = ROOTDEV"
      "blockno (bufs (upd b f s) i) = blockno (bufs (upd b f s) j)"
    show "i = j"
    proof (cases "i = b \<or> j = b")
      case True
      then show ?thesis using ij un [of i] un [of j] by (auto split: if_splits)
    next
      case False
      then have "blockno (bufs s i) = blockno (bufs s j)" "bdev (bufs s i) = ROOTDEV" "bdev (bufs s j) = ROOTDEV"
        using ij by auto
      then show ?thesis using cinvD(2) [OF inv] ij(1,2) unfolding uniq_def by blast
    qed
  qed
  ultimately show ?thesis
    using inv assms(2) H' P' by (auto simp: cinv_def)
qed

section \<open>The contract of the operations\<close>

text \<open>What an operation on buffer \<open>b\<close> leaves alone.\<close>

definition others :: "nat \<Rightarrow> 'z bstate_scheme \<Rightarrow> 'z bstate_scheme \<Rightarrow> bool" where
  "others b s s' \<longleftrightarrow> (\<forall>i. i \<noteq> b \<longrightarrow> core (bufs s' i) = core (bufs s i))"

lemma setdata_ok:
  assumes inv: "cinv s H P" and b: "b \<in> H" and d: "length d = BSIZE"
    and s': "s' = upd b (\<lambda>x. x\<lparr>bdata := d\<rparr>) s"
  shows "cinv s' H P" and "blk s' = (blk s)(blockno (bufs s b) := d)" and "brest s' = brest s" and "others b s s'"
    and "blockno (bufs s' b) = blockno (bufs s b)" and "bdata (bufs s' b) = d"
proof -
  have bn: "b < NBUF" "valid (bufs s b)" "bdev (bufs s b) = ROOTDEV" using cinv_held [OF inv, of b] b by auto
  have ok: "buf_ok (disk s) (curpid s) (bufs s b) True (b \<in> P)" using cinvD(1) [OF inv bn(1)] b by simp
  show inv': "cinv s' H P"
    unfolding s'
  proof (rule cinv_upd [OF inv bn(1), where h = True and p = "b \<in> P"])
    show "buf_ok (disk s) (curpid s) ((bufs s b)\<lparr>bdata := d\<rparr>) True (b \<in> P)"
      using ok d by (simp add: buf_ok_def)
    show "blockno (bufs s j) \<noteq> blockno ((bufs s b)\<lparr>bdata := d\<rparr>)"
      if "j < NBUF" "j \<noteq> b" "bdev (bufs s j) = ROOTDEV" for j
      using that cinvD(2) [OF inv] bn by (auto simp: uniq_def)
  qed (use b in auto)
  show "brest s' = brest s" "others b s s'" "blockno (bufs s' b) = blockno (bufs s b)" "bdata (bufs s' b) = d"
    by (simp_all add: s' others_def)
  show "blk s' = (blk s)(blockno (bufs s b) := d)"
  proof
    fix n
    show "blk s' n = ((blk s)(blockno (bufs s b) := d)) n"
    proof (cases "n = blockno (bufs s b)")
      case True
      then show ?thesis
        using blk_cached [OF cinvD(2) [OF inv'] bn(1)] bn by (simp add: s')
    next
      case False
      have "find (\<lambda>i. valid (bufs s' i) \<and> bdev (bufs s' i) = ROOTDEV \<and> blockno (bufs s' i) = n) [0..<NBUF]
          = find (\<lambda>i. valid (bufs s i) \<and> bdev (bufs s i) = ROOTDEV \<and> blockno (bufs s i) = n) [0..<NBUF]"
        by (intro find_cong) (auto simp: s')
      then show ?thesis
        using False by (auto simp: blk_def s' split: option.split dest!: find_upt_Some)
    qed
  qed
qed

lemma bwrite_ok:
  assumes inv: "cinv s H P" and b: "b \<in> H"
    and s': "s' = s\<lparr>disk := (disk s)(blockno (bufs s b) := bdata (bufs s b)), dwrites := dwrites s @ [(blockno (bufs s b), bdata (bufs s b))]\<rparr>"
  shows "bwrite b s = Ok s'" and "cinv s' H P" and "blk s' = blk s"
proof -
  note h = cinv_held [OF inv, of b]
  have bn: "b < NBUF" "valid (bufs s b)" "bdev (bufs s b) = ROOTDEV" "length (bdata (bufs s b)) = BSIZE"
    using h b by auto
  show "bwrite b s = Ok s'"
    using cinv_holding [OF inv b] by (simp add: bwrite_def virtio_disk_rw_def Let_def s')
  have un: "i = b" if "i < NBUF" "valid (bufs s i)" "bdev (bufs s i) = ROOTDEV" "blockno (bufs s i) = blockno (bufs s b)" for i
    using cinvD(2) [OF inv] that bn unfolding uniq_def by blast
  have "buf_ok (disk s') (curpid s) (bufs s i) (i \<in> H) (i \<in> P)" if "i < NBUF" for i
    using cinvD(1) [OF inv that] un [OF that] b by (auto simp: buf_ok_def s')
  moreover have "\<exists>xs. lru s' xs"
    using cinvD(5) [OF inv] lru_links [of s' s] by (auto simp: s' nx_def pv_def)
  ultimately show "cinv s' H P"
    using inv bn(4) by (auto simp: cinv_def s')
  show "blk s' = blk s"
  proof
    fix n
    show "blk s' n = blk s n"
    proof (cases "n = blockno (bufs s b)")
      case True
      then show ?thesis
        using blk_cached [of s' b] blk_cached [of s b] cinvD(2) [OF inv] bn by (simp add: s')
    qed (simp add: blk_def s' split: option.split)
  qed
qed

lemma refcnt_upd_ok:
  assumes inv: "cinv s H P" and b: "b < NBUF" and h: "b \<in> H"
    and ok: "unat r = Suc (of_bool p)" and P': "P' = (if p then insert b P else P - {b})"
    and s': "s' = upd b (\<lambda>x. x\<lparr>refcnt := r\<rparr>) s"
  shows "cinv s' H P'" and "blk s' = blk s" and "brest s' = brest s" and "others b s s'"
    and "blockno (bufs s' b) = blockno (bufs s b)" and "bdata (bufs s' b) = bdata (bufs s b)"
proof -
  have okb: "buf_ok (disk s) (curpid s) (bufs s b) True (b \<in> P)" using cinvD(1) [OF inv b] h by simp
  show "cinv s' H P'"
    unfolding s'
  proof (rule cinv_upd [OF inv b, where h = True and p = p])
    show "buf_ok (disk s) (curpid s) ((bufs s b)\<lparr>refcnt := r\<rparr>) True p"
      using okb ok by (auto simp: buf_ok_def)
    show "blockno (bufs s j) \<noteq> blockno ((bufs s b)\<lparr>refcnt := r\<rparr>)"
      if "j < NBUF" "j \<noteq> b" "bdev (bufs s j) = ROOTDEV" for j
      using that cinvD(2) [OF inv] b cinv_held(3) [OF inv, of b] h by (auto simp: uniq_def)
  qed (use h P' in auto)
  show "blk s' = blk s" by (rule blk_cong) (auto simp: s')
  show "brest s' = brest s" "others b s s'" "blockno (bufs s' b) = blockno (bufs s b)" "bdata (bufs s' b) = bdata (bufs s b)"
    by (simp_all add: s' others_def)
qed

lemma unat_inc_dec:
  "unat (r :: u32) = Suc 0 \<Longrightarrow> unat (r + 1) = 2" "unat (r :: u32) = 2 \<Longrightarrow> unat (r - 1) = 1"
  "unat (r :: u32) = Suc 0 \<Longrightarrow> r - 1 = 0"
proof -
  have "unat (r :: u32) = Suc 0 \<Longrightarrow> r = 1" "unat (r :: u32) = 2 \<Longrightarrow> r = 2"
    by (simp_all add: word_unat_eq_iff)
  then show "unat (r :: u32) = Suc 0 \<Longrightarrow> unat (r + 1) = 2" "unat (r :: u32) = 2 \<Longrightarrow> unat (r - 1) = 1"
    "unat (r :: u32) = Suc 0 \<Longrightarrow> r - 1 = 0"
    by auto
qed

lemma bpin_ok:
  assumes inv: "cinv s H P" and b: "b \<in> H" "b \<notin> P"
  shows "cinv (bpin b s) H (insert b P)" and "blk (bpin b s) = blk s" and "brest (bpin b s) = brest s" and "others b s (bpin b s)"
    and "blockno (bufs (bpin b s) b) = blockno (bufs s b)" and "bdata (bufs (bpin b s) b) = bdata (bufs s b)"
proof -
  have n: "b < NBUF" using cinvD(3) [OF inv] b by auto
  have "unat (refcnt (bufs s b)) = Suc 0" using cinvD(1) [OF inv n] b by (simp add: buf_ok_def)
  then have r: "unat (refcnt (bufs s b) + 1) = Suc (of_bool True)" by (simp add: unat_inc_dec)
  have e: "bpin b s = upd b (\<lambda>x. x\<lparr>refcnt := refcnt (bufs s b) + 1\<rparr>) s" by (simp add: bpin_def upd_def)
  note q = refcnt_upd_ok [OF inv n b(1) r refl e]
  show "cinv (bpin b s) H (insert b P)" using q(1) by simp
  show "blk (bpin b s) = blk s" "brest (bpin b s) = brest s" "others b s (bpin b s)"
    "blockno (bufs (bpin b s) b) = blockno (bufs s b)" "bdata (bufs (bpin b s) b) = bdata (bufs s b)"
    by (rule q)+
qed

lemma bunpin_ok:
  assumes inv: "cinv s H P" and b: "b \<in> H" "b \<in> P"
  shows "cinv (bunpin b s) H (P - {b})" and "blk (bunpin b s) = blk s" and "brest (bunpin b s) = brest s" and "others b s (bunpin b s)"
    and "blockno (bufs (bunpin b s) b) = blockno (bufs s b)" and "bdata (bufs (bunpin b s) b) = bdata (bufs s b)"
proof -
  have n: "b < NBUF" using cinvD(3) [OF inv] b by auto
  have "unat (refcnt (bufs s b)) = 2" using cinvD(1) [OF inv n] b by (simp add: buf_ok_def)
  then have r: "unat (refcnt (bufs s b) - 1) = Suc (of_bool False)" by (simp add: unat_inc_dec)
  have e: "bunpin b s = upd b (\<lambda>x. x\<lparr>refcnt := refcnt (bufs s b) - 1\<rparr>) s" by (simp add: bunpin_def upd_def)
  note q = refcnt_upd_ok [OF inv n b(1) r refl e]
  show "cinv (bunpin b s) H (P - {b})" using q(1) by simp
  show "blk (bunpin b s) = blk s" "brest (bunpin b s) = brest s" "others b s (bunpin b s)"
    "blockno (bufs (bunpin b s) b) = blockno (bufs s b)" "bdata (bufs (bunpin b s) b) = bdata (bufs s b)"
    by (rule q)+
qed

text \<open>
  \<^verbatim>\<open>brelse\<close> gives up a held buffer that is pinned or clean.
\<close>

lemma brelse_ok:
  assumes inv: "cinv s H P" and b: "b \<in> H" and clean: "b \<in> P \<or> bdata (bufs s b) = disk s (blockno (bufs s b))"
  obtains s' where "brelse b s = Ok s'" and "cinv s' (H - {b}) P" and "blk s' = blk s" and "brest s' = brest s"
    and "others b s s'" and "blockno (bufs s' b) = blockno (bufs s b)" and "bdata (bufs s' b) = bdata (bufs s b)"
proof -
  have n: "b < NBUF" using cinvD(3) [OF inv] b by auto
  have ok: "buf_ok (disk s) (curpid s) (bufs s b) True (b \<in> P)" using cinvD(1) [OF inv n] b by simp
  define f :: "buf \<Rightarrow> buf" where "f = (\<lambda>x. x\<lparr>block_lock := releasesleep (block_lock x), refcnt := refcnt x - 1\<rparr>)"
  define s1 where "s1 = upd b f s"
  have e: "upd b (\<lambda>x. x\<lparr>refcnt := refcnt x - 1\<rparr>) (upd b (\<lambda>x. x\<lparr>block_lock := releasesleep (block_lock x)\<rparr>) s) = s1"
    by (simp add: s1_def f_def upd_def)
  have fu: "unat (refcnt (f (bufs s b))) = of_bool (b \<in> P)"
    using ok unat_inc_dec [of "refcnt (bufs s b)"] by (auto simp: f_def buf_ok_def)
  have inv1: "cinv s1 (H - {b}) P"
    unfolding s1_def
  proof (rule cinv_upd [OF inv n, where h = False and p = "b \<in> P"])
    show "buf_ok (disk s) (curpid s) (f (bufs s b)) False (b \<in> P)"
      using ok fu clean by (auto simp: buf_ok_def f_def releasesleep_def)
    show "blockno (bufs s j) \<noteq> blockno (f (bufs s b))" if "j < NBUF" "j \<noteq> b" "bdev (bufs s j) = ROOTDEV" for j
      using that cinvD(2) [OF inv] n cinv_held(3) [OF inv, of b] b by (auto simp: uniq_def f_def)
  qed (auto simp: f_def)
  have blk1: "blk s1 = blk s" by (rule blk_cong) (auto simp: s1_def f_def)
  define s2 where "s2 = (if refcnt (bufs s1 b) = 0 then to_front b s1 else s1)"
  have core2: "core (bufs s2 c) = core (bufs s1 c)" for c by (simp add: s2_def core_to_front)
  obtain xs where xs: "lru s1 xs" using cinvD(5) [OF inv1] by blast
  then have "b \<in> set xs" using n by (simp add: lru_def)
  then obtain us vs where "xs = us @ b # vs" by (auto simp: in_set_conv_decomp)
  then have lru2: "\<exists>xs. lru s2 xs"
    using xs lru_to_front [of s1 us b vs] by (auto simp: s2_def)
  have rest2: "brest s2 = brest s" by (simp add: s2_def s1_def)
  then have "disk s2 = disk s1" "curpid s2 = curpid s1" by (simp_all add: brest_def s1_def)
  then have "cinv s2 (H - {b}) P"
    using inv1 lru2 buf_ok_core [OF core2] uniq_core [OF core2] by (simp add: cinv_def)
  moreover have "blk s2 = blk s"
    unfolding blk1 [symmetric]
  proof (rule blk_cong)
    fix i
    show "valid (bufs s2 i) = valid (bufs s1 i) \<and> bdev (bufs s2 i) = bdev (bufs s1 i)
      \<and> blockno (bufs s2 i) = blockno (bufs s1 i) \<and> bdata (bufs s2 i) = bdata (bufs s1 i)"
      using core2 [of i] by (simp add: core_def)
  qed fact
  moreover have "brelse b s = Ok s2"
    unfolding brelse_def Let_def e s2_def using cinv_holding [OF inv b] by simp
  moreover have "others b s s2"
    by (simp add: others_def core2) (simp add: s1_def)
  moreover have "blockno (bufs s2 b) = blockno (bufs s b)" "bdata (bufs s2 b) = bdata (bufs s b)"
    using core2 [of b] by (auto simp: core_def s1_def f_def)
  ultimately show ?thesis using that rest2 by blast
qed

text \<open>\<^verbatim>\<open>bget\<close> and \<^verbatim>\<open>bread\<close> of a block that the process does not hold already.\<close>

lemma find_list_Some: "find Q xs = Some x \<Longrightarrow> x \<in> set xs \<and> Q x"
  by (auto simp: find_Some_iff)

lemma find_rev_exists: "x \<in> set xs \<Longrightarrow> Q x \<Longrightarrow> find Q (rev xs) \<noteq> None"
  by (auto simp: find_None_iff)

lemma bget_ok:
  assumes inv: "cinv s H P" and H: "\<And>i. i \<in> H \<Longrightarrow> blockno (bufs s i) \<noteq> bn"
    and room: "card (H \<union> P) < NBUF \<or> (\<exists>i<NBUF. bdev (bufs s i) = ROOTDEV \<and> blockno (bufs s i) = bn)"
  obtains b f where "bget ROOTDEV bn s = Ok (b, upd b f s)" and "b < NBUF" and "b \<notin> H"
    and "\<And>x. bnext (f x) = bnext x \<and> bprev (f x) = bprev x"
    and "blockno (f (bufs s b)) = bn" and "bdev (f (bufs s b)) = ROOTDEV"
    and "slocked (block_lock (f (bufs s b)))" and "slpid (block_lock (f (bufs s b))) = curpid s"
    and "unat (refcnt (f (bufs s b))) = Suc (of_bool (b \<in> P))"
    and "length (bdata (f (bufs s b))) = BSIZE"
    and "\<And>j. j < NBUF \<Longrightarrow> j \<noteq> b \<Longrightarrow> bdev (bufs s j) = ROOTDEV \<Longrightarrow> blockno (bufs s j) \<noteq> bn"
    and "bdev (bufs s b) = ROOTDEV \<and> blockno (bufs s b) = bn \<and> valid (f (bufs s b)) = valid (bufs s b) \<and> bdata (f (bufs s b)) = bdata (bufs s b)
      \<or> b \<notin> P \<and> \<not> valid (f (bufs s b)) \<and> \<not> (bdev (bufs s b) = ROOTDEV \<and> blockno (bufs s b) = bn)"
proof -
  obtain xs where xs: "lru s xs" using cinvD(5) [OF inv] by blast
  have set: "set xs = {0..<NBUF}" using xs by (simp add: lru_def)
  show ?thesis
  proof (cases "find (\<lambda>b. bdev (bufs s b) = ROOTDEV \<and> blockno (bufs s b) = bn) xs")
    case (Some b)
    then have b: "b < NBUF" "bdev (bufs s b) = ROOTDEV" "blockno (bufs s b) = bn"
      using find_list_Some [OF Some] set by auto
    have nH: "b \<notin> H" using H b(3) by blast
    have ok: "buf_ok (disk s) (curpid s) (bufs s b) False (b \<in> P)" using cinvD(1) [OF inv b(1)] nH by simp
    define f :: "buf \<Rightarrow> buf" where "f = (\<lambda>x. x\<lparr>refcnt := refcnt x + 1, block_lock := (block_lock x)\<lparr>slocked := True, slpid := curpid s\<rparr>\<rparr>)"
    have "bget ROOTDEV bn s = Ok (b, upd b f s)"
      unfolding bget_def lru_scans(1) [OF xs] Some using ok
      by (simp add: lock_buf_def acquiresleep_def buf_ok_def) (simp add: upd_def f_def)
    moreover have "unat (refcnt (f (bufs s b))) = Suc (of_bool (b \<in> P))"
      using ok unat_inc_dec(1) [of "refcnt (bufs s b)"] by (cases "b \<in> P") (auto simp: f_def buf_ok_def unat_eq_zero)
    moreover have "blockno (bufs s j) \<noteq> bn" if "j < NBUF" "j \<noteq> b" "bdev (bufs s j) = ROOTDEV" for j
      using that b cinvD(2) [OF inv] unfolding uniq_def by blast
    ultimately show ?thesis
      using that [of b f] b nH ok by (simp add: f_def buf_ok_def)
  next
    case None
    then have none: "\<not> (bdev (bufs s j) = ROOTDEV \<and> blockno (bufs s j) = bn)" if "j < NBUF" for j
      using that set by (auto simp: find_None_iff)
    then have "card (H \<union> P) < NBUF" using room by blast
    then have "H \<union> P \<noteq> {0..<NBUF}" by auto
    then have "H \<union> P \<subset> {0..<NBUF}" using cinvD(3,4) [OF inv] by (simp add: psubset_eq)
    then obtain i where "i \<in> {0..<NBUF} - (H \<union> P)" by blast
    then have i: "i < NBUF" "i \<notin> H" "i \<notin> P" by auto
    then have "refcnt (bufs s i) = 0" using cinvD(1) [OF inv i(1)] by (simp add: buf_ok_def unat_eq_zero)
    then have "find (\<lambda>b. refcnt (bufs s b) = 0) (rev xs) \<noteq> None"
      using i(1) set by (intro find_rev_exists [of i]) auto
    then obtain b where f: "find (\<lambda>b. refcnt (bufs s b) = 0) (rev xs) = Some b" by blast
    then have b: "b < NBUF" "refcnt (bufs s b) = 0" using find_list_Some [OF f] set by auto
    have nHP: "b \<notin> H" "b \<notin> P" using cinvD(1) [OF inv b(1)] b(2) by (auto simp: buf_ok_def split: if_splits)
    have ok: "buf_ok (disk s) (curpid s) (bufs s b) False False" using cinvD(1) [OF inv b(1)] nHP by simp
    define g :: "buf \<Rightarrow> buf" where "g = (\<lambda>x. x\<lparr>bdev := ROOTDEV, blockno := bn, valid := False, refcnt := 1,
        block_lock := (block_lock x)\<lparr>slocked := True, slpid := curpid s\<rparr>\<rparr>)"
    have "bget ROOTDEV bn s = Ok (b, upd b g s)"
      unfolding bget_def lru_scans [OF xs] None f using ok
      by (simp add: lock_buf_def acquiresleep_def buf_ok_def) (simp add: upd_def g_def)
    then show ?thesis
      using that [of b g] b nHP ok none by (auto simp: g_def buf_ok_def)
  qed
qed

lemma bread_ok:
  assumes inv: "cinv s H P" and H: "\<And>i. i \<in> H \<Longrightarrow> blockno (bufs s i) \<noteq> bn"
    and room: "card (H \<union> P) < NBUF \<or> (\<exists>i<NBUF. bdev (bufs s i) = ROOTDEV \<and> blockno (bufs s i) = bn)"
  obtains b s' where "bread ROOTDEV bn s = Ok (b, s')" and "b < NBUF" and "b \<notin> H" and "cinv s' (insert b H) P"
    and "blockno (bufs s' b) = bn" and "bdata (bufs s' b) = blk s bn" and "blk s' = blk s" and "brest s' = brest s" and "others b s s'"
    and "\<And>i. i \<in> H \<union> P \<Longrightarrow> blockno (bufs s' i) = blockno (bufs s i)"
proof -
  obtain b f where g: "bget ROOTDEV bn s = Ok (b, upd b f s)" "b < NBUF" "b \<notin> H"
    "\<And>x. bnext (f x) = bnext x \<and> bprev (f x) = bprev x"
    "blockno (f (bufs s b)) = bn" "bdev (f (bufs s b)) = ROOTDEV"
    "slocked (block_lock (f (bufs s b)))" "slpid (block_lock (f (bufs s b))) = curpid s"
    "unat (refcnt (f (bufs s b))) = Suc (of_bool (b \<in> P))" "length (bdata (f (bufs s b))) = BSIZE"
    "\<And>j. j < NBUF \<Longrightarrow> j \<noteq> b \<Longrightarrow> bdev (bufs s j) = ROOTDEV \<Longrightarrow> blockno (bufs s j) \<noteq> bn"
    "bdev (bufs s b) = ROOTDEV \<and> blockno (bufs s b) = bn \<and> valid (f (bufs s b)) = valid (bufs s b) \<and> bdata (f (bufs s b)) = bdata (bufs s b)
      \<or> b \<notin> P \<and> \<not> valid (f (bufs s b)) \<and> \<not> (bdev (bufs s b) = ROOTDEV \<and> blockno (bufs s b) = bn)"
    using bget_ok [OF inv H room] by blast
  have ok: "buf_ok (disk s) (curpid s) (bufs s b) False (b \<in> P)" using cinvD(1) [OF inv g(2)] g(3) by simp
  define h where "h = (\<lambda>x. if valid (f (bufs s b)) then f x else (f x)\<lparr>bdata := disk s bn, valid := True\<rparr>)"
  have run: "bread ROOTDEV bn s = Ok (b, upd b h s)"
    unfolding bread_def g(1) using g(5) by (simp add: virtio_disk_rw_def Let_def) (simp add: upd_def h_def)
  have len: "length (disk s bn) = BSIZE" using cinvD(6) [OF inv] .
  have inv': "cinv (upd b h s) (insert b H) P"
  proof (rule cinv_upd [OF inv g(2), where h = True and p = "b \<in> P"])
    show "bnext (h x) = bnext x \<and> bprev (h x) = bprev x" for x using g(4) by (simp add: h_def)
    have "b \<in> P \<Longrightarrow> valid (bufs s b)" using ok by (simp add: buf_ok_def)
    then show "buf_ok (disk s) (curpid s) (h (bufs s b)) True (b \<in> P)"
      using g(6-10) len by (auto simp: h_def buf_ok_def)
    show "blockno (bufs s j) \<noteq> blockno (h (bufs s b))" if "j < NBUF" "j \<noteq> b" "bdev (bufs s j) = ROOTDEV" for j
      using g(5,11) that by (simp add: h_def)
  qed auto
  have data: "bdata (h (bufs s b)) = blk s bn"
  proof (cases "valid (f (bufs s b))")
    case True
    then have *: "bdev (bufs s b) = ROOTDEV" "blockno (bufs s b) = bn" "valid (bufs s b)" "bdata (f (bufs s b)) = bdata (bufs s b)"
      using g(12) by auto
    then show ?thesis
      using blk_cached [OF cinvD(2) [OF inv] g(2)] True by (simp add: h_def)
  next
    case False
    have "blk s bn = disk s bn"
    proof (rule blk_uncached)
      fix i assume i: "i < NBUF" "valid (bufs s i)" "bdev (bufs s i) = ROOTDEV"
      show "blockno (bufs s i) \<noteq> bn"
        using g(11) [OF i(1)] g(12) i False by (cases "i = b") auto
    qed
    then show ?thesis using False by (simp add: h_def)
  qed
  have hb: "blockno (h (bufs s b)) = bn" "valid (h (bufs s b))" "bdev (h (bufs s b)) = ROOTDEV"
    using g(5,6) by (auto simp: h_def)
  have "blk (upd b h s) = blk s"
  proof
    fix m
    show "blk (upd b h s) m = blk s m"
    proof (cases "m = bn")
      case True
      then show ?thesis
        using blk_cached [OF cinvD(2) [OF inv'] g(2)] hb data by simp
    next
      case False
      show ?thesis
      proof (cases "valid (bufs s b) \<and> bdev (bufs s b) = ROOTDEV \<and> blockno (bufs s b) = m")
        case True
        then have nP: "b \<notin> P" using g(12) False by auto
        then have "blk s m = disk s m"
          using True ok blk_cached [OF cinvD(2) [OF inv] g(2)] by (auto simp: buf_ok_def)
        moreover have "blk (upd b h s) m = disk s m"
        proof (subst blk_uncached)
          fix i assume i: "i < NBUF" "valid (bufs (upd b h s) i)" "bdev (bufs (upd b h s) i) = ROOTDEV"
          show "blockno (bufs (upd b h s) i) \<noteq> m"
            using i hb False True cinvD(2) [OF inv] g(2) unfolding uniq_def by (cases "i = b") auto
        qed simp
        ultimately show ?thesis by simp
      next
        case no: False
        have "find (\<lambda>i. valid (bufs (upd b h s) i) \<and> bdev (bufs (upd b h s) i) = ROOTDEV \<and> blockno (bufs (upd b h s) i) = m) [0..<NBUF]
          = find (\<lambda>i. valid (bufs s i) \<and> bdev (bufs s i) = ROOTDEV \<and> blockno (bufs s i) = m) [0..<NBUF]"
          using no hb False by (intro find_cong) auto
        then show ?thesis
          using no hb False by (auto simp: blk_def split: option.split dest!: find_upt_Some)
      qed
    qed
  qed
  moreover have "blockno (bufs (upd b h s) i) = blockno (bufs s i)" if "i \<in> H \<union> P" for i
    using that hb(1) g(3,12) by auto
  ultimately show ?thesis
    using that [OF run g(2,3) inv'] hb data by (simp add: others_def)
qed

section \<open>Initialisation\<close>

lemma chain_push:
  assumes "chain N HEAD xs HEAD" and "chain P HEAD (rev xs) HEAD" and "distinct (HEAD # b # xs)"
  shows "chain ((N(b := N HEAD))(HEAD := b)) HEAD (b # xs) HEAD"
    and "chain ((P(b := HEAD))(N HEAD := b)) HEAD (rev (b # xs)) HEAD"
proof -
  have "chain ((N(b := N HEAD))(HEAD := b)) b xs HEAD"
    by (rule chain_restart [OF assms(1)]) (use assms(3) in auto)
  then show "chain ((N(b := N HEAD))(HEAD := b)) HEAD (b # xs) HEAD" by simp
  have first: "N HEAD = last (HEAD # rev xs)"
    unfolding last_rev_hd by (rule chain_hd [OF assms(1)])
  have "last (HEAD # rev xs) \<in> set (HEAD # xs)"
    using last_in_set [of "HEAD # rev xs"] by (auto simp del: last.simps)
  then have ne: "N HEAD \<noteq> b" unfolding first using assms(3) by (auto simp del: last.simps)
  have "chain (P(N HEAD := b)) HEAD (rev xs) b"
    unfolding first by (rule chain_last [OF _ assms(2)]) (use assms(3) in auto)
  moreover have "(P(b := HEAD))(N HEAD := b) = (P(N HEAD := b))(b := HEAD)"
    using ne by (auto simp: fun_eq_iff)
  ultimately have c: "chain ((P(b := HEAD))(N HEAD := b)) HEAD (rev xs) b"
    using assms(3) by (simp add: chain_upd)
  have "rev (b # xs) = rev xs @ b # []" by simp
  moreover have "((P(b := HEAD))(N HEAD := b)) b = HEAD" using ne by simp
  ultimately show "chain ((P(b := HEAD))(N HEAD := b)) HEAD (rev (b # xs)) HEAD"
    using c by (simp only: chain_append chain.simps)
qed

definition fresh_buf :: "buf \<Rightarrow> bool" where
  "fresh_buf x \<longleftrightarrow> \<not> valid x \<and> bdev x = 0 \<and> refcnt x = 0 \<and> length (bdata x) = BSIZE"

lemma link_upd3:
  "nx (upd b (\<lambda>x. x\<lparr>bnext := v, bprev := w, block_lock := l x\<rparr>) s) = (nx s)(b := v)"
  "pv (upd b (\<lambda>x. x\<lparr>bnext := v, bprev := w, block_lock := l x\<rparr>) s) = (pv s)(b := w)"
  by (auto simp: nx_def pv_def)

lemma binit_loop_ok:
  assumes "nx s HEAD = HEAD" and "pv s HEAD = HEAD" and "k \<le> NBUF"
  shows "chain (nx (binit_loop k s)) HEAD (rev [0..<k]) HEAD \<and> chain (pv (binit_loop k s)) HEAD [0..<k] HEAD
    \<and> brest (binit_loop k s) = brest s
    \<and> (\<forall>i<NBUF. (fresh_buf (bufs s i) \<longrightarrow> fresh_buf (bufs (binit_loop k s) i)) \<and> (i < k \<longrightarrow> \<not> slocked (block_lock (bufs (binit_loop k s) i))))"
  using assms(3)
proof (induction k)
  case 0
  then show ?case using assms(1,2) by simp
next
  case (Suc k)
  define t where "t = binit_loop k s"
  have ih: "chain (nx t) HEAD (rev [0..<k]) HEAD" "chain (pv t) HEAD (rev (rev [0..<k])) HEAD" "brest t = brest s"
    and fr: "\<And>i. i < NBUF \<Longrightarrow> (fresh_buf (bufs s i) \<longrightarrow> fresh_buf (bufs t i)) \<and> (i < k \<longrightarrow> \<not> slocked (block_lock (bufs t i)))"
    using Suc by (auto simp: t_def)
  have d: "distinct (HEAD # k # rev [0..<k])" "k \<noteq> HEAD" using Suc.prems by (auto simp: HEAD_def)
  note push = chain_push [OF ih(1,2) d(1)]
  have e: "binit_loop (Suc k) s = upd HEAD (\<lambda>x. x\<lparr>bnext := k\<rparr>) (upd (nx t HEAD) (\<lambda>x. x\<lparr>bprev := k\<rparr>)
      (upd k (\<lambda>x. x\<lparr>bnext := nx t HEAD, bprev := HEAD, block_lock := initsleeplock (block_lock x) ''buffer''\<rparr>) t))"
    by (simp add: Let_def nx_def t_def del: upd_apply)
  have "nx (binit_loop (Suc k) s) = ((nx t)(k := nx t HEAD))(HEAD := k)"
    "pv (binit_loop (Suc k) s) = ((pv t)(k := HEAD))(nx t HEAD := k)"
    unfolding e by (simp_all only: link_upd link_upd3)
  moreover have "rev [0..<Suc k] = k # rev [0..<k]" "[0..<Suc k] = rev (k # rev [0..<k])" by simp_all
  ultimately have "chain (nx (binit_loop (Suc k) s)) HEAD (rev [0..<Suc k]) HEAD"
    "chain (pv (binit_loop (Suc k) s)) HEAD [0..<Suc k] HEAD"
    using push by (simp_all only:)
  moreover have "brest (binit_loop (Suc k) s) = brest s" using ih(3) unfolding e by simp
  moreover have "(fresh_buf (bufs s i) \<longrightarrow> fresh_buf (bufs (binit_loop (Suc k) s) i))
      \<and> (i < Suc k \<longrightarrow> \<not> slocked (block_lock (bufs (binit_loop (Suc k) s) i)))" if "i < NBUF" for i
  proof -
    have f: "fresh_buf (bufs (binit_loop (Suc k) s) i) = fresh_buf (bufs t i)"
      unfolding e by (simp add: fresh_buf_def)
    have "slocked (block_lock (bufs (binit_loop (Suc k) s) i)) = (i \<noteq> k \<and> slocked (block_lock (bufs t i)))"
      unfolding e by (simp add: initsleeplock_def)
    then show ?thesis using fr [OF that] f by auto
  qed
  ultimately show ?case by blast
qed

lemma binit_ok:
  assumes "\<And>i. i < NBUF \<Longrightarrow> fresh_buf (bufs s i)" and "\<And>bn. length (disk s bn) = BSIZE"
  shows "cinv (binit s) {} {}" and "blk (binit s) = disk s" and "brest (binit s) = brest s"
proof -
  define t where "t = upd HEAD (\<lambda>x. x\<lparr>bprev := HEAD, bnext := HEAD\<rparr>) s"
  have t: "nx t HEAD = HEAD" "pv t HEAD = HEAD" by (simp_all add: t_def nx_def pv_def)
  have fr: "fresh_buf (bufs t i)" if "i < NBUF" for i
    using assms(1) [OF that] that by (simp add: t_def HEAD_def)
  note b = binit_loop_ok [OF t order.refl]
  have e: "binit s = binit_loop NBUF t" by (simp add: binit_def t_def)
  show rest: "brest (binit s) = brest s" using b by (simp add: e t_def)
  have d: "disk (binit s) = disk s" using rest by (simp add: brest_def)
  have f: "fresh_buf (bufs (binit s) i) \<and> \<not> slocked (block_lock (bufs (binit s) i))" if "i < NBUF" for i
    using b fr that unfolding e by blast
  have "lru (binit s) (rev [0..<NBUF])"
    using b unfolding e lru_def by (simp del: upt_Suc)
  then show "cinv (binit s) {} {}"
    using f assms(2) by (auto simp: cinv_def buf_ok_def uniq_def fresh_buf_def d)
  show "blk (binit s) = disk s"
  proof
    fix n show "blk (binit s) n = disk s n"
      using f blk_uncached [of "binit s" n] d by (auto simp: fresh_buf_def)
  qed
qed

section \<open>Transparency of the cache\<close>

text \<open>A machine at boot: zeroed buffers and a disk whose block \<open>n\<close> is filled with the byte \<open>n\<close>.\<close>

definition bio_ex :: bstate where
  "bio_ex = \<lparr>pmem = (\<lambda>_. 0), freelist = 0, kend = 0,
     bufs = (\<lambda>_. \<lparr>valid = False, bdev = 0, blockno = 0, block_lock = \<lparr>slocked = False, slname = [], slpid = 0\<rparr>,
       refcnt = 0, bprev = 0, bnext = 0, bdata = replicate 1024 0\<rparr>),
     disk = (\<lambda>n. replicate 1024 (ucast n)), dwrites = [], curpid = 1\<rparr>"

lemma bio_ex_ok: "cinv (binit bio_ex) {} {}" "blk (binit bio_ex) = (\<lambda>n. replicate 1024 (ucast n))"
  using binit_ok [of bio_ex] by (simp_all add: bio_ex_def fresh_buf_def)

text \<open>
  C6. The buffer cache is transparent. Reading a block that the process does not hold, while a
  buffer is unused or the block is cached, never panics or blocks: it returns a buffer locked by the
  caller that holds the current contents of that block, whether they come from a cached copy or from
  the disk. No write reaches the disk, no block changes its contents, no buffer in use is recycled and
  the invariant (recency list well formed, no block cached twice, recyclable buffers clean) holds.
\<close>

theorem bread_transparent:
  assumes "cinv s H P" and "\<forall>i\<in>H. blockno (bufs s i) \<noteq> bn"
    and "card (H \<union> P) < NBUF \<or> (\<exists>i<NBUF. bdev (bufs s i) = ROOTDEV \<and> blockno (bufs s i) = bn)"
  shows "\<exists>b s'. bread ROOTDEV bn s = Ok (b, s') \<and> b \<notin> H \<and> cinv s' (insert b H) P
    \<and> blockno (bufs s' b) = bn \<and> bdata (bufs s' b) = blk s bn \<and> holdingsleep (curpid s') (block_lock (bufs s' b))
    \<and> blk s' = blk s \<and> disk s' = disk s \<and> dwrites s' = dwrites s
    \<and> (\<forall>i. i \<noteq> b \<longrightarrow> core (bufs s' i) = core (bufs s i))"
proof -
  obtain b s' where r: "bread ROOTDEV bn s = Ok (b, s')" "b \<notin> H" "cinv s' (insert b H) P"
    "blockno (bufs s' b) = bn" "bdata (bufs s' b) = blk s bn" "blk s' = blk s" "brest s' = brest s" "others b s s'"
    by (rule bread_ok [OF assms(1) _ assms(3)]) (use assms(2) in auto)
  then show ?thesis
    using cinv_holding [OF r(3), of b] by (auto simp: brest_def others_def)
qed

theorem bread_transparent_witness:
  "\<exists>b s'. bread ROOTDEV 7 (binit bio_ex) = Ok (b, s') \<and> bdata (bufs s' b) = replicate 1024 7"
  using bread_transparent [OF bio_ex_ok(1), of 7] bio_ex_ok(2) by auto

end
