(* ===== verification/Log.thy ===== *)
theory Log
  imports Bio
begin

text \<open>
  The redo log, \<^verbatim>\<open>kernel/log.c\<close>. The on-disk header is the byte encoding the kernel uses; the
  loops over the log blocks are recursions on the number of blocks left. Waking the processes that
  sleep on \<^verbatim>\<open>&log\<close> has no effect on this state; a call that has to sleep is \<open>Blocks\<close>.
  Commit followed by a crash at any point and recovery is shown to be atomic.
\<close>

section \<open>State and operations\<close>

text \<open>\<^verbatim>\<open>struct log\<close> with its \<^verbatim>\<open>struct logheader\<close> (\<open>lh_n\<close>, \<open>lh_block\<close>).\<close>

record lstate = bstate +
  lg_start :: u32
  lg_size :: int
  lg_outstanding :: int
  lg_committing :: bool
  lg_dev :: u32
  lh_n :: int
  lh_block :: "nat \<Rightarrow> u32"

primrec install_trans_loop :: "nat \<Rightarrow> nat \<Rightarrow> bool \<Rightarrow> 'z lstate_scheme \<Rightarrow> 'z lstate_scheme outcome" where
  "install_trans_loop 0 tail recovering s = Ok s"
| "install_trans_loop (Suc k) tail recovering s =
     obind (bread (lg_dev s) (lg_start s + of_nat tail + 1) s) (\<lambda>(lbuf, s).
     obind (bread (lg_dev s) (lh_block s tail) s) (\<lambda>(dbuf, s).
     let s = upd dbuf (\<lambda>x. x\<lparr>bdata := bdata (bufs s lbuf)\<rparr>) s in
     obind (bwrite dbuf s) (\<lambda>s.
     let s = (if \<not> recovering then bunpin dbuf s else s) in
     obind (brelse lbuf s) (\<lambda>s.
     obind (brelse dbuf s) (\<lambda>s.
     install_trans_loop k (Suc tail) recovering s)))))"

definition install_trans :: "bool \<Rightarrow> 'z lstate_scheme \<Rightarrow> 'z lstate_scheme outcome" where
  "install_trans recovering s = install_trans_loop (nat (lh_n s)) 0 recovering s"

definition read_head :: "'z lstate_scheme \<Rightarrow> 'z lstate_scheme outcome" where
  "read_head s =
     obind (bread (lg_dev s) (lg_start s) s) (\<lambda>(b, s).
     let d = bdata (bufs s b);
         s = s\<lparr>lh_n := sint (get32 d 0)\<rparr>;
         s = s\<lparr>lh_block := fold (\<lambda>i f. f(i := get32 d (4 + 4 * i))) [0..<nat (lh_n s)] (lh_block s)\<rparr> in
     brelse b s)"

text \<open>The header bytes \<^verbatim>\<open>write_head\<close> produces in the buffer with contents \<open>d\<close>.\<close>

definition head_bytes :: "block \<Rightarrow> int \<Rightarrow> (nat \<Rightarrow> u32) \<Rightarrow> block" where
  "head_bytes d n f = fold (\<lambda>i d. put32 d (4 + 4 * i) (f i)) [0..<nat n] (put32 d 0 (word_of_int n))"

definition write_head :: "'z lstate_scheme \<Rightarrow> 'z lstate_scheme outcome" where
  "write_head s =
     obind (bread (lg_dev s) (lg_start s) s) (\<lambda>(b, s).
     let s = upd b (\<lambda>x. x\<lparr>bdata := head_bytes (bdata x) (lh_n s) (lh_block s)\<rparr>) s in
     obind (bwrite b s) (\<lambda>s. brelse b s))"

definition recover_from_log :: "'z lstate_scheme \<Rightarrow> 'z lstate_scheme outcome" where
  "recover_from_log s =
     obind (read_head s) (\<lambda>s.
     obind (install_trans True s) (\<lambda>s.
     write_head (s\<lparr>lh_n := 0\<rparr>)))"

text \<open>\<^verbatim>\<open>sizeof(struct logheader)\<close> is \<^verbatim>\<open>4 + 4 * LOGSIZE\<close>.\<close>

definition initlog :: "u32 \<Rightarrow> superblock \<Rightarrow> 'z lstate_scheme \<Rightarrow> 'z lstate_scheme outcome" where
  "initlog dev sb s =
     (if BSIZE \<le> 4 + 4 * LOGSIZE then Panic ''initlog: too big logheader''
      else recover_from_log (s\<lparr>lg_start := logstart sb, lg_size := sint (nlog sb), lg_dev := dev\<rparr>))"

definition begin_op :: "'z lstate_scheme \<Rightarrow> 'z lstate_scheme outcome" where
  "begin_op s =
     (if lg_committing s then Blocks
      else if lh_n s + (lg_outstanding s + 1) * int MAXOPBLOCKS > int LOGSIZE then Blocks
      else Ok (s\<lparr>lg_outstanding := lg_outstanding s + 1\<rparr>))"

primrec write_log_loop :: "nat \<Rightarrow> nat \<Rightarrow> 'z lstate_scheme \<Rightarrow> 'z lstate_scheme outcome" where
  "write_log_loop 0 tail s = Ok s"
| "write_log_loop (Suc k) tail s =
     obind (bread (lg_dev s) (lg_start s + of_nat tail + 1) s) (\<lambda>(to, s).
     obind (bread (lg_dev s) (lh_block s tail) s) (\<lambda>(from, s).
     let s = upd to (\<lambda>x. x\<lparr>bdata := bdata (bufs s from)\<rparr>) s in
     obind (bwrite to s) (\<lambda>s.
     obind (brelse from s) (\<lambda>s.
     obind (brelse to s) (\<lambda>s.
     write_log_loop k (Suc tail) s)))))"

definition write_log :: "'z lstate_scheme \<Rightarrow> 'z lstate_scheme outcome" where
  "write_log s = write_log_loop (nat (lh_n s)) 0 s"

definition commit :: "'z lstate_scheme \<Rightarrow> 'z lstate_scheme outcome" where
  "commit s =
     (if lh_n s > 0
      then obind (write_log s) (\<lambda>s.
           obind (write_head s) (\<lambda>s.
           obind (install_trans False s) (\<lambda>s.
           write_head (s\<lparr>lh_n := 0\<rparr>))))
      else Ok s)"

definition end_op :: "'z lstate_scheme \<Rightarrow> 'z lstate_scheme outcome" where
  "end_op s =
     (let s = s\<lparr>lg_outstanding := lg_outstanding s - 1\<rparr> in
      if lg_committing s then Panic ''log.committing''
      else if lg_outstanding s = 0
      then obind (commit (s\<lparr>lg_committing := True\<rparr>)) (\<lambda>s. Ok (s\<lparr>lg_committing := False\<rparr>))
      else Ok s)"

text \<open>The slot \<^verbatim>\<open>log_write\<close> uses: the one that has the block already, or the next free one.\<close>

definition log_slot :: "u32 \<Rightarrow> 'z lstate_scheme \<Rightarrow> nat" where
  "log_slot bn s = (case find (\<lambda>i. lh_block s i = bn) [0..<nat (lh_n s)] of Some i \<Rightarrow> i | None \<Rightarrow> nat (lh_n s))"

definition log_write :: "nat \<Rightarrow> 'z lstate_scheme \<Rightarrow> 'z lstate_scheme outcome" where
  "log_write b s =
     (if lh_n s \<ge> int LOGSIZE \<or> lh_n s \<ge> lg_size s - 1 then Panic ''too big a transaction''
      else if lg_outstanding s < 1 then Panic ''log_write outside of trans''
      else let i = log_slot (blockno (bufs s b)) s;
               s = s\<lparr>lh_block := (lh_block s)(i := blockno (bufs s b))\<rparr> in
           if int i = lh_n s then Ok ((bpin b s)\<lparr>lh_n := lh_n s + 1\<rparr>) else Ok s)"

section \<open>The header encoding\<close>

lemma length_head_bytes_aux:
  "4 + 4 * n \<le> length d \<Longrightarrow> length (fold (\<lambda>i d. put32 d (4 + 4 * i) (f i)) [0..<n] d) = length d"
  by (induction n) (auto simp del: upt_Suc simp: upt_Suc_append)

lemma get32_head_aux:
  "4 + 4 * n \<le> length d \<Longrightarrow> get32 (fold (\<lambda>i d. put32 d (4 + 4 * i) (f i)) [0..<n] d) 0 = get32 d 0
     \<and> (\<forall>i<n. get32 (fold (\<lambda>i d. put32 d (4 + 4 * i) (f i)) [0..<n] d) (4 + 4 * i) = f i)"
proof (induction n)
  case (Suc n)
  let ?d = "fold (\<lambda>i d. put32 d (4 + 4 * i) (f i)) [0..<n] d"
  have len: "length ?d = length d" using Suc.prems by (intro length_head_bytes_aux) simp
  have "get32 (put32 ?d (4 + 4 * n) (f n)) (4 + 4 * i) = f i" if "i < Suc n" for i
  proof (cases "i = n")
    case True
    then show ?thesis using Suc.prems len by (simp add: get32_put32)
  next
    case False
    then show ?thesis using Suc that len by (subst get32_put32_other) auto
  qed
  moreover have "get32 (put32 ?d (4 + 4 * n) (f n)) 0 = get32 d 0"
    using Suc len by (subst get32_put32_other) auto
  ultimately show ?case by (simp add: upt_Suc_append del: upt_Suc)
qed simp

lemma length_head_bytes: "length d = BSIZE \<Longrightarrow> n \<le> int LOGSIZE \<Longrightarrow> length (head_bytes d n f) = BSIZE"
  unfolding head_bytes_def by (subst length_head_bytes_aux) auto

lemma head_bytes_read:
  assumes "length d = BSIZE" and "0 \<le> n" and "n \<le> int LOGSIZE"
  shows "sint (get32 (head_bytes d n f) 0) = n" and "\<And>i. i < nat n \<Longrightarrow> get32 (head_bytes d n f) (4 + 4 * i) = f i"
proof -
  have "4 + 4 * nat n \<le> length (put32 d 0 (word_of_int n))" using assms by simp
  note aux = get32_head_aux [OF this, of f]
  have "get32 (head_bytes d n f) 0 = word_of_int n"
    using aux assms(1) by (simp add: head_bytes_def get32_put32)
  moreover have "sint (word_of_int n :: u32) = n"
    using assms(2,3) by (simp add: signed_of_int signed_take_bit_int_eq_self)
  ultimately show "sint (get32 (head_bytes d n f) 0) = n" by simp
  show "get32 (head_bytes d n f) (4 + 4 * i) = f i" if "i < nat n" for i
    using aux that by (simp add: head_bytes_def)
qed

section \<open>Sequences of block writes\<close>

definition writes :: "(u32 \<times> block) list \<Rightarrow> (u32 \<Rightarrow> block) \<Rightarrow> u32 \<Rightarrow> block" where
  "writes ws f = fold (\<lambda>(n, d) f. f(n := d)) ws f"

lemma writes_simps [simp]: "writes [] f = f" "writes ((n, d) # ws) f = writes ws (f(n := d))"
  by (simp_all add: writes_def)

lemma writes_append: "writes (ws @ vs) f = writes vs (writes ws f)"
  by (simp add: writes_def)

lemma writes_other: "n \<notin> fst ` set ws \<Longrightarrow> writes ws f n = f n"
  by (induction ws arbitrary: f) auto

lemma writes_eq: "(n, d) \<in> set ws \<Longrightarrow> (\<And>e. (n, e) \<in> set ws \<Longrightarrow> e = d) \<Longrightarrow> writes ws f n = d"
proof (induction ws arbitrary: f)
  case (Cons w ws)
  show ?case
  proof (cases "n \<in> fst ` set ws")
    case True
    then obtain e where e: "(n, e) \<in> set ws" by auto
    have "e = d" by (rule Cons.prems(2)) (simp add: e)
    with e have "writes ws g n = d" for g
      by (intro Cons.IH) (simp, rule Cons.prems(2), simp)
    then show ?thesis by (cases w) simp
  next
    case False
    then have "(n, d) \<notin> set ws" by force
    then have "w = (n, d)" using Cons.prems(1) by simp
    then show ?thesis using False by (simp add: writes_other)
  qed
next
  case Nil
  then show ?case by (simp only: list.set empty_iff)
qed

section \<open>Log fields and buffers\<close>

definition lrest :: "'z lstate_scheme \<Rightarrow> u32 \<times> int \<times> int \<times> bool \<times> u32 \<times> int \<times> (nat \<Rightarrow> u32) \<times> 'z" where
  "lrest s = (lg_start s, lg_size s, lg_outstanding s, lg_committing s, lg_dev s, lh_n s, lh_block s, lstate.more s)"

lemma lrestI:
  "lg_start s' = lg_start s \<Longrightarrow> lg_size s' = lg_size s \<Longrightarrow> lg_outstanding s' = lg_outstanding s \<Longrightarrow>
     lg_committing s' = lg_committing s \<Longrightarrow> lg_dev s' = lg_dev s \<Longrightarrow> lh_n s' = lh_n s \<Longrightarrow> lh_block s' = lh_block s \<Longrightarrow>
     lstate.more s' = lstate.more s \<Longrightarrow> lrest s' = lrest s"
  unfolding lrest_def prod.inject by (intro conjI)

lemma more_lrest:
  assumes "bstate.more s' = bstate.more s"
  shows "lrest s' = lrest s"
  by (rule lrestI; insert assms; cases s; cases s'; simp only: lstate.simps bstate.simps)

lemma brest_lrest: "brest s' = brest s \<Longrightarrow> lrest s' = lrest s"
  by (rule more_lrest) (simp add: brest_def)

lemma lrestD:
  assumes "lrest s' = lrest s"
  shows "lg_start s' = lg_start s" "lg_dev s' = lg_dev s" "lh_block s' = lh_block s" "lh_n s' = lh_n s" "lg_size s' = lg_size s"
    "lg_outstanding s' = lg_outstanding s" "lg_committing s' = lg_committing s"
  using assms by (simp_all add: lrest_def)

lemma cinv_log [simp]:
  "cinv (s\<lparr>lh_n := n\<rparr>) H P = cinv s H P" "cinv (s\<lparr>lh_block := f\<rparr>) H P = cinv s H P"
  "cinv (s\<lparr>lg_outstanding := k\<rparr>) H P = cinv s H P" "cinv (s\<lparr>lg_committing := c\<rparr>) H P = cinv s H P"
  "cinv (s\<lparr>lg_start := st\<rparr>) H P = cinv s H P" "cinv (s\<lparr>lg_size := sz\<rparr>) H P = cinv s H P" "cinv (s\<lparr>lg_dev := dv\<rparr>) H P = cinv s H P"
  by (simp_all add: cinv_def lru_def nx_def pv_def)

lemma blk_log [simp]:
  "blk (s\<lparr>lh_n := n\<rparr>) = blk s" "blk (s\<lparr>lh_block := f\<rparr>) = blk s"
  "blk (s\<lparr>lg_outstanding := k\<rparr>) = blk s" "blk (s\<lparr>lg_committing := c\<rparr>) = blk s"
  "blk (s\<lparr>lg_start := st\<rparr>) = blk s" "blk (s\<lparr>lg_size := sz\<rparr>) = blk s" "blk (s\<lparr>lg_dev := dv\<rparr>) = blk s"
  by (rule blk_cong; simp)+

text \<open>Block number \<open>i\<close> of the log area.\<close>

definition log_blk :: "'z lstate_scheme \<Rightarrow> nat \<Rightarrow> u32" where
  "log_blk s i = lg_start s + of_nat i + 1"

text \<open>What a write of buffer contents to the disk does to the state around it.\<close>

definition wrote :: "(u32 \<times> block) list \<Rightarrow> 'z lstate_scheme \<Rightarrow> 'z lstate_scheme \<Rightarrow> bool" where
  "wrote ws s s' \<longleftrightarrow> disk s' = writes ws (disk s) \<and> dwrites s' = dwrites s @ ws \<and> curpid s' = curpid s
     \<and> pmem s' = pmem s \<and> freelist s' = freelist s \<and> kend s' = kend s"

lemma wrote_trans: "wrote ws s t \<Longrightarrow> wrote vs t u \<Longrightarrow> wrote (ws @ vs) s u"
  by (simp add: wrote_def writes_append)

lemma wrote_brest: "brest t = brest s \<Longrightarrow> wrote [] s t"
  by (simp add: wrote_def brest_def)

section \<open>Copying a block\<close>

text \<open>Reading the two blocks \<open>x\<close> and \<open>y\<close>.\<close>

lemma read_two:
  assumes inv: "cinv s {} P" and xy: "x \<noteq> y" and room: "card P < NBUF"
    and y: "Suc (card P) < NBUF \<or> y \<in> (\<lambda>i. blockno (bufs s i)) ` P"
  obtains a s1 c s2 where "bread ROOTDEV x s = Ok (a, s1)" and "bread ROOTDEV y s1 = Ok (c, s2)" and "a \<noteq> c"
    and "cinv s2 {a, c} P" and "blockno (bufs s2 a) = x" and "blockno (bufs s2 c) = y"
    and "bdata (bufs s2 a) = blk s x" and "bdata (bufs s2 c) = blk s y" and "blk s2 = blk s" and "brest s2 = brest s" and "brest s1 = brest s"
    and "\<And>i. i \<in> P \<Longrightarrow> blockno (bufs s2 i) = blockno (bufs s i)"
proof -
  obtain a s1 where r1: "bread ROOTDEV x s = Ok (a, s1)" "a < NBUF" "cinv s1 {a} P"
    "blockno (bufs s1 a) = x" "bdata (bufs s1 a) = blk s x" "blk s1 = blk s" "brest s1 = brest s"
    "\<And>i. i \<in> P \<Longrightarrow> blockno (bufs s1 i) = blockno (bufs s i)"
    by (rule bread_ok [OF inv, of x]) (use room in auto)
  have fin: "finite P" using cinvD(4) [OF inv] finite_subset by auto
  have room1: "card ({a} \<union> P) < NBUF \<or> (\<exists>i<NBUF. bdev (bufs s1 i) = ROOTDEV \<and> blockno (bufs s1 i) = y)"
  proof (cases "Suc (card P) < NBUF")
    case True
    then show ?thesis using card_insert_le_m1 [of NBUF P a] fin by (simp add: card_insert_if)
  next
    case False
    then obtain i where i: "i \<in> P" "y = blockno (bufs s i)" using y by auto
    then show ?thesis using cinv_held(1,3) [OF r1(3), of i] r1(8) by auto
  qed
  obtain c s2 where r2: "bread ROOTDEV y s1 = Ok (c, s2)" "c \<notin> {a}" "cinv s2 (insert c {a}) P"
    "blockno (bufs s2 c) = y" "bdata (bufs s2 c) = blk s1 y" "blk s2 = blk s1" "brest s2 = brest s1" "others c s1 s2"
    "\<And>i. i \<in> {a} \<union> P \<Longrightarrow> blockno (bufs s2 i) = blockno (bufs s1 i)"
    by (rule bread_ok [OF r1(3) _ room1]) (use r1(4) xy in auto)
  have "core (bufs s2 a) = core (bufs s1 a)" using r2(2,8) by (auto simp: others_def)
  then show ?thesis
    using that [OF r1(1) r2(1)] r1 r2 by (simp add: core_def insert_commute)
qed

text \<open>The two releases at the end of an iteration.\<close>

lemma release_two:
  assumes inv: "cinv s {a, c} P" and ac: "a \<noteq> c"
    and clean: "a \<in> P \<or> bdata (bufs s a) = disk s (blockno (bufs s a))" "c \<in> P \<or> bdata (bufs s c) = disk s (blockno (bufs s c))"
  obtains s1 s2 where "brelse a s = Ok s1" and "brelse c s1 = Ok s2" and "cinv s2 {} P" and "blk s2 = blk s" and "brest s2 = brest s"
    and "\<And>i. i \<in> P \<Longrightarrow> blockno (bufs s2 i) = blockno (bufs s i)"
proof -
  obtain s1 where r1: "brelse a s = Ok s1" "cinv s1 ({a, c} - {a}) P" "blk s1 = blk s" "brest s1 = brest s" "others a s s1"
    "blockno (bufs s1 a) = blockno (bufs s a)"
    by (rule brelse_ok [OF inv _ clean(1)]) auto
  have c1: "core (bufs s1 c) = core (bufs s c)" using r1(5) ac by (auto simp: others_def)
  have inv1: "cinv s1 {c} P" using r1(2) ac by (metis insert_Diff_if insert_absorb Diff_insert_absorb singleton_iff empty_iff)
  have clean1: "c \<in> P \<or> bdata (bufs s1 c) = disk s1 (blockno (bufs s1 c))"
    using clean(2) c1 r1(4) by (auto simp: core_def brest_def)
  obtain s2 where r2: "brelse c s1 = Ok s2" "cinv s2 ({c} - {c}) P" "blk s2 = blk s1" "brest s2 = brest s1" "others c s1 s2"
    "blockno (bufs s2 c) = blockno (bufs s1 c)"
    by (rule brelse_ok [OF inv1 _ clean1]) auto
  have "blockno (bufs s2 i) = blockno (bufs s i)" for i
  proof -
    have "blockno (bufs s2 i) = blockno (bufs s1 i)" using r2(5,6) by (cases "i = c") (auto simp: others_def core_def)
    also have "\<dots> = blockno (bufs s i)" using r1(5,6) by (cases "i = a") (auto simp: others_def core_def)
    finally show ?thesis .
  qed
  then show ?thesis using that [OF r1(1) r2(1)] r1 r2 by simp
qed

text \<open>Filling a held buffer and writing it out.\<close>

lemma put_write:
  assumes inv: "cinv s H P" and b: "b \<in> H" and d: "length d = BSIZE"
  obtains s' where "bwrite b (upd b (\<lambda>x. x\<lparr>bdata := d\<rparr>) s) = Ok s'" and "cinv s' H P"
    and "blk s' = (blk s)(blockno (bufs s b) := d)" and "wrote [(blockno (bufs s b), d)] s s'" and "lrest s' = lrest s"
    and "others b s s'" and "blockno (bufs s' b) = blockno (bufs s b)" and "bdata (bufs s' b) = d"
proof -
  define s1 where "s1 = upd b (\<lambda>x. x\<lparr>bdata := d\<rparr>) s"
  note r1 = setdata_ok [OF inv b d s1_def]
  define s2 where "s2 = s1\<lparr>disk := (disk s1)(blockno (bufs s1 b) := bdata (bufs s1 b)), dwrites := dwrites s1 @ [(blockno (bufs s1 b), bdata (bufs s1 b))]\<rparr>"
  note r2 = bwrite_ok [OF r1(1) b s2_def]
  have l: "lrest s2 = lrest s"
    using brest_lrest [OF r1(3)] by (simp add: s2_def lrest_def)
  have w: "wrote [(blockno (bufs s b), d)] s s2"
    using r1(3,5,6) by (simp add: wrote_def s2_def brest_def)
  have "bufs s2 = bufs s1" by (simp add: s2_def)
  then have o: "others b s s2" "blockno (bufs s2 b) = blockno (bufs s b)" "bdata (bufs s2 b) = d"
    using r1(4-6) by (simp_all add: others_def)
  show ?thesis
    by (rule that [OF r2(1) [unfolded s1_def] r2(2) _ w l o]) (simp add: r2(3) r1(2))
qed

text \<open>A block outside the held and pinned buffers is the same in the cache and on the disk.\<close>

lemma blk_clean:
  assumes inv: "cinv s H P" and y: "\<And>i. i \<in> H \<union> P \<Longrightarrow> blockno (bufs s i) \<noteq> y"
  shows "blk s y = disk s y"
proof (cases "find (\<lambda>i. valid (bufs s i) \<and> bdev (bufs s i) = ROOTDEV \<and> blockno (bufs s i) = y) [0..<NBUF]")
  case (Some i)
  then have i: "i < NBUF" "valid (bufs s i)" "blockno (bufs s i) = y" using find_upt_Some by fastforce+
  then have "i \<notin> H \<union> P" using y by blast
  then have "bdata (bufs s i) = disk s y" using cinvD(1) [OF inv i(1)] i(2,3) by (simp add: buf_ok_def)
  then show ?thesis using Some by (simp add: blk_def)
qed (simp add: blk_def)

text \<open>One iteration of \<^verbatim>\<open>write_log\<close>.\<close>

lemma write_log_step:
  assumes inv: "cinv s {} P" and dev: "lg_dev s = ROOTDEV" and room: "card P < NBUF"
    and y: "Suc (card P) < NBUF \<or> lh_block s t \<in> (\<lambda>i. blockno (bufs s i)) ` P"
    and x: "log_blk s t \<noteq> lh_block s t" "log_blk s t \<notin> (\<lambda>i. blockno (bufs s i)) ` P"
  obtains s' where "write_log_loop (Suc k) t s = write_log_loop k (Suc t) s'" and "cinv s' {} P"
    and "blk s' = (blk s)(log_blk s t := blk s (lh_block s t))" and "wrote [(log_blk s t, blk s (lh_block s t))] s s'"
    and "lrest s' = lrest s" and "\<And>i. i \<in> P \<Longrightarrow> blockno (bufs s' i) = blockno (bufs s i)"
proof -
  obtain a s1 c s2 where r: "bread ROOTDEV (log_blk s t) s = Ok (a, s1)" "bread ROOTDEV (lh_block s t) s1 = Ok (c, s2)" "a \<noteq> c"
    "cinv s2 {a, c} P" "blockno (bufs s2 a) = log_blk s t" "blockno (bufs s2 c) = lh_block s t"
    "bdata (bufs s2 a) = blk s (log_blk s t)" "bdata (bufs s2 c) = blk s (lh_block s t)" "blk s2 = blk s"
    "brest s2 = brest s" "brest s1 = brest s" "\<And>i. i \<in> P \<Longrightarrow> blockno (bufs s2 i) = blockno (bufs s i)"
    by (rule read_two [OF inv x(1) room y]) (rule that)
  have d: "length (bdata (bufs s2 c)) = BSIZE" using cinv_held(4) [OF r(4), of c] by simp
  obtain s3 where w: "bwrite a (upd a (\<lambda>x. x\<lparr>bdata := bdata (bufs s2 c)\<rparr>) s2) = Ok s3" "cinv s3 {a, c} P"
    "blk s3 = (blk s2)(blockno (bufs s2 a) := bdata (bufs s2 c))" "wrote [(blockno (bufs s2 a), bdata (bufs s2 c))] s2 s3" "lrest s3 = lrest s2"
    "others a s2 s3" "blockno (bufs s3 a) = blockno (bufs s2 a)" "bdata (bufs s3 a) = bdata (bufs s2 c)"
    by (rule put_write [OF r(4) _ d, of a]) auto
  have inv3: "cinv s3 {c, a} P" using w(2) by (simp add: insert_commute)
  have c3: "core (bufs s3 c) = core (bufs s2 c)" using w(6) r(3) by (auto simp: others_def)
  have aP: "a \<notin> P" using r(5,12) x(2) by (metis rev_image_eqI)
  have clean_a: "a \<in> P \<or> bdata (bufs s3 a) = disk s3 (blockno (bufs s3 a))"
    using w(4,7,8) by (simp add: wrote_def)
  have clean_c: "c \<in> P \<or> bdata (bufs s3 c) = disk s3 (blockno (bufs s3 c))"
  proof (cases "lh_block s t \<in> (\<lambda>i. blockno (bufs s i)) ` P")
    case True
    then obtain i where i: "i \<in> P" "blockno (bufs s2 i) = lh_block s t" using r(12) by auto
    then show ?thesis using cinv_inj [OF r(4), of c i] r(6) by simp
  next
    case False
    then have "blk s (lh_block s t) = disk s (lh_block s t)" by (intro blk_clean [OF inv]) (metis Un_iff empty_iff rev_image_eqI)
    then show ?thesis using c3 w(4) r(5,6,8,10) x(1) by (simp add: core_def wrote_def brest_def)
  qed
  obtain s4 s5 where e: "brelse c s3 = Ok s4" "brelse a s4 = Ok s5" "cinv s5 {} P" "blk s5 = blk s3" "brest s5 = brest s3"
    "\<And>i. i \<in> P \<Longrightarrow> blockno (bufs s5 i) = blockno (bufs s3 i)"
    by (rule release_two [OF inv3 _ clean_c clean_a]) (use r(3) in auto)
  have l: "lrest s1 = lrest s" "lrest s2 = lrest s" "lrest s3 = lrest s" "lrest s5 = lrest s"
    using brest_lrest [OF r(10)] brest_lrest [OF r(11)] w(5) brest_lrest [OF e(5)] by auto
  have run: "write_log_loop (Suc k) t s = write_log_loop k (Suc t) s5"
    using r(1,2) w(1) e(1,2) lrestD [OF l(1)] dev by (simp add: log_blk_def)
  have "wrote [(log_blk s t, blk s (lh_block s t))] s s5"
    using wrote_trans [OF wrote_brest [OF r(10)] wrote_trans [OF w(4) wrote_brest [OF e(5)]]] r(5,8) by simp
  moreover have "blockno (bufs s5 i) = blockno (bufs s i)" if "i \<in> P" for i
    using e(6) [OF that] r(12) [OF that] w(6,7) by (cases "i = a") (auto simp: others_def core_def)
  ultimately show ?thesis
    using that [OF run e(3)] e(4) w(3) r(5,8,9) l(4) by simp
qed

text \<open>The whole loop copies the logged blocks, as the cache holds them, to the log area.\<close>

definition log_copies :: "'z lstate_scheme \<Rightarrow> nat \<Rightarrow> nat \<Rightarrow> (u32 \<times> block) list" where
  "log_copies s t k = map (\<lambda>i. (log_blk s i, blk s (lh_block s i))) [t..<t + k]"

lemma write_log_loop_ok:
  assumes "cinv s {} P" and "lg_dev s = ROOTDEV" and "card P < NBUF"
    and "\<And>i. i \<in> {t..<t + k} \<Longrightarrow> lh_block s i \<in> (\<lambda>b. blockno (bufs s b)) ` P"
    and "\<And>i j. i \<in> {t..<t + k} \<Longrightarrow> j \<in> {t..<t + k} \<Longrightarrow> log_blk s i \<noteq> lh_block s j"
    and "\<And>i. i \<in> {t..<t + k} \<Longrightarrow> log_blk s i \<notin> (\<lambda>b. blockno (bufs s b)) ` P"
  obtains s' where "write_log_loop k t s = Ok s'" and "cinv s' {} P" and "blk s' = writes (log_copies s t k) (blk s)"
    and "wrote (log_copies s t k) s s'" and "lrest s' = lrest s" and "\<And>i. i \<in> P \<Longrightarrow> blockno (bufs s' i) = blockno (bufs s i)"
  using assms
proof (induction k arbitrary: t s thesis)
  case 0
  show ?case by (rule 0(1) [of s]) (use 0 in \<open>simp_all add: log_copies_def wrote_def\<close>)
next
  case (Suc k)
  have t: "t \<in> {t..<t + Suc k}" by simp
  obtain s1 where s1: "write_log_loop (Suc k) t s = write_log_loop k (Suc t) s1" "cinv s1 {} P"
    "blk s1 = (blk s)(log_blk s t := blk s (lh_block s t))" "wrote [(log_blk s t, blk s (lh_block s t))] s s1"
    "lrest s1 = lrest s" "\<And>i. i \<in> P \<Longrightarrow> blockno (bufs s1 i) = blockno (bufs s i)"
    by (rule write_log_step [OF Suc.prems(2-4) _ Suc.prems(6) [OF t t] Suc.prems(7) [OF t]])
      (use Suc.prems(5) [OF t] in auto)
  note l = lrestD [OF s1(5)]
  have lb: "log_blk s1 = log_blk s" by (intro ext) (simp add: log_blk_def l)
  have im: "(\<lambda>b. blockno (bufs s1 b)) ` P = (\<lambda>b. blockno (bufs s b)) ` P" using s1(6) by (intro image_cong) auto
  have ran: "i \<in> {t..<t + Suc k}" if "i \<in> {Suc t..<Suc t + k}" for i using that by simp
  have cp: "log_copies s t (Suc k) = (log_blk s t, blk s (lh_block s t)) # log_copies s1 (Suc t) k"
  proof -
    have "blk s1 (lh_block s i) = blk s (lh_block s i)" if "i \<in> {Suc t..<Suc t + k}" for i
      using s1(3) Suc.prems(6) [OF t ran [OF that]] by auto
    then show ?thesis by (simp add: log_copies_def upt_conv_Cons lb l del: upt_Suc)
  qed
  show ?case
  proof (rule Suc.IH [of "Suc t" s1])
    fix s' assume r: "write_log_loop k (Suc t) s1 = Ok s'" "cinv s' {} P" "blk s' = writes (log_copies s1 (Suc t) k) (blk s1)"
      "wrote (log_copies s1 (Suc t) k) s1 s'" "lrest s' = lrest s1" "\<And>i. i \<in> P \<Longrightarrow> blockno (bufs s' i) = blockno (bufs s1 i)"
    show thesis
      by (rule Suc.prems(1) [of s']) (use r s1 wrote_trans [OF s1(4) r(4)] in \<open>simp_all add: cp\<close>)
  qed (use s1(2) Suc.prems(3,4) l lb im Suc.prems(5-7) ran in auto)
qed

text \<open>One iteration of \<^verbatim>\<open>install_trans\<close>: outside recovery the buffer is unpinned.\<close>

lemma install_step:
  assumes inv: "cinv s {} P" and dev: "lg_dev s = ROOTDEV" and room: "card P < NBUF"
    and P: "if r then P = {} else lh_block s t \<in> (\<lambda>i. blockno (bufs s i)) ` P"
    and x: "log_blk s t \<noteq> lh_block s t" "log_blk s t \<notin> (\<lambda>i. blockno (bufs s i)) ` P"
  obtains s' P' where "install_trans_loop (Suc k) t r s = install_trans_loop k (Suc t) r s'" and "cinv s' {} P'"
    and "blk s' = (blk s)(lh_block s t := blk s (log_blk s t))" and "wrote [(lh_block s t, blk s (log_blk s t))] s s'"
    and "lrest s' = lrest s" and "(\<lambda>i. blockno (bufs s' i)) ` P' = (\<lambda>i. blockno (bufs s i)) ` P - {lh_block s t}"
    and "card P' \<le> card P" and "r \<longrightarrow> P' = {}"
proof -
  have y: "Suc (card P) < NBUF \<or> lh_block s t \<in> (\<lambda>i. blockno (bufs s i)) ` P"
    using P by (auto split: if_splits)
  obtain a s1 c s2 where rd: "bread ROOTDEV (log_blk s t) s = Ok (a, s1)" "bread ROOTDEV (lh_block s t) s1 = Ok (c, s2)" "a \<noteq> c"
    "cinv s2 {a, c} P" "blockno (bufs s2 a) = log_blk s t" "blockno (bufs s2 c) = lh_block s t"
    "bdata (bufs s2 a) = blk s (log_blk s t)" "bdata (bufs s2 c) = blk s (lh_block s t)" "blk s2 = blk s"
    "brest s2 = brest s" "brest s1 = brest s" "\<And>i. i \<in> P \<Longrightarrow> blockno (bufs s2 i) = blockno (bufs s i)"
    by (rule read_two [OF inv x(1) room y]) (rule that)
  have d: "length (bdata (bufs s2 a)) = BSIZE" using cinv_held(4) [OF rd(4), of a] by simp
  obtain s3 where w: "bwrite c (upd c (\<lambda>x. x\<lparr>bdata := bdata (bufs s2 a)\<rparr>) s2) = Ok s3" "cinv s3 {a, c} P"
    "blk s3 = (blk s2)(blockno (bufs s2 c) := bdata (bufs s2 a))" "wrote [(blockno (bufs s2 c), bdata (bufs s2 a))] s2 s3" "lrest s3 = lrest s2"
    "others c s2 s3" "blockno (bufs s3 c) = blockno (bufs s2 c)" "bdata (bufs s3 c) = bdata (bufs s2 a)"
    by (rule put_write [OF rd(4) _ d, of c]) auto
  have b3: "blockno (bufs s3 i) = blockno (bufs s2 i)" for i
    using w(6,7) by (cases "i = c") (auto simp: others_def core_def)
  define s4 where "s4 = (if \<not> r then bunpin c s3 else s3)"
  define P' where "P' = P - {c}"
  have cP: "c \<in> P" if nr: "\<not> r"
  proof -
    obtain i where "i \<in> P" "blockno (bufs s2 i) = lh_block s t" using P nr rd(12) by auto
    then show ?thesis using cinv_inj [OF rd(4), of c i] rd(6) by simp
  qed
  have u: "cinv s4 {a, c} P'" "blk s4 = blk s3" "brest s4 = brest s3" "core (bufs s4 a) = core (bufs s3 a)"
    "bdata (bufs s4 c) = bdata (bufs s3 c)" "\<And>i. blockno (bufs s4 i) = blockno (bufs s3 i)"
  proof -
    show "cinv s4 {a, c} P'" "blk s4 = blk s3" "brest s4 = brest s3" "core (bufs s4 a) = core (bufs s3 a)" "bdata (bufs s4 c) = bdata (bufs s3 c)"
      using bunpin_ok [OF w(2), of c] cP w(2) P rd(3) by (auto simp: s4_def P'_def others_def)
    show "blockno (bufs s4 i) = blockno (bufs s3 i)" for i
      using bunpin_ok(4,5) [OF w(2), of c] cP by (cases "i = c") (auto simp: s4_def others_def core_def)
  qed
  have "blk s (log_blk s t) = disk s (log_blk s t)" using x(2) by (intro blk_clean [OF inv]) (metis Un_iff empty_iff rev_image_eqI)
  moreover have "core (bufs s4 a) = core (bufs s2 a)" using u(4) w(6) rd(3) by (auto simp: others_def)
  ultimately have clean_a: "a \<in> P' \<or> bdata (bufs s4 a) = disk s4 (blockno (bufs s4 a))"
    using w(4) rd(5-7,10) u(3) x(1) by (simp add: core_def wrote_def brest_def)
  have clean_c: "c \<in> P' \<or> bdata (bufs s4 c) = disk s4 (blockno (bufs s4 c))"
    using w(4,7,8) u(3,5,6) by (simp add: wrote_def brest_def)
  obtain s5 s6 where e: "brelse a s4 = Ok s5" "brelse c s5 = Ok s6" "cinv s6 {} P'" "blk s6 = blk s4" "brest s6 = brest s4"
    "\<And>i. i \<in> P' \<Longrightarrow> blockno (bufs s6 i) = blockno (bufs s4 i)"
    by (rule release_two [OF u(1) rd(3) clean_a clean_c]) (rule that)
  have l: "lrest s1 = lrest s" "lrest s2 = lrest s" "lrest s3 = lrest s" "lrest s6 = lrest s"
    using brest_lrest [OF rd(10)] brest_lrest [OF rd(11)] w(5) brest_lrest [OF e(5)] brest_lrest [OF u(3)] by auto
  have run: "install_trans_loop (Suc k) t r s = install_trans_loop k (Suc t) r s6"
    using rd(1,2) w(1) e(1,2) lrestD [OF l(1)] dev by (simp add: log_blk_def s4_def)
  have wr: "wrote [(lh_block s t, blk s (log_blk s t))] s s6"
    using wrote_trans [OF wrote_brest [OF rd(10)] wrote_trans [OF w(4) wrote_brest [OF trans [OF e(5) u(3)]]]] rd(6,7) by simp
  have "blockno (bufs s6 i) = blockno (bufs s i)" if "i \<in> P'" for i
    using e(6) [OF that] u(6) b3 rd(12) [of i] that by (simp add: P'_def)
  then have "(\<lambda>i. blockno (bufs s6 i)) ` P' = (\<lambda>i. blockno (bufs s i)) ` P'" by (intro image_cong) auto
  also have "\<dots> = (\<lambda>i. blockno (bufs s i)) ` P - {lh_block s t}"
  proof -
    have "blockno (bufs s i) \<noteq> lh_block s t" if "i \<in> P'" for i
      using cinv_inj [OF rd(4), of c i] rd(6) rd(12) [of i] that by (auto simp: P'_def)
    moreover have "c \<in> P \<Longrightarrow> blockno (bufs s c) = lh_block s t" using rd(6,12) by simp
    ultimately show ?thesis by (auto simp: P'_def)
  qed
  finally have im: "(\<lambda>i. blockno (bufs s6 i)) ` P' = (\<lambda>i. blockno (bufs s i)) ` P - {lh_block s t}" .
  show ?thesis
    by (rule that [OF run e(3) _ wr l(4) im])
      (use e(4) u(2) w(3) rd(6,7,9) P in \<open>auto simp: P'_def card_Diff1_le split: if_splits\<close>)
qed

definition log_installs :: "'z lstate_scheme \<Rightarrow> nat \<Rightarrow> nat \<Rightarrow> (u32 \<times> block) list" where
  "log_installs s t k = map (\<lambda>i. (lh_block s i, blk s (log_blk s i))) [t..<t + k]"

lemma install_trans_loop_ok:
  assumes "cinv s {} P" and "lg_dev s = ROOTDEV" and "card P < NBUF"
    and "if r then P = {} else lh_block s ` {t..<t + k} = (\<lambda>b. blockno (bufs s b)) ` P" and "inj_on (lh_block s) {t..<t + k}"
    and "\<And>i j. i \<in> {t..<t + k} \<Longrightarrow> j \<in> {t..<t + k} \<Longrightarrow> log_blk s i \<noteq> lh_block s j"
    and "\<And>i. i \<in> {t..<t + k} \<Longrightarrow> log_blk s i \<notin> (\<lambda>b. blockno (bufs s b)) ` P"
  obtains s' where "install_trans_loop k t r s = Ok s'" and "cinv s' {} {}" and "blk s' = writes (log_installs s t k) (blk s)"
    and "wrote (log_installs s t k) s s'" and "lrest s' = lrest s"
  using assms
proof (induction k arbitrary: t s P thesis)
  case 0
  have "P = {}" using 0(5) by (auto split: if_splits)
  then show ?case by (intro 0(1) [of s]) (use 0 in \<open>simp_all add: log_installs_def wrote_def\<close>)
next
  case (Suc k)
  have t: "t \<in> {t..<t + Suc k}" by simp
  have Pt: "if r then P = {} else lh_block s t \<in> (\<lambda>b. blockno (bufs s b)) ` P"
    using Suc.prems(5) t by (metis imageI)
  obtain s1 P1 where s1: "install_trans_loop (Suc k) t r s = install_trans_loop k (Suc t) r s1" "cinv s1 {} P1"
    "blk s1 = (blk s)(lh_block s t := blk s (log_blk s t))" "wrote [(lh_block s t, blk s (log_blk s t))] s s1"
    "lrest s1 = lrest s" "(\<lambda>i. blockno (bufs s1 i)) ` P1 = (\<lambda>i. blockno (bufs s i)) ` P - {lh_block s t}"
    "card P1 \<le> card P" "r \<longrightarrow> P1 = {}"
    by (rule install_step [OF Suc.prems(2-4) Pt Suc.prems(7) [OF t t] Suc.prems(8) [OF t]]) (rule that)
  note l = lrestD [OF s1(5)]
  have lb: "log_blk s1 = log_blk s" by (intro ext) (simp add: log_blk_def l)
  have ran: "i \<in> {t..<t + Suc k}" if "i \<in> {Suc t..<Suc t + k}" for i using that by simp
  have split: "{t..<t + Suc k} = insert t {Suc t..<Suc t + k}" by auto
  have cp: "log_installs s t (Suc k) = (lh_block s t, blk s (log_blk s t)) # log_installs s1 (Suc t) k"
  proof -
    have "blk s1 (log_blk s i) = blk s (log_blk s i)" if "i \<in> {Suc t..<Suc t + k}" for i
      using s1(3) Suc.prems(7) [OF ran [OF that] t] by auto
    then show ?thesis by (simp add: log_installs_def upt_conv_Cons lb l del: upt_Suc)
  qed
  have P1: "if r then P1 = {} else lh_block s1 ` {Suc t..<Suc t + k} = (\<lambda>b. blockno (bufs s1 b)) ` P1"
  proof (cases r)
    case False
    have "lh_block s t \<notin> lh_block s ` {Suc t..<Suc t + k}" using Suc.prems(6) unfolding split by auto
    moreover have "(\<lambda>b. blockno (bufs s1 b)) ` P1 = insert (lh_block s t) (lh_block s ` {Suc t..<Suc t + k}) - {lh_block s t}"
      using False Suc.prems(5) s1(6) unfolding split by simp
    ultimately show ?thesis using False l(3) by simp
  qed (use s1(8) in simp)
  show ?case
  proof (rule Suc.IH [OF _ s1(2) _ _ P1])
    fix s' assume r: "install_trans_loop k (Suc t) r s1 = Ok s'" "cinv s' {} {}" "blk s' = writes (log_installs s1 (Suc t) k) (blk s1)"
      "wrote (log_installs s1 (Suc t) k) s1 s'" "lrest s' = lrest s1"
    show thesis
      by (rule Suc.prems(1) [of s']) (use r s1 wrote_trans [OF s1(4) r(4)] in \<open>simp_all add: cp\<close>)
  next
    show "inj_on (lh_block s1) {Suc t..<Suc t + k}" using Suc.prems(6) unfolding split l by simp
    show "log_blk s1 i \<noteq> lh_block s1 j" if "i \<in> {Suc t..<Suc t + k}" "j \<in> {Suc t..<Suc t + k}" for i j
      using Suc.prems(7) [OF ran ran] that unfolding l lb .
    show "log_blk s1 i \<notin> (\<lambda>b. blockno (bufs s1 b)) ` P1" if "i \<in> {Suc t..<Suc t + k}" for i
      using Suc.prems(8) [OF ran [OF that]] s1(6) unfolding lb by blast
  qed (use Suc.prems(3,4) s1(7) l in auto)
qed

text \<open>The header block.\<close>

lemma write_head_ok:
  assumes inv: "cinv s {} P" and dev: "lg_dev s = ROOTDEV" and room: "card P < NBUF"
    and n: "lh_n s \<le> int LOGSIZE" and P: "lg_start s \<notin> (\<lambda>i. blockno (bufs s i)) ` P"
  defines "h \<equiv> head_bytes (blk s (lg_start s)) (lh_n s) (lh_block s)"
  obtains s' where "write_head s = Ok s'" and "cinv s' {} P" and "blk s' = (blk s)(lg_start s := h)" and "wrote [(lg_start s, h)] s s'"
    and "lrest s' = lrest s" and "\<And>i. i \<in> P \<Longrightarrow> blockno (bufs s' i) = blockno (bufs s i)"
proof -
  obtain b s1 where r: "bread ROOTDEV (lg_start s) s = Ok (b, s1)" "cinv s1 {b} P"
    "blockno (bufs s1 b) = lg_start s" "bdata (bufs s1 b) = blk s (lg_start s)" "blk s1 = blk s" "brest s1 = brest s"
    "\<And>i. i \<in> P \<Longrightarrow> blockno (bufs s1 i) = blockno (bufs s i)"
    by (rule bread_ok [OF inv, of "lg_start s"]) (use room in auto)
  have len: "length h = BSIZE" unfolding h_def using length_blk [OF inv] n by (intro length_head_bytes)
  obtain s2 where w: "bwrite b (upd b (\<lambda>x. x\<lparr>bdata := h\<rparr>) s1) = Ok s2" "cinv s2 {b} P"
    "blk s2 = (blk s1)(blockno (bufs s1 b) := h)" "wrote [(blockno (bufs s1 b), h)] s1 s2" "lrest s2 = lrest s1"
    "others b s1 s2" "blockno (bufs s2 b) = blockno (bufs s1 b)" "bdata (bufs s2 b) = h"
    by (rule put_write [OF r(2) _ len, of b]) auto
  have clean: "b \<in> P \<or> bdata (bufs s2 b) = disk s2 (blockno (bufs s2 b))" using w(4,7,8) by (simp add: wrote_def)
  obtain s3 where e: "brelse b s2 = Ok s3" "cinv s3 ({b} - {b}) P" "blk s3 = blk s2" "brest s3 = brest s2" "others b s2 s3"
    "blockno (bufs s3 b) = blockno (bufs s2 b)"
    by (rule brelse_ok [OF w(2) _ clean]) auto
  note l = lrestD [OF brest_lrest [OF r(6)]]
  have "upd b (\<lambda>x. x\<lparr>bdata := head_bytes (bdata x) (lh_n s1) (lh_block s1)\<rparr>) s1 = upd b (\<lambda>x. x\<lparr>bdata := h\<rparr>) s1"
    by (simp add: upd_def h_def r(4) l)
  then have run: "write_head s = Ok s3" using r(1) w(1) e(1) dev by (simp add: write_head_def)
  have wr: "wrote [(lg_start s, h)] s s3"
    using wrote_trans [OF wrote_brest [OF r(6)] wrote_trans [OF w(4) wrote_brest [OF e(4)]]] r(3) by simp
  have "blockno (bufs s3 i) = blockno (bufs s i)" if "i \<in> P" for i
    using r(7) [OF that] w(6,7) e(5,6) by (cases "i = b") (auto simp: others_def core_def)
  then show ?thesis
    using that [OF run _ _ wr] e(2,3) w(3,5) r(3,5) brest_lrest [OF r(6)] brest_lrest [OF e(4)] by simp
qed

section \<open>Commit\<close>

text \<open>The blocks of the log area: the header and the \<^verbatim>\<open>log.size - 1\<close> blocks after it.\<close>

definition log_area :: "'z lstate_scheme \<Rightarrow> u32 set" where
  "log_area s = (\<lambda>i. lg_start s + of_nat i) ` {0..<nat (lg_size s)}"

text \<open>
  The state between two commits: the blocks in the in-memory header are distinct, outside the log
  area and exactly the pinned ones, and the header on the disk is empty.
\<close>

definition linvh :: "'z lstate_scheme \<Rightarrow> nat set \<Rightarrow> nat set \<Rightarrow> bool" where
  "linvh s H P \<longleftrightarrow> cinv s H P \<and> lg_dev s = ROOTDEV \<and> 0 \<le> lh_n s \<and> lh_n s < lg_size s \<and> lg_size s \<le> int LOGSIZE
     \<and> inj_on (lh_block s) {0..<nat (lh_n s)} \<and> lh_block s ` {0..<nat (lh_n s)} = (\<lambda>b. blockno (bufs s b)) ` P
     \<and> lh_block s ` {0..<nat (lh_n s)} \<inter> log_area s = {} \<and> get32 (disk s (lg_start s)) 0 = 0"

abbreviation linv :: "'z lstate_scheme \<Rightarrow> nat set \<Rightarrow> bool" where
  "linv s P \<equiv> linvh s {} P"

lemma unat_of_nat_u32: "i < 2 ^ 32 \<Longrightarrow> unat (of_nat i :: u32) = i"
  by (simp add: unat_of_nat take_bit_nat_eq_self)

lemma of_nat_u32_inj: "i < 2 ^ 32 \<Longrightarrow> j < 2 ^ 32 \<Longrightarrow> (of_nat i :: u32) = of_nat j \<Longrightarrow> i = j"
  by (metis unat_of_nat_u32)

lemma log_blk_area: "int i < lg_size s - 1 \<Longrightarrow> log_blk s i \<in> log_area s"
  unfolding log_area_def log_blk_def by (rule image_eqI [of _ _ "Suc i"]) auto

lemma start_area: "0 < lg_size s \<Longrightarrow> lg_start s \<in> log_area s"
  unfolding log_area_def by (rule image_eqI [of _ _ 0]) auto

lemma log_blk_inj: "log_blk s i = log_blk s j \<Longrightarrow> i < LOGSIZE \<Longrightarrow> j < LOGSIZE \<Longrightarrow> i = j"
  by (rule of_nat_u32_inj) (auto simp: log_blk_def)

lemma log_blk_start: "i < LOGSIZE \<Longrightarrow> log_blk s i \<noteq> lg_start s"
proof
  assume i: "i < LOGSIZE" and "log_blk s i = lg_start s"
  then have "(of_nat (Suc i) :: u32) = of_nat 0" by (simp add: log_blk_def add.commute add.left_commute)
  then show False using i of_nat_u32_inj [of "Suc i" 0] by simp
qed

lemma linvD:
  assumes "linvh s H P"
  shows "cinv s H P" "lg_dev s = ROOTDEV" "0 \<le> lh_n s" "lh_n s < lg_size s" "lg_size s \<le> int LOGSIZE"
    "inj_on (lh_block s) {0..<nat (lh_n s)}" "lh_block s ` {0..<nat (lh_n s)} = (\<lambda>b. blockno (bufs s b)) ` P"
    "\<And>i. i < nat (lh_n s) \<Longrightarrow> lh_block s i \<notin> log_area s" "get32 (disk s (lg_start s)) 0 = 0"
proof -
  show "cinv s H P" "lg_dev s = ROOTDEV" "0 \<le> lh_n s" "lh_n s < lg_size s" "lg_size s \<le> int LOGSIZE"
    "inj_on (lh_block s) {0..<nat (lh_n s)}" "lh_block s ` {0..<nat (lh_n s)} = (\<lambda>b. blockno (bufs s b)) ` P"
    "get32 (disk s (lg_start s)) 0 = 0"
    using assms by (simp_all add: linvh_def)
  have "lh_block s ` {0..<nat (lh_n s)} \<inter> log_area s = {}" using assms unfolding linvh_def by blast
  then show "\<And>i. i < nat (lh_n s) \<Longrightarrow> lh_block s i \<notin> log_area s" by fastforce
qed

lemma linvI:
  assumes "cinv s H P" "lg_dev s = ROOTDEV" "0 \<le> lh_n s" "lh_n s < lg_size s" "lg_size s \<le> int LOGSIZE"
    "inj_on (lh_block s) {0..<nat (lh_n s)}" "lh_block s ` {0..<nat (lh_n s)} = (\<lambda>b. blockno (bufs s b)) ` P"
    "\<And>i. i < nat (lh_n s) \<Longrightarrow> lh_block s i \<notin> log_area s" "get32 (disk s (lg_start s)) 0 = 0"
  shows "linvh s H P"
proof -
  have "lh_block s ` {0..<nat (lh_n s)} \<inter> log_area s = {}" using assms(8) by auto
  then show ?thesis unfolding linvh_def using assms by (intro conjI)
qed

lemma linv_bound: "linvh s H P \<Longrightarrow> i < nat (lh_n s) \<Longrightarrow> int i < lg_size s - 1 \<and> i < LOGSIZE"
  using linvD(3-5) [of s H P] by (auto simp: nat_less_iff)

lemma linv_card: "linvh s H P \<Longrightarrow> card P = nat (lh_n s)"
proof -
  assume inv: "linvh s H P"
  have "inj_on (\<lambda>b. blockno (bufs s b)) P" using cinv_inj [OF linvD(1) [OF inv]] by (auto simp: inj_on_def)
  then have "card P = card (lh_block s ` {0..<nat (lh_n s)})"
    unfolding linvD(7) [OF inv] by (simp add: card_image)
  then show ?thesis by (simp add: card_image [OF linvD(6) [OF inv]])
qed

lemma linv_pinned:
  assumes "linv s P"
  shows "card P < NBUF" and "\<And>x. x \<in> log_area s \<Longrightarrow> x \<notin> (\<lambda>b. blockno (bufs s b)) ` P"
  using assms linv_card [OF assms] by (auto simp: linvh_def NBUF_def MAXOPBLOCKS_def)

text \<open>The block writes of a commit, in order.\<close>

definition commit_writes :: "'z lstate_scheme \<Rightarrow> (u32 \<times> block) list" where
  "commit_writes s =
     (let n = nat (lh_n s); h = head_bytes (blk s (lg_start s)) (lh_n s) (lh_block s) in
      log_copies s 0 n @ [(lg_start s, h)] @ map (\<lambda>i. (lh_block s i, blk s (lh_block s i))) [0..<n]
        @ [(lg_start s, head_bytes h 0 (lh_block s))])"

lemma writes_copies:
  assumes "linv s P" and "i < nat (lh_n s)"
  shows "writes (log_copies s 0 (nat (lh_n s))) f (log_blk s i) = blk s (lh_block s i)"
proof (rule writes_eq)
  have n: "nat (lh_n s) < LOGSIZE" using linvD(3-5) [OF assms(1)] by simp
  show "(log_blk s i, blk s (lh_block s i)) \<in> set (log_copies s 0 (nat (lh_n s)))"
    using assms(2) by (auto simp: log_copies_def)
  show "e = blk s (lh_block s i)" if "(log_blk s i, e) \<in> set (log_copies s 0 (nat (lh_n s)))" for e
    using that assms(2) n log_blk_inj [of s i] by (fastforce simp: log_copies_def)
qed

lemma writes_copies_other:
  assumes "linv s P" and "x \<notin> log_area s \<or> x = lg_start s"
  shows "writes (log_copies s 0 (nat (lh_n s))) f x = f x"
proof (rule writes_other)
  have "log_blk s i \<noteq> x" if "i < nat (lh_n s)" for i
    using linv_bound [OF assms(1) that] assms(2) log_blk_area [of i s] log_blk_start [of i s] by auto
  then show "x \<notin> fst ` set (log_copies s 0 (nat (lh_n s)))" by (fastforce simp: log_copies_def)
qed

text \<open>Up to the commit point: the copies and the header with the block numbers.\<close>

lemma commit_point:
  assumes inv: "linv s P" and n: "0 < lh_n s"
  defines "k \<equiv> nat (lh_n s)" and "h \<equiv> head_bytes (blk s (lg_start s)) (lh_n s) (lh_block s)"
  obtains s2 where "obind (write_log s) write_head = Ok s2" and "cinv s2 {} P" and "blk s2 = (writes (log_copies s 0 k) (blk s))(lg_start s := h)"
    and "wrote (log_copies s 0 k @ [(lg_start s, h)]) s s2" and "lrest s2 = lrest s" and "(\<lambda>b. blockno (bufs s2 b)) ` P = lh_block s ` {0..<k}"
proof -
  note i = linvD [OF inv] and pin = linv_pinned [OF inv]
  have area: "log_blk s j \<in> log_area s" if "j < k" for j
    using linv_bound [OF inv] that log_blk_area [of j s] by (simp add: k_def)
  have st: "lg_start s \<in> log_area s" using i(3,4) by (intro start_area) simp
  obtain s1 where s1: "write_log_loop k 0 s = Ok s1" "cinv s1 {} P" "blk s1 = writes (log_copies s 0 k) (blk s)"
    "wrote (log_copies s 0 k) s s1" "lrest s1 = lrest s" "\<And>i. i \<in> P \<Longrightarrow> blockno (bufs s1 i) = blockno (bufs s i)"
  proof (rule write_log_loop_ok [OF i(1,2) pin(1), of 0 k])
    show "lh_block s j \<in> (\<lambda>b. blockno (bufs s b)) ` P" if "j \<in> {0..<0 + k}" for j
      using that i(7) by (auto simp: k_def)
    show "log_blk s j \<noteq> lh_block s j'" if "j \<in> {0..<0 + k}" "j' \<in> {0..<0 + k}" for j j'
      using area [of j] i(8) [of j'] that by (auto simp: k_def)
    show "log_blk s j \<notin> (\<lambda>b. blockno (bufs s b)) ` P" if "j \<in> {0..<0 + k}" for j
      using pin(2) [OF area] that by simp
  qed (rule that)
  note l1 = lrestD [OF s1(5)]
  have im1: "(\<lambda>b. blockno (bufs s1 b)) ` P = (\<lambda>b. blockno (bufs s b)) ` P" using s1(6) by (intro image_cong) auto
  have b1: "blk s1 (lg_start s) = blk s (lg_start s)" unfolding s1(3) k_def by (rule writes_copies_other [OF inv]) simp
  obtain s2 where s2: "write_head s1 = Ok s2" "cinv s2 {} P" "blk s2 = (blk s1)(lg_start s := h)" "wrote [(lg_start s, h)] s1 s2"
    "lrest s2 = lrest s1" "\<And>i. i \<in> P \<Longrightarrow> blockno (bufs s2 i) = blockno (bufs s1 i)"
    by (rule write_head_ok [OF s1(2)]) (use i pin st b1 in \<open>auto simp: l1 im1 h_def\<close>)
  have run: "obind (write_log s) write_head = Ok s2" using s1(1) s2(1) by (simp add: write_log_def k_def)
  show ?thesis
    by (rule that [OF run s2(2) _ wrote_trans [OF s1(4) s2(4)]])
      (use s1(3,5) s2(3,5,6) im1 i(7) in \<open>simp_all add: k_def cong: image_cong\<close>)
qed

text \<open>The whole commit leaves an empty log and the cached contents on the disk.\<close>

lemma commit_ok:
  assumes inv: "linv s P" and n: "0 < lh_n s"
  obtains s' where "commit s = Ok s'" and "linv s' {}" and "wrote (commit_writes s) s s'" and "blk s' = writes (commit_writes s) (blk s)"
    and "lh_n s' = 0" and "lrest (s'\<lparr>lh_n := lh_n s\<rparr>) = lrest s"
proof -
  define k where "k = nat (lh_n s)"
  define h where "h = head_bytes (blk s (lg_start s)) (lh_n s) (lh_block s)"
  note i = linvD [OF inv]
  obtain s2 where s2: "obind (write_log s) write_head = Ok s2" "cinv s2 {} P" "blk s2 = (writes (log_copies s 0 k) (blk s))(lg_start s := h)"
    "wrote (log_copies s 0 k @ [(lg_start s, h)]) s s2" "lrest s2 = lrest s" "(\<lambda>b. blockno (bufs s2 b)) ` P = lh_block s ` {0..<k}"
    by (rule commit_point [OF inv n, folded k_def h_def]) (rule that)
  note l2 = lrestD [OF s2(5)]
  have area: "log_blk s j \<in> log_area s" if "j < k" for j
    using linv_bound [OF inv] that log_blk_area [of j s] by (simp add: k_def)
  have lb2: "log_blk s2 = log_blk s" by (intro ext) (simp add: log_blk_def l2)
  obtain s3 where s3: "install_trans_loop k 0 False s2 = Ok s3" "cinv s3 {} {}" "blk s3 = writes (log_installs s2 0 k) (blk s2)"
    "wrote (log_installs s2 0 k) s2 s3" "lrest s3 = lrest s2"
  proof (rule install_trans_loop_ok [OF s2(2), of False 0 k])
    show "inj_on (lh_block s2) {0..<0 + k}" using i(6) by (simp add: l2 k_def)
    show "log_blk s2 j \<noteq> lh_block s2 j'" if "j \<in> {0..<0 + k}" "j' \<in> {0..<0 + k}" for j j'
      using area [of j] i(8) [of j'] that by (auto simp: k_def l2 lb2)
    show "log_blk s2 j \<notin> (\<lambda>b. blockno (bufs s2 b)) ` P" if "j \<in> {0..<0 + k}" for j
      using area [of j] i(8) that by (auto simp: s2(6) lb2 k_def)
  qed (use i(2) linv_pinned(1) [OF inv] s2(6) in \<open>simp_all add: l2\<close>)
  note l3 = lrestD [OF trans [OF s3(5) s2(5)]]
  have inst: "log_installs s2 0 k = map (\<lambda>i. (lh_block s i, blk s (lh_block s i))) [0..<k]"
  proof -
    have "blk s2 (log_blk s j) = blk s (lh_block s j)" if "j < k" for j
      using writes_copies [OF inv] that linv_bound [OF inv] log_blk_start [of j s] s2(3) by (simp add: k_def)
    then show ?thesis by (simp add: log_installs_def lb2 l2)
  qed
  have st: "lg_start s \<in> log_area s" using i(3,4) by (intro start_area) simp
  have b3: "blk s3 (lg_start s) = h"
    unfolding s3(3) inst using s2(3) st i(8) by (subst writes_other) (auto simp: k_def)
  obtain s4 where s4: "write_head (s3\<lparr>lh_n := 0\<rparr>) = Ok s4" "cinv s4 {} {}" "blk s4 = (blk s3)(lg_start s := head_bytes h 0 (lh_block s))"
    "wrote [(lg_start s, head_bytes h 0 (lh_block s))] (s3\<lparr>lh_n := 0\<rparr>) s4" "lrest s4 = lrest (s3\<lparr>lh_n := 0\<rparr>)"
    by (rule write_head_ok [of "s3\<lparr>lh_n := 0\<rparr>" "{}"]) (use s3(2) i(2) b3 in \<open>auto simp: l3 NBUF_def MAXOPBLOCKS_def\<close>)
  have run: "commit s = Ok s4"
    using s2(1) s3(1) s4(1) n by (cases "write_log s") (auto simp: commit_def install_trans_def l2 k_def)
  have w3: "wrote (log_installs s2 0 k) s2 (s3\<lparr>lh_n := 0\<rparr>)" using s3(4) by (simp add: wrote_def)
  have ws: "commit_writes s = (log_copies s 0 k @ [(lg_start s, h)]) @ log_installs s2 0 k @ [(lg_start s, head_bytes h 0 (lh_block s))]"
    unfolding inst by (simp add: commit_writes_def Let_def k_def h_def)
  have wr: "wrote (commit_writes s) s s4" unfolding ws by (rule wrote_trans [OF s2(4) wrote_trans [OF w3 s4(4)]])
  have b: "blk s4 = writes (commit_writes s) (blk s)"
    unfolding ws s4(3) s3(3) s2(3) by (simp add: writes_append)
  have hd: "get32 (disk s4 (lg_start s)) 0 = 0"
    using wr length_blk [OF i(1)] length_head_bytes [of "blk s (lg_start s)" "lh_n s" "lh_block s"] i(3-5)
    by (simp add: wrote_def ws writes_append h_def head_bytes_def get32_put32)
  note l4 = lrestD [OF s4(5)]
  have inv4: "linv s4 {}" using s4(2) hd i(2,4,5) n by (simp add: linvh_def l4 l3)
  have "lrest (s4\<lparr>lh_n := lh_n s\<rparr>) = lrest s"
    using s4(5) s3(5) s2(5) by (simp add: lrest_def)
  then show ?thesis using that [OF run inv4 wr b] l4 by simp
qed

section \<open>Recovery\<close>

lemma fold_upd: "fold (\<lambda>i f. f(i := g i)) [0..<n] f0 i = (if i < n then g i else f0 i)"
  by (induction n) auto

lemma read_head_ok:
  assumes inv: "cinv s {} {}" and dev: "lg_dev s = ROOTDEV"
  defines "d \<equiv> disk s (lg_start s)"
  obtains s' where "read_head s = Ok s'" and "cinv s' {} {}" and "blk s' = blk s" and "wrote [] s s'"
    and "lh_n s' = sint (get32 d 0)" and "\<And>i. i < nat (sint (get32 d 0)) \<Longrightarrow> lh_block s' i = get32 d (4 + 4 * i)"
    and "lg_start s' = lg_start s" and "lg_dev s' = lg_dev s" and "lg_size s' = lg_size s"
proof -
  obtain b s1 where r: "bread ROOTDEV (lg_start s) s = Ok (b, s1)" "cinv s1 {b} {}"
    "blockno (bufs s1 b) = lg_start s" "bdata (bufs s1 b) = blk s (lg_start s)" "blk s1 = blk s" "brest s1 = brest s"
    by (rule bread_ok [OF inv, of "lg_start s"]) (auto simp: NBUF_def MAXOPBLOCKS_def)
  have clean: "blk s (lg_start s) = d" unfolding d_def by (rule blk_clean [OF inv]) simp
  define s2 where "s2 = s1\<lparr>lh_n := sint (get32 d 0), lh_block := fold (\<lambda>i f. f(i := get32 d (4 + 4 * i))) [0..<nat (sint (get32 d 0))] (lh_block s1)\<rparr>"
  have c2: "cinv s2 {b} {}" and b2: "blk s2 = blk s1" and f2: "bufs s2 = bufs s1" "disk s2 = disk s1"
    using r(2) by (simp_all add: s2_def)
  have clean2: "b \<in> {} \<or> bdata (bufs s2 b) = disk s2 (blockno (bufs s2 b))"
    using r(3,4,6) clean by (simp add: f2 brest_def d_def)
  obtain s3 where e: "brelse b s2 = Ok s3" "cinv s3 ({b} - {b}) {}" "blk s3 = blk s2" "brest s3 = brest s2"
    by (rule brelse_ok [OF c2 _ clean2]) auto
  have run: "read_head s = Ok s3"
    using r(1) e(1) dev r(4) clean by (simp add: read_head_def s2_def Let_def)
  have "brest (s2\<lparr>lh_n := lh_n s1, lh_block := lh_block s1\<rparr>) = brest s" using r(6) by (simp add: s2_def brest_def)
  note l = lrestD [OF brest_lrest [OF e(4)]] lrestD [OF brest_lrest [OF r(6)]]
  have "wrote [] s s3" using r(6) e(4) by (simp add: s2_def wrote_def brest_def)
  then show ?thesis
    by (intro that [OF run]) (use e(2,3) b2 r(5) l in \<open>simp_all add: s2_def fold_upd\<close>)
qed

text \<open>Recovery installs what the header on the disk lists and empties it.\<close>

definition head_n :: "(u32 \<Rightarrow> block) \<Rightarrow> u32 \<Rightarrow> nat" where
  "head_n D st = nat (sint (get32 (D st) 0))"

definition head_blk :: "(u32 \<Rightarrow> block) \<Rightarrow> u32 \<Rightarrow> nat \<Rightarrow> u32" where
  "head_blk D st i = get32 (D st) (4 + 4 * i)"

lemma recover_ok:
  assumes inv: "cinv s {} {}" and dev: "lg_dev s = ROOTDEV" and sz: "lg_size s \<le> int LOGSIZE"
  defines "n \<equiv> head_n (disk s) (lg_start s)" and "f \<equiv> head_blk (disk s) (lg_start s)"
  assumes n: "int n < lg_size s" "0 \<le> sint (get32 (disk s (lg_start s)) 0)"
    and f: "inj_on f {0..<n}" "\<And>i. i < n \<Longrightarrow> f i \<notin> log_area s"
  obtains s' where "recover_from_log s = Ok s'" and "linv s' {}" and "lg_start s' = lg_start s" and "lg_size s' = lg_size s"
    and "\<And>bn. bn \<noteq> lg_start s \<Longrightarrow> disk s' bn = writes (map (\<lambda>i. (f i, disk s (log_blk s i))) [0..<n]) (disk s) bn"
proof -
  obtain s1 where r: "read_head s = Ok s1" "cinv s1 {} {}" "blk s1 = blk s" "wrote [] s s1" "lh_n s1 = int n"
    "\<And>i. i < n \<Longrightarrow> lh_block s1 i = f i" "lg_start s1 = lg_start s" "lg_dev s1 = lg_dev s" "lg_size s1 = lg_size s"
    by (rule read_head_ok [OF inv dev]) (use n(2) in \<open>auto simp: n_def f_def head_n_def head_blk_def\<close>)
  have lb: "log_blk s1 = log_blk s" by (intro ext) (simp add: log_blk_def r)
  have area: "log_blk s j \<in> log_area s" if "j < n" for j using that n by (intro log_blk_area) simp
  obtain s2 where i: "install_trans_loop n 0 True s1 = Ok s2" "cinv s2 {} {}" "blk s2 = writes (log_installs s1 0 n) (blk s1)"
    "wrote (log_installs s1 0 n) s1 s2" "lrest s2 = lrest s1"
  proof (rule install_trans_loop_ok [OF r(2), of True 0 n])
    show "inj_on (lh_block s1) {0..<0 + n}" using f(1) r(6) by (simp add: inj_on_def)
    show "log_blk s1 j \<noteq> lh_block s1 j'" if "j \<in> {0..<0 + n}" "j' \<in> {0..<0 + n}" for j j'
      using area [of j] f(2) [of j'] r(6) that by (auto simp: lb)
  qed (use dev in \<open>auto simp: r NBUF_def MAXOPBLOCKS_def\<close>)
  have inst: "log_installs s1 0 n = map (\<lambda>i. (f i, disk s (log_blk s i))) [0..<n]"
    using r(3,6) blk_clean [OF inv] by (simp add: log_installs_def lb)
  note l2 = lrestD [OF i(5)]
  define h where "h = head_bytes (blk s2 (lg_start s)) 0 (lh_block s2)"
  obtain s3 where w: "write_head (s2\<lparr>lh_n := 0\<rparr>) = Ok s3" "cinv s3 {} {}" "wrote [(lg_start s, h)] (s2\<lparr>lh_n := 0\<rparr>) s3"
    "lrest s3 = lrest (s2\<lparr>lh_n := 0\<rparr>)"
    by (rule write_head_ok [of "s2\<lparr>lh_n := 0\<rparr>" "{}"]) (use i(2) dev in \<open>auto simp: l2 r h_def NBUF_def MAXOPBLOCKS_def\<close>)
  note l3 = lrestD [OF w(4)]
  have run: "recover_from_log s = Ok s3"
    using r(1,5) i(1) w(1) by (simp add: recover_from_log_def install_trans_def)
  have hd: "get32 (disk s3 (lg_start s)) 0 = 0"
    using w(3) length_blk [OF i(2)] by (simp add: wrote_def h_def head_bytes_def get32_put32)
  have inv3: "linv s3 {}" using w(2) hd dev n(1) sz by (simp add: linvh_def l3 l2 r)
  have "disk s3 bn = writes (log_installs s1 0 n) (disk s) bn" if "bn \<noteq> lg_start s" for bn
    using that w(3) i(4) r(4) by (simp add: wrote_def)
  then show ?thesis using that [OF run inv3] by (simp add: inst l3 l2 r)
qed

section \<open>Crashes\<close>

text \<open>The disk after the first \<open>k\<close> writes of a commit: before, around and after the installation.\<close>

lemma take_other: "x \<notin> fst ` set ws \<Longrightarrow> writes (take k ws) f x = f x"
  by (rule writes_other) (auto dest: in_set_takeD intro: rev_image_eqI)

lemma copies_addr: "linv s P \<Longrightarrow> x \<in> fst ` set (log_copies s 0 (nat (lh_n s))) \<Longrightarrow> x \<in> log_area s \<and> x \<noteq> lg_start s"
  using linv_bound [of s "{}" P] log_blk_area [of _ s] log_blk_start [of _ s] by (fastforce simp: log_copies_def)

abbreviation home_writes :: "'z lstate_scheme \<Rightarrow> (u32 \<times> block) list" where
  "home_writes s \<equiv> map (\<lambda>i. (lh_block s i, blk s (lh_block s i))) [0..<nat (lh_n s)]"

lemma crash_before:
  assumes inv: "linv s P" and k: "k \<le> nat (lh_n s)" and D: "D = writes (take k (commit_writes s)) (disk s)"
  shows "D (lg_start s) = disk s (lg_start s)" and "\<And>bn. bn \<notin> log_area s \<Longrightarrow> D bn = disk s bn"
proof -
  have t: "take k (commit_writes s) = take k (log_copies s 0 (nat (lh_n s)))"
    using k by (simp add: commit_writes_def Let_def log_copies_def)
  show "D (lg_start s) = disk s (lg_start s)" "\<And>bn. bn \<notin> log_area s \<Longrightarrow> D bn = disk s bn"
    using copies_addr [OF inv] unfolding D t by (auto intro!: take_other)
qed

lemma crash_between:
  assumes inv: "linv s P" and k: "nat (lh_n s) < k" "k < 2 * nat (lh_n s) + 2" and D: "D = writes (take k (commit_writes s)) (disk s)"
  shows "D (lg_start s) = head_bytes (blk s (lg_start s)) (lh_n s) (lh_block s)"
    and "\<And>i. i < nat (lh_n s) \<Longrightarrow> D (log_blk s i) = blk s (lh_block s i)"
    and "\<And>bn. bn \<notin> log_area s \<Longrightarrow> bn \<notin> lh_block s ` {0..<nat (lh_n s)} \<Longrightarrow> D bn = disk s bn"
proof -
  let ?n = "nat (lh_n s)" and ?h = "head_bytes (blk s (lg_start s)) (lh_n s) (lh_block s)"
  note i = linvD [OF inv]
  have st: "lg_start s \<in> log_area s" using i(3,4) by (intro start_area) simp
  have "take k (commit_writes s) = log_copies s 0 ?n @ [(lg_start s, ?h)] @ take (k - ?n - 1) (home_writes s)"
    using k by (simp add: commit_writes_def Let_def log_copies_def take_Cons')
  then have eq: "D = writes (take (k - ?n - 1) (home_writes s)) ((writes (log_copies s 0 ?n) (disk s))(lg_start s := ?h))"
    by (simp add: D writes_append)
  have area: "D x = ((writes (log_copies s 0 ?n) (disk s))(lg_start s := ?h)) x" if "x \<in> log_area s" for x
    unfolding eq using that i(8) by (intro take_other) auto
  show "D (lg_start s) = ?h" using area [OF st] by simp
  show "D (log_blk s j) = blk s (lh_block s j)" if "j < ?n" for j
    using area [OF log_blk_area [of j s]] linv_bound [OF inv that] log_blk_start [of j s] writes_copies [OF inv that] by simp
  show "D bn = disk s bn" if "bn \<notin> log_area s" "bn \<notin> lh_block s ` {0..<?n}" for bn
  proof -
    have "D bn = ((writes (log_copies s 0 ?n) (disk s))(lg_start s := ?h)) bn"
      unfolding eq using that(2) by (intro take_other) auto
    also have "\<dots> = disk s bn" using that(1) st writes_copies_other [OF inv, of bn] by auto
    finally show ?thesis .
  qed
qed

text \<open>Outside the log area the cache and the disk differ in the logged blocks only.\<close>

lemma linv_clean: "linv s P \<Longrightarrow> bn \<notin> lh_block s ` {0..<nat (lh_n s)} \<Longrightarrow> blk s bn = disk s bn"
  using blk_clean [of s "{}" P bn] linvD(1,7) [of s "{}" P] by auto

lemma home_writes_eq:
  "linv s P \<Longrightarrow> (\<And>bn. bn \<notin> log_area s \<Longrightarrow> bn \<notin> lh_block s ` {0..<nat (lh_n s)} \<Longrightarrow> f bn = disk s bn) \<Longrightarrow>
     bn \<notin> log_area s \<Longrightarrow> writes (home_writes s) f bn = blk s bn"
proof (cases "bn \<in> lh_block s ` {0..<nat (lh_n s)}")
  case True
  then show ?thesis by (intro writes_eq) auto
next
  case False
  assume "linv s P" and "\<And>bn. bn \<notin> log_area s \<Longrightarrow> bn \<notin> lh_block s ` {0..<nat (lh_n s)} \<Longrightarrow> f bn = disk s bn" and "bn \<notin> log_area s"
  then show ?thesis using False linv_clean [of s P bn] by (subst writes_other) auto
qed

lemma crash_after:
  assumes inv: "linv s P" and k: "2 * nat (lh_n s) + 2 \<le> k" and D: "D = writes (take k (commit_writes s)) (disk s)"
  shows "get32 (D (lg_start s)) 0 = 0" and "\<And>bn. bn \<notin> log_area s \<Longrightarrow> D bn = blk s bn"
proof -
  let ?n = "nat (lh_n s)" and ?h = "head_bytes (blk s (lg_start s)) (lh_n s) (lh_block s)"
  note i = linvD [OF inv]
  have st: "lg_start s \<in> log_area s" using i(3,4) by (intro start_area) simp
  have len: "length ?h = BSIZE" using length_blk [OF i(1)] i(4,5) by (intro length_head_bytes) auto
  have "take k (commit_writes s) = commit_writes s" using k by (simp add: commit_writes_def Let_def log_copies_def)
  then have eq: "D = (writes (home_writes s) ((writes (log_copies s 0 ?n) (disk s))(lg_start s := ?h)))(lg_start s := head_bytes ?h 0 (lh_block s))"
    unfolding D by (simp add: commit_writes_def Let_def writes_append)
  show "get32 (D (lg_start s)) 0 = 0" using len by (simp add: eq head_bytes_def get32_put32)
  show "D bn = blk s bn" if "bn \<notin> log_area s" for bn
  proof -
    have "writes (home_writes s) ((writes (log_copies s 0 ?n) (disk s))(lg_start s := ?h)) bn = blk s bn"
      by (rule home_writes_eq [OF inv _ that]) (use st writes_copies_other [OF inv] in auto)
    then show ?thesis using that st by (auto simp: eq)
  qed
qed

lemma length_writes: "(\<And>n. length (f n) = BSIZE) \<Longrightarrow> (\<And>w. w \<in> set ws \<Longrightarrow> length (snd w) = BSIZE) \<Longrightarrow> length (writes ws f n) = BSIZE"
proof (induction ws arbitrary: f)
  case (Cons w ws)
  obtain m d where w: "w = (m, d)" by (cases w)
  have "length ((f(m := d)) x) = BSIZE" for x using Cons.prems(1) Cons.prems(2) [of w] by (simp add: w)
  then have "length (writes ws (f(m := d)) n) = BSIZE"
    by (rule Cons.IH) (rule Cons.prems(2), simp)
  then show ?case by (simp add: w)
qed simp

lemma length_commit_writes:
  assumes inv: "linv s P" and w: "w \<in> set (commit_writes s)"
  shows "length (snd w) = BSIZE"
proof -
  note i = linvD [OF inv]
  have b: "length (blk s x) = BSIZE" for x by (rule length_blk [OF i(1)])
  have h: "length (head_bytes (blk s x) (lh_n s) f) = BSIZE" for x f using i(4,5) by (intro length_head_bytes b) simp
  have "length (head_bytes (head_bytes (blk s x) (lh_n s) f) 0 f) = BSIZE" for x f by (intro length_head_bytes h) simp
  then show ?thesis using w b h by (auto simp: commit_writes_def Let_def log_copies_def)
qed

text \<open>Recovery from the disk of a crashed commit, after \<open>k\<close> of its writes.\<close>

lemma crash_recover:
  assumes inv: "linv s P" and D: "disk t = writes (take k (commit_writes s)) (disk s)"
    and c: "cinv t {} {}" "lg_dev t = ROOTDEV" "lg_start t = lg_start s" "lg_size t = lg_size s"
  obtains t' where "recover_from_log t = Ok t'" and "linv t' {}"
    and "\<And>bn. bn \<notin> log_area s \<Longrightarrow> disk t' bn = (if k \<le> nat (lh_n s) then disk s bn else blk s bn)"
proof -
  let ?n = "nat (lh_n s)"
  define n where "n = head_n (disk t) (lg_start t)"
  define f where "f = head_blk (disk t) (lg_start t)"
  note i = linvD [OF inv]
  have st: "lg_start s \<in> log_area s" using i(3,4) by (intro start_area) simp
  have lb: "log_blk t = log_blk s" by (intro ext) (simp add: log_blk_def c)
  have ar: "log_area t = log_area s" by (simp add: log_area_def c)
  have hd: "sint (get32 (disk t (lg_start s)) 0) = (if ?n < k \<and> k < 2 * ?n + 2 then lh_n s else 0)
      \<and> (?n < k \<and> k < 2 * ?n + 2 \<longrightarrow> (\<forall>j<?n. f j = lh_block s j \<and> disk t (log_blk s j) = blk s (lh_block s j)))"
  proof (cases "?n < k \<and> k < 2 * ?n + 2")
    case True
    then show ?thesis
      using crash_between(1,2) [OF inv _ _ D] head_bytes_read [OF length_blk [OF i(1)] i(3)] i(4,5)
      by (simp add: f_def head_blk_def c)
  next
    case False
    have "get32 (disk t (lg_start s)) 0 = 0"
      using False crash_before(1) [OF inv _ D] crash_after(1) [OF inv _ D] i(9) by (cases "k \<le> ?n") auto
    then show ?thesis using False by auto
  qed
  have n: "n = (if ?n < k \<and> k < 2 * ?n + 2 then ?n else 0)" using hd by (simp add: n_def head_n_def c)
  have fi: "f j = lh_block s j" "disk t (log_blk s j) = blk s (lh_block s j)" if "j < n" for j
    using that hd n by (auto split: if_splits)
  have nn: "int n < lg_size t" using i(3,4) by (simp add: n c)
  have "inj_on f {0..<n}" using i(6) fi(1) n by (auto simp: inj_on_def split: if_splits)
  moreover have "f j \<notin> log_area t" if "j < n" for j using that fi(1) i(8) [of j] n by (simp add: ar split: if_splits)
  ultimately obtain t' where t': "recover_from_log t = Ok t'" "linv t' {}"
    "\<And>bn. bn \<noteq> lg_start t \<Longrightarrow> disk t' bn = writes (map (\<lambda>i. (f i, disk t (log_blk t i))) [0..<n]) (disk t) bn"
    using recover_ok [OF c(1,2)] c(3,4) i(3,5) nn hd by (auto simp: n_def f_def split: if_splits)
  have m: "map (\<lambda>i. (f i, disk t (log_blk t i))) [0..<n] = (if n = 0 then [] else home_writes s)"
    using fi n by (auto simp: lb)
  have "disk t' bn = (if k \<le> ?n then disk s bn else blk s bn)" if bn: "bn \<notin> log_area s" for bn
  proof -
    have "bn \<noteq> lg_start t" using bn st c(3) by metis
    from t'(3) [OF this] have r: "disk t' bn = writes (if n = 0 then [] else home_writes s) (disk t) bn" unfolding m .
    consider "k \<le> ?n" | "?n < k" "k < 2 * ?n + 2" | "2 * ?n + 2 \<le> k" by linarith
    then show ?thesis
    proof cases
      case 2
      then show ?thesis
        using r n bn home_writes_eq [OF inv crash_between(3) [OF inv _ _ D] bn] crash_between(3) [OF inv _ _ D bn] linv_clean [OF inv]
        by (cases "?n = 0") auto
    qed (use r n bn crash_before(2) [OF inv _ D bn] crash_after(2) [OF inv _ D bn] in auto)
  qed
  then show ?thesis using that [OF t'(1,2)] by blast
qed

section \<open>Logging a block\<close>

lemma log_slot_found:
  assumes "linvh s H P" and "bn \<in> lh_block s ` {0..<nat (lh_n s)}"
  shows "log_slot bn s < nat (lh_n s)" and "lh_block s (log_slot bn s) = bn"
proof -
  obtain i where "find (\<lambda>i. lh_block s i = bn) [0..<nat (lh_n s)] = Some i"
    using assms(2) by (cases "find (\<lambda>i. lh_block s i = bn) [0..<nat (lh_n s)]") (auto simp: find_None_iff)
  then show "log_slot bn s < nat (lh_n s)" "lh_block s (log_slot bn s) = bn"
    using find_upt_Some [of "\<lambda>i. lh_block s i = bn"] by (auto simp: log_slot_def)
qed

lemma log_slot_new: "bn \<notin> lh_block s ` {0..<nat (lh_n s)} \<Longrightarrow> log_slot bn s = nat (lh_n s)"
  by (auto simp: log_slot_def split: option.split dest!: find_upt_Some)

lemma snoc_image: "(f(n := y)) ` {0..<Suc n} = insert y (f ` {0..<n})"
  by (auto simp: atLeast0_lessThan_Suc)

lemma snoc_inj: "inj_on f {0..<n} \<Longrightarrow> y \<notin> f ` {0..<n} \<Longrightarrow> inj_on (f(n := y)) {0..<Suc n}"
  by (auto simp: inj_on_def less_Suc_eq image_iff)

text \<open>
  \<^verbatim>\<open>log_write\<close> adds the block to the transaction and pins its buffer, once: a block that is logged
  already is absorbed.
\<close>

lemma log_write_ok:
  assumes inv: "linvh s H P" and b: "b \<in> H" and room: "lh_n s < lg_size s - 1" and out: "1 \<le> lg_outstanding s"
    and area: "blockno (bufs s b) \<notin> log_area s"
  obtains s' where "log_write b s = Ok s'" and "linvh s' H (insert b P)" and "blk s' = blk s" and "wrote [] s s'"
    and "others b s s'" and "blockno (bufs s' b) = blockno (bufs s b)" and "bdata (bufs s' b) = bdata (bufs s b)"
    and "lh_n s' = lh_n s + of_bool (b \<notin> P)" and "lrest (s'\<lparr>lh_n := lh_n s, lh_block := lh_block s\<rparr>) = lrest s"
proof (cases "blockno (bufs s b) \<in> lh_block s ` {0..<nat (lh_n s)}")
  case True
  note i = linvD [OF inv] and sl = log_slot_found [OF inv True]
  obtain c where "c \<in> P" "blockno (bufs s b) = blockno (bufs s c)" using True i(7) by auto
  then have "b \<in> P" using cinv_inj [OF i(1), of b c] b by simp
  then have P: "insert b P = P" by auto
  have "(lh_block s)(log_slot (blockno (bufs s b)) s := blockno (bufs s b)) = lh_block s" using sl(2) by auto
  then have "log_write b s = Ok (s\<lparr>lh_block := lh_block s\<rparr>)"
    using room i(5) out sl(1) by (auto simp: log_write_def Let_def)
  moreover have "linvh (s\<lparr>lh_block := lh_block s\<rparr>) H (insert b P)"
    unfolding P by (rule linvI) (use i in \<open>simp_all add: log_area_def\<close>)
  ultimately show ?thesis
    by (rule that) (use \<open>b \<in> P\<close> in \<open>simp_all add: wrote_def others_def lrest_def\<close>)
next
  case False
  note i = linvD [OF inv]
  let ?bn = "blockno (bufs s b)" and ?n = "nat (lh_n s)"
  have nP: "b \<notin> P" using False i(7) by auto
  define s1 where "s1 = s\<lparr>lh_block := (lh_block s)(?n := ?bn)\<rparr>"
  have c1: "cinv s1 H P" "bufs s1 = bufs s" "blk s1 = blk s" using i(1) by (simp_all add: s1_def)
  note p = bpin_ok [OF c1(1) b nP]
  define s' where "s' = (bpin b s1)\<lparr>lh_n := lh_n s + 1\<rparr>"
  have l: "lrest (bpin b s1) = lrest s1" by (rule brest_lrest [OF p(3)])
  note l' = lrestD [OF l]
  have run: "log_write b s = Ok s'"
    using room i(3,5) out log_slot_new [OF False] l' by (simp add: log_write_def Let_def s'_def s1_def)
  have n1: "nat (lh_n s + 1) = Suc ?n" using i(3) by simp
  have "blockno (bufs s' c) = blockno (bufs s c)" for c
    using p(4,5) c1(2) by (cases "c = b") (auto simp: s'_def others_def core_def)
  then have blks: "(\<lambda>c. blockno (bufs s' c)) ` insert b P = insert ?bn ((\<lambda>c. blockno (bufs s c)) ` P)" by simp
  have l2: "lh_n s' = lh_n s + 1" "lg_start s' = lg_start s" "lg_size s' = lg_size s" "lg_dev s' = lg_dev s"
    "lh_block s' = (lh_block s)(?n := ?bn)" "disk s' = disk s"
    using l' p(3) by (simp_all add: s'_def s1_def brest_def)
  have lh: "lh_block s' ` {0..<Suc ?n} = insert ?bn (lh_block s ` {0..<?n})" "inj_on (lh_block s') {0..<Suc ?n}"
    unfolding l2(5) by (rule snoc_image, rule snoc_inj [OF i(6) False])
  have ar: "log_area s' = log_area s" by (simp add: log_area_def l2)
  have "linvh s' H (insert b P)"
  proof (rule linvI)
    show "cinv s' H (insert b P)" using p(1) by (simp add: s'_def)
    show "lh_block s' ` {0..<nat (lh_n s')} = (\<lambda>c. blockno (bufs s' c)) ` insert b P"
      unfolding blks l2(1) n1 lh(1) by (simp add: i(7))
    show "lh_block s' j \<notin> log_area s'" if "j < nat (lh_n s')" for j
      using that i(8) [of j] area i(3) by (auto simp: l2 ar)
  qed (use i room lh(2) in \<open>simp_all add: l2 n1\<close>)
  then show ?thesis
    by (rule that [OF run])
      (use p(2-6) c1 nP l in \<open>auto simp: s'_def s1_def wrote_def brest_def others_def lrest_def\<close>)
qed

text \<open>The cache operations in between keep the invariant.\<close>

lemma linv_cache:
  assumes "linvh s H P" and "cinv s' H' P" and "brest s' = brest s" and "\<And>i. i \<in> P \<Longrightarrow> blockno (bufs s' i) = blockno (bufs s i)"
  shows "linvh s' H' P"
proof -
  note l = lrestD [OF brest_lrest [OF assms(3)]]
  have "(\<lambda>b. blockno (bufs s' b)) ` P = (\<lambda>b. blockno (bufs s b)) ` P" using assms(4) by (intro image_cong) auto
  moreover have "log_area s' = log_area s" "disk s' = disk s" using assms(3) by (simp_all add: log_area_def l brest_def)
  ultimately show ?thesis using linvD [OF assms(1)] assms(2) by (intro linvI) (simp_all add: l)
qed

section \<open>The guarantee of the log\<close>

lemma initlog_crash:
  assumes inv: "linv s P" and fr: "\<And>i. i < NBUF \<Longrightarrow> fresh_buf (bufs t i)" and D: "disk t = writes (take k (commit_writes s)) (disk s)"
    and sb: "logstart sb = lg_start s" "sint (nlog sb) = lg_size s"
  obtains t' where "initlog ROOTDEV sb (binit t) = Ok t'" and "linv t' {}"
    and "\<And>bn. bn \<notin> log_area s \<Longrightarrow> disk t' bn = (if k \<le> nat (lh_n s) then disk s bn else blk s bn)"
proof -
  have len: "length (disk t bn) = BSIZE" for bn
    unfolding D using cinvD(6) [OF linvD(1) [OF inv]] length_commit_writes [OF inv] by (intro length_writes) (auto dest: in_set_takeD)
  note b = binit_ok [of t, OF fr len]
  define u where "u = (binit t)\<lparr>lg_start := logstart sb, lg_size := sint (nlog sb), lg_dev := ROOTDEV\<rparr>"
  have u: "cinv u {} {}" "disk u = disk t" using b(1,3) by (simp_all add: u_def brest_def)
  obtain t' where "recover_from_log u = Ok t'" "linv t' {}"
    "\<And>bn. bn \<notin> log_area s \<Longrightarrow> disk t' bn = (if k \<le> nat (lh_n s) then disk s bn else blk s bn)"
    by (rule crash_recover [OF inv _ u(1)]) (use D u(2) sb in \<open>auto simp: u_def\<close>)
  then show ?thesis using that by (simp add: initlog_def u_def)
qed

text \<open>
  C1. A commit is atomic with respect to crashes. It returns with an empty log and the contents of the
  cache on the disk. If the machine stops after any number \<open>k\<close> of its block writes and boots again with
  an empty buffer cache, then \<^verbatim>\<open>initlog\<close> returns, and outside the log area the disk holds either
  everything the transaction wrote or nothing of it.
\<close>

theorem commit_crash_safe:
  fixes s :: "'z lstate_scheme"
  assumes "linv s P" and "0 < lh_n s"
  shows "\<exists>s' ws. commit s = Ok s' \<and> linv s' {} \<and> dwrites s' = dwrites s @ ws \<and> (\<forall>bn. bn \<notin> log_area s \<longrightarrow> disk s' bn = blk s bn)
    \<and> (\<forall>k (t :: 'z lstate_scheme) sb. (\<forall>i<NBUF. fresh_buf (bufs t i)) \<and> disk t = writes (take k ws) (disk s)
          \<and> logstart sb = lg_start s \<and> sint (nlog sb) = lg_size s \<longrightarrow>
        (\<exists>t'. initlog ROOTDEV sb (binit t) = Ok t' \<and> linv t' {}
           \<and> ((\<forall>bn. bn \<notin> log_area s \<longrightarrow> disk t' bn = disk s bn) \<or> (\<forall>bn. bn \<notin> log_area s \<longrightarrow> disk t' bn = blk s bn))))"
proof -
  obtain s' where s': "commit s = Ok s'" "linv s' {}" "wrote (commit_writes s) s s'"
    by (rule commit_ok [OF assms]) (rule that)
  have len: "length (commit_writes s) = 2 * nat (lh_n s) + 2" by (simp add: commit_writes_def Let_def log_copies_def)
  have "disk s' = writes (take (2 * nat (lh_n s) + 2) (commit_writes s)) (disk s)" using s'(3) len by (simp add: wrote_def)
  then have d: "\<forall>bn. bn \<notin> log_area s \<longrightarrow> disk s' bn = blk s bn" using crash_after(2) [OF assms(1)] by blast
  have "\<exists>t'. initlog ROOTDEV sb (binit t) = Ok t' \<and> linv t' {}
      \<and> ((\<forall>bn. bn \<notin> log_area s \<longrightarrow> disk t' bn = disk s bn) \<or> (\<forall>bn. bn \<notin> log_area s \<longrightarrow> disk t' bn = blk s bn))"
    if t: "\<forall>i<NBUF. fresh_buf (bufs t i)" "disk t = writes (take k (commit_writes s)) (disk s)" "logstart sb = lg_start s" "sint (nlog sb) = lg_size s"
    for k and t :: "'z lstate_scheme" and sb
  proof -
    obtain t' where "initlog ROOTDEV sb (binit t) = Ok t'" "linv t' {}"
      "\<And>bn. bn \<notin> log_area s \<Longrightarrow> disk t' bn = (if k \<le> nat (lh_n s) then disk s bn else blk s bn)"
      by (rule initlog_crash [OF assms(1) _ t(2-4)]) (use t(1) in auto)
    then show ?thesis by (cases "k \<le> nat (lh_n s)") auto
  qed
  moreover have "dwrites s' = dwrites s @ commit_writes s" using s'(3) by (simp add: wrote_def)
  ultimately show ?thesis using s'(1,2) d by (intro exI [of _ s'] exI [of _ "commit_writes s"]) blast
qed

text \<open>A disk of zeros with the log in blocks 2 to 31 and one block logged.\<close>

definition log_boot :: lstate where
  "log_boot = \<lparr>pmem = (\<lambda>_. 0), freelist = 0, kend = 0,
     bufs = (\<lambda>_. \<lparr>valid = False, bdev = 0, blockno = 0, block_lock = \<lparr>slocked = False, slname = [], slpid = 0\<rparr>, refcnt = 0, bprev = 0, bnext = 0, bdata = replicate 1024 0\<rparr>),
     disk = (\<lambda>_. replicate 1024 0), dwrites = [], curpid = 1,
     lg_start = 2, lg_size = 30, lg_outstanding = 1, lg_committing = False, lg_dev = ROOTDEV, lh_n = 0, lh_block = (\<lambda>_. 0)\<rparr>"

definition log_ex :: "lstate outcome" where
  "log_ex = obind (bread ROOTDEV 46 (binit log_boot)) (\<lambda>(b, s).
     obind (log_write b (upd b (\<lambda>x. x\<lparr>bdata := replicate 1024 7\<rparr>) s)) (\<lambda>s. brelse b s))"

lemma log_boot_fields [simp]:
  "lg_start log_boot = 2" "lg_size log_boot = 30" "lg_outstanding log_boot = 1" "lg_committing log_boot = False"
  "lg_dev log_boot = ROOTDEV" "lh_n log_boot = 0" "disk log_boot = (\<lambda>_. replicate 1024 0)"
  by (simp_all add: log_boot_def)

lemma get32_zeros: "get32 (replicate 1024 0) 0 = 0"
  by (simp add: get32_def get_bytes_def numeral_eq_Suc)

lemma log_boot_ok: "linv (binit log_boot) {}" "blk (binit log_boot) = (\<lambda>_. replicate 1024 0)" "lrest (binit log_boot) = lrest log_boot"
  "disk (binit log_boot) = (\<lambda>_. replicate 1024 0)"
proof -
  note b = binit_ok [of log_boot]
  have b: "cinv (binit log_boot) {} {}" "blk (binit log_boot) = disk log_boot" "brest (binit log_boot) = brest log_boot"
    by (rule b; simp add: log_boot_def fresh_buf_def)+
  show l: "lrest (binit log_boot) = lrest log_boot" by (rule brest_lrest [OF b(3)])
  show "blk (binit log_boot) = (\<lambda>_. replicate 1024 0)" using b(2) by simp
  show "disk (binit log_boot) = (\<lambda>_. replicate 1024 0)" using b(3) by (simp add: brest_def)
  then show "linv (binit log_boot) {}"
    by (intro linvI b(1)) (use lrestD [OF l] in \<open>simp_all add: get32_zeros\<close>)
qed

lemma log_ex_ok:
  obtains s b where "log_ex = Ok s" and "linv s {b}" and "lh_n s = 1" and "lg_start s = 2" and "lg_size s = 30"
    and "blk s 46 = replicate 1024 7" and "disk s 46 = replicate 1024 0"
proof -
  let ?s = "binit log_boot"
  note i0 = linvD [OF log_boot_ok(1)]
  note l0 = lrestD [OF log_boot_ok(3)]
  obtain b s1 where r: "bread ROOTDEV 46 ?s = Ok (b, s1)" "cinv s1 {b} {}" "blockno (bufs s1 b) = 46" "brest s1 = brest ?s"
    by (rule bread_ok [OF i0(1), of 46]) (auto simp: NBUF_def MAXOPBLOCKS_def)
  define s2 where "s2 = upd b (\<lambda>x. x\<lparr>bdata := replicate 1024 7\<rparr>) s1"
  note d = setdata_ok [OF r(2) _ _ s2_def]
  have d': "cinv s2 {b} {}" "blk s2 = (blk s1)(46 := replicate 1024 7)" "brest s2 = brest ?s" "blockno (bufs s2 b) = 46"
    "bdata (bufs s2 b) = replicate 1024 7"
    using d r by auto
  have inv2: "linvh s2 {b} {}" by (rule linv_cache [OF log_boot_ok(1) d'(1,3)]) simp
  note l2 = lrestD [OF brest_lrest [OF d'(3)]]
  have ar: "46 \<notin> log_area s2"
    by (simp add: log_area_def l2 l0 image_iff atLeast0LessThan lessThan_nat_numeral lessThan_Suc)
  obtain s3 where w: "log_write b s2 = Ok s3" "linvh s3 {b} {b}" "blk s3 = blk s2" "wrote [] s2 s3" "lh_n s3 = 1"
    "lrest (s3\<lparr>lh_n := lh_n s2, lh_block := lh_block s2\<rparr>) = lrest s2"
    by (rule log_write_ok [OF inv2, of b]) (use ar d'(4) in \<open>auto simp: l2 l0\<close>)
  note i3 = linvD [OF w(2)]
  obtain s4 where e: "brelse b s3 = Ok s4" "cinv s4 ({b} - {b}) {b}" "blk s4 = blk s3" "brest s4 = brest s3" "blockno (bufs s4 b) = blockno (bufs s3 b)"
    by (rule brelse_ok [OF i3(1), of b]) auto
  have inv4: "linv s4 {b}" by (rule linv_cache [OF w(2) _ e(4)]) (use e(2,5) in auto)
  note l4 = lrestD [OF brest_lrest [OF e(4)]] lrestD [OF w(6)]
  have "log_ex = Ok s4" using r(1) w(1) e(1) by (simp add: log_ex_def s2_def)
  then show ?thesis
    by (rule that [OF _ inv4])
      (use w(3-5) e(3,4) d'(2,3) l4 l2 l0 log_boot_ok(4) in \<open>simp_all add: wrote_def brest_def\<close>)
qed

theorem commit_crash_safe_witness:
  "\<exists>s s'. log_ex = Ok s \<and> 0 < lh_n s \<and> commit s = Ok s' \<and> disk s 46 = replicate 1024 0 \<and> disk s' 46 = replicate 1024 7"
proof -
  obtain s b where s: "log_ex = Ok s" "linv s {b}" "lh_n s = 1" "lg_start s = 2" "lg_size s = 30"
    "blk s 46 = replicate 1024 7" "disk s 46 = replicate 1024 0"
    by (rule log_ex_ok) (rule that)
  have "46 \<notin> log_area s"
    by (simp add: log_area_def s(4,5) image_iff atLeast0LessThan lessThan_nat_numeral lessThan_Suc)
  then show ?thesis using commit_crash_safe [OF s(2)] s by auto
qed

end
