(* ===== verification/Fs.thy ===== *)
theory Fs
  imports Log Kstring Vm
begin

text \<open>
  The file system, \<^verbatim>\<open>kernel/fs.c\<close> with \<^verbatim>\<open>struct inode\<close> of \<^verbatim>\<open>kernel/file.h\<close>: block allocator,
  inode table, inode contents, directories and paths. A pointer to an inode is its index in
  \<^verbatim>\<open>itable.inode\<close>, the null pointer is \<open>None\<close>. Strings in local arrays are byte lists. The fields the
  code reads through \<^verbatim>\<open>myproc()\<close> are fields of the state: \<open>cur_pt\<close> and \<open>cur_cwd\<close> here and \<open>curpid\<close> below;
  \<open>kscr\<close> is the address of the \<^verbatim>\<open>struct dirent\<close> (or ELF header) on the caller's kernel stack. The
  loops carry a bound on their iterations; a bound that runs out is \<open>Blocks\<close>.
\<close>

section \<open>State\<close>

record inode =
  idev :: u32
  inum :: u32
  iref :: int
  ilk :: sleeplock
  ivalid :: bool
  itype :: u16
  imajor :: u16
  iminor :: u16
  inlink :: u16
  isize :: u32
  iaddrs :: "nat \<Rightarrow> u32"

record fstate = lstate +
  sblk :: superblock
  itab :: "nat \<Rightarrow> inode"
  cur_pt :: addr
  cur_cwd :: nat
  kscr :: addr

definition T_DIR :: u16 where [simp]: "T_DIR = 1"
definition T_FILE :: u16 where [simp]: "T_FILE = 2"
definition T_DEVICE :: u16 where [simp]: "T_DEVICE = 3"

definition updi :: "nat \<Rightarrow> (inode \<Rightarrow> inode) \<Rightarrow> 'z fstate_scheme \<Rightarrow> 'z fstate_scheme" where
  "updi i f s = s\<lparr>itab := (itab s)(i := f (itab s i))\<rparr>"

section \<open>The superblock\<close>

definition readsb :: "u32 \<Rightarrow> 'z fstate_scheme \<Rightarrow> (superblock \<times> 'z fstate_scheme) outcome" where
  "readsb dev s =
     obind (bread dev 1 s) (\<lambda>(bp, s).
     let d = bdata (bufs s bp);
         sb = \<lparr>magic = get32 d 0, sbsize = get32 d 4, nblocks = get32 d 8, ninodes = get32 d 12,
               nlog = get32 d 16, logstart = get32 d 20, inodestart = get32 d 24, bmapstart = get32 d 28\<rparr> in
     obind (brelse bp s) (\<lambda>s. Ok (sb, s)))"

definition fsinit :: "u32 \<Rightarrow> 'z fstate_scheme \<Rightarrow> 'z fstate_scheme outcome" where
  "fsinit dev s =
     obind (readsb dev s) (\<lambda>(sb, s).
     let s = s\<lparr>sblk := sb\<rparr> in
     if magic sb \<noteq> FSMAGIC then Panic ''invalid file system''
     else initlog dev sb s)"

section \<open>Blocks\<close>

definition bzero :: "u32 \<Rightarrow> u32 \<Rightarrow> 'z fstate_scheme \<Rightarrow> 'z fstate_scheme outcome" where
  "bzero dev bno s =
     obind (bread dev bno s) (\<lambda>(bp, s).
     obind (log_write bp (upd bp (\<lambda>x. x\<lparr>bdata := replicate BSIZE 0\<rparr>) s)) (\<lambda>s.
     brelse bp s))"

text \<open>The bit of block \<open>bi\<close> in the bitmap block \<open>d\<close>, and setting or clearing it.\<close>

definition bit_mask :: "nat \<Rightarrow> byte" where
  "bit_mask bi = push_bit (bi mod 8) 1"

definition bm_free :: "block \<Rightarrow> nat \<Rightarrow> bool" where
  "bm_free d bi \<longleftrightarrow> d ! (bi div 8) AND bit_mask bi = 0"

definition bm_set :: "block \<Rightarrow> nat \<Rightarrow> block" where
  "bm_set d bi = d[bi div 8 := d ! (bi div 8) OR bit_mask bi]"

definition bm_clear :: "block \<Rightarrow> nat \<Rightarrow> block" where
  "bm_clear d bi = d[bi div 8 := d ! (bi div 8) AND NOT (bit_mask bi)]"

text \<open>The inner loop of \<^verbatim>\<open>balloc\<close>, with \<open>k\<close> bits of the block left.\<close>

primrec balloc_scan :: "nat \<Rightarrow> nat \<Rightarrow> u32 \<Rightarrow> u32 \<Rightarrow> block \<Rightarrow> nat option" where
  "balloc_scan 0 bi b sz d = None"
| "balloc_scan (Suc k) bi b sz d =
     (if \<not> b + of_nat bi < sz then None
      else if bm_free d bi then Some bi
      else balloc_scan k (Suc bi) b sz d)"

primrec balloc_loop :: "nat \<Rightarrow> u32 \<Rightarrow> u32 \<Rightarrow> 'z fstate_scheme \<Rightarrow> (u32 \<times> 'z fstate_scheme) outcome" where
  "balloc_loop 0 b dev s = Blocks"
| "balloc_loop (Suc k) b dev s =
     (if \<not> b < sbsize (sblk s) then Ok (0, s)
      else obind (bread dev (BBLOCK b (sblk s)) s) (\<lambda>(bp, s).
        case balloc_scan (unat BPB) 0 b (sbsize (sblk s)) (bdata (bufs s bp)) of
          Some bi \<Rightarrow>
            obind (log_write bp (upd bp (\<lambda>x. x\<lparr>bdata := bm_set (bdata x) bi\<rparr>) s)) (\<lambda>s.
            obind (brelse bp s) (\<lambda>s.
            obind (bzero dev (b + of_nat bi) s) (\<lambda>s.
            Ok (b + of_nat bi, s))))
        | None \<Rightarrow> obind (brelse bp s) (\<lambda>s. balloc_loop k (b + BPB) dev s)))"

definition balloc :: "u32 \<Rightarrow> 'z fstate_scheme \<Rightarrow> (u32 \<times> 'z fstate_scheme) outcome" where
  "balloc dev s = balloc_loop (Suc (Suc (unat (sbsize (sblk s)) div unat BPB))) 0 dev s"

definition bfree :: "u32 \<Rightarrow> u32 \<Rightarrow> 'z fstate_scheme \<Rightarrow> 'z fstate_scheme outcome" where
  "bfree dev b s =
     obind (bread dev (BBLOCK b (sblk s)) s) (\<lambda>(bp, s).
     let bi = unat (b mod BPB) in
     if bm_free (bdata (bufs s bp)) bi then Panic ''freeing free block''
     else obind (log_write bp (upd bp (\<lambda>x. x\<lparr>bdata := bm_clear (bdata x) bi\<rparr>) s)) (\<lambda>s.
          brelse bp s))"

section \<open>Inodes\<close>

primrec iinit_loop :: "nat \<Rightarrow> 'z fstate_scheme \<Rightarrow> 'z fstate_scheme" where
  "iinit_loop 0 s = s"
| "iinit_loop (Suc i) s = updi i (\<lambda>ip. ip\<lparr>ilk := initsleeplock (ilk ip) ''inode''\<rparr>) (iinit_loop i s)"

definition iinit :: "'z fstate_scheme \<Rightarrow> 'z fstate_scheme" where
  "iinit s = iinit_loop NINODE s"

text \<open>\<^verbatim>\<open>struct dinode\<close> at byte \<open>off\<close> of a block: type, major, minor, nlink, size, addrs.\<close>

definition dip_off :: "u32 \<Rightarrow> nat" where
  "dip_off i = 64 * unat (i mod IPB)"

definition dinode_load :: "block \<Rightarrow> nat \<Rightarrow> inode \<Rightarrow> inode" where
  "dinode_load d off ip = ip\<lparr>itype := get16 d off, imajor := get16 d (off + 2), iminor := get16 d (off + 4),
     inlink := get16 d (off + 6), isize := get32 d (off + 8),
     iaddrs := (\<lambda>i. if i \<le> NDIRECT then get32 d (off + 12 + 4 * i) else iaddrs ip i)\<rparr>"

definition dinode_store :: "inode \<Rightarrow> nat \<Rightarrow> block \<Rightarrow> block" where
  "dinode_store ip off d =
     fold (\<lambda>i d. put32 d (off + 12 + 4 * i) (iaddrs ip i)) [0..<NDIRECT + 1]
       (put32 (put16 (put16 (put16 (put16 d off (itype ip)) (off + 2) (imajor ip)) (off + 4) (iminor ip))
          (off + 6) (inlink ip)) (off + 8) (isize ip))"

definition iget :: "u32 \<Rightarrow> u32 \<Rightarrow> 'z fstate_scheme \<Rightarrow> (nat \<times> 'z fstate_scheme) outcome" where
  "iget dev i s =
     (case find (\<lambda>ip. iref (itab s ip) > 0 \<and> idev (itab s ip) = dev \<and> inum (itab s ip) = i) [0..<NINODE] of
        Some ip \<Rightarrow> Ok (ip, updi ip (\<lambda>x. x\<lparr>iref := iref x + 1\<rparr>) s)
      | None \<Rightarrow>
          (case find (\<lambda>ip. iref (itab s ip) = 0) [0..<NINODE] of
             None \<Rightarrow> Panic ''iget: no inodes''
           | Some ip \<Rightarrow> Ok (ip, updi ip (\<lambda>x. x\<lparr>idev := dev, inum := i, iref := 1, ivalid := False\<rparr>) s)))"

primrec ialloc_loop :: "nat \<Rightarrow> u32 \<Rightarrow> u32 \<Rightarrow> u16 \<Rightarrow> 'z fstate_scheme \<Rightarrow> (nat option \<times> 'z fstate_scheme) outcome" where
  "ialloc_loop 0 i dev ty s = Blocks"
| "ialloc_loop (Suc k) i dev ty s =
     (if \<not> i < ninodes (sblk s) then Ok (None, s)
      else obind (bread dev (IBLOCK i (sblk s)) s) (\<lambda>(bp, s).
        if get16 (bdata (bufs s bp)) (dip_off i) = 0
        then obind (log_write bp (upd bp (\<lambda>x. x\<lparr>bdata := put16 (put_bytes (bdata x) (dip_off i) (replicate 64 0)) (dip_off i) ty\<rparr>) s)) (\<lambda>s.
             obind (brelse bp s) (\<lambda>s.
             obind (iget dev i s) (\<lambda>(ip, s). Ok (Some ip, s))))
        else obind (brelse bp s) (\<lambda>s. ialloc_loop k (i + 1) dev ty s)))"

definition ialloc :: "u32 \<Rightarrow> u16 \<Rightarrow> 'z fstate_scheme \<Rightarrow> (nat option \<times> 'z fstate_scheme) outcome" where
  "ialloc dev ty s = ialloc_loop (Suc (unat (ninodes (sblk s)))) 1 dev ty s"

definition iupdate :: "nat \<Rightarrow> 'z fstate_scheme \<Rightarrow> 'z fstate_scheme outcome" where
  "iupdate ip s =
     (let x = itab s ip in
      obind (bread (idev x) (IBLOCK (inum x) (sblk s)) s) (\<lambda>(bp, s).
      obind (log_write bp (upd bp (\<lambda>b. b\<lparr>bdata := dinode_store x (dip_off (inum x)) (bdata b)\<rparr>) s)) (\<lambda>s.
      brelse bp s)))"

definition idup :: "nat \<Rightarrow> 'z fstate_scheme \<Rightarrow> 'z fstate_scheme" where
  "idup ip s = updi ip (\<lambda>x. x\<lparr>iref := iref x + 1\<rparr>) s"

definition ilock :: "nat \<Rightarrow> 'z fstate_scheme \<Rightarrow> 'z fstate_scheme outcome" where
  "ilock ip s =
     (if iref (itab s ip) < 1 then Panic ''ilock''
      else obind (acquiresleep (curpid s) (ilk (itab s ip))) (\<lambda>lk.
        let s = updi ip (\<lambda>x. x\<lparr>ilk := lk\<rparr>) s; x = itab s ip in
        if ivalid x then Ok s
        else obind (bread (idev x) (IBLOCK (inum x) (sblk s)) s) (\<lambda>(bp, s).
          let s = updi ip (dinode_load (bdata (bufs s bp)) (dip_off (inum x))) s in
          obind (brelse bp s) (\<lambda>s.
          let s = updi ip (\<lambda>x. x\<lparr>ivalid := True\<rparr>) s in
          if itype (itab s ip) = 0 then Panic ''ilock: no type'' else Ok s))))"

definition iunlock :: "nat \<Rightarrow> 'z fstate_scheme \<Rightarrow> 'z fstate_scheme outcome" where
  "iunlock ip s =
     (if \<not> holdingsleep (curpid s) (ilk (itab s ip)) \<or> iref (itab s ip) < 1 then Panic ''iunlock''
      else Ok (updi ip (\<lambda>x. x\<lparr>ilk := releasesleep (ilk x)\<rparr>) s))"

section \<open>Inode contents\<close>

definition bmap :: "nat \<Rightarrow> u32 \<Rightarrow> 'z fstate_scheme \<Rightarrow> (u32 \<times> 'z fstate_scheme) outcome" where
  "bmap ip bn s =
     (if unat bn < NDIRECT then
        (let addr = iaddrs (itab s ip) (unat bn) in
         if addr = 0
         then obind (balloc (idev (itab s ip)) s) (\<lambda>(addr, s).
              if addr = 0 then Ok (0, s)
              else Ok (addr, updi ip (\<lambda>x. x\<lparr>iaddrs := (iaddrs x)(unat bn := addr)\<rparr>) s))
         else Ok (addr, s))
      else let bn = unat bn - NDIRECT in
      if bn < NINDIRECT then
        obind (if iaddrs (itab s ip) NDIRECT = 0
               then obind (balloc (idev (itab s ip)) s) (\<lambda>(addr, s).
                    if addr = 0 then Ok (0, s)
                    else Ok (addr, updi ip (\<lambda>x. x\<lparr>iaddrs := (iaddrs x)(NDIRECT := addr)\<rparr>) s))
               else Ok (iaddrs (itab s ip) NDIRECT, s)) (\<lambda>(addr, s).
        if addr = 0 then Ok (0, s)
        else obind (bread (idev (itab s ip)) addr s) (\<lambda>(bp, s).
          let addr = get32 (bdata (bufs s bp)) (4 * bn) in
          obind (if addr = 0
                 then obind (balloc (idev (itab s ip)) s) (\<lambda>(addr, s).
                      if addr \<noteq> 0
                      then obind (log_write bp (upd bp (\<lambda>x. x\<lparr>bdata := put32 (bdata x) (4 * bn) addr\<rparr>) s)) (\<lambda>s. Ok (addr, s))
                      else Ok (0, s))
                 else Ok (addr, s)) (\<lambda>(addr, s).
          obind (brelse bp s) (\<lambda>s. Ok (addr, s)))))
      else Panic ''bmap: out of range'')"

primrec itrunc_direct :: "nat \<Rightarrow> nat \<Rightarrow> nat \<Rightarrow> 'z fstate_scheme \<Rightarrow> 'z fstate_scheme outcome" where
  "itrunc_direct 0 i ip s = Ok s"
| "itrunc_direct (Suc k) i ip s =
     (if iaddrs (itab s ip) i \<noteq> 0
      then obind (bfree (idev (itab s ip)) (iaddrs (itab s ip) i) s) (\<lambda>s.
           itrunc_direct k (Suc i) ip (updi ip (\<lambda>x. x\<lparr>iaddrs := (iaddrs x)(i := 0)\<rparr>) s))
      else itrunc_direct k (Suc i) ip s)"

primrec itrunc_indirect :: "nat \<Rightarrow> nat \<Rightarrow> nat \<Rightarrow> nat \<Rightarrow> 'z fstate_scheme \<Rightarrow> 'z fstate_scheme outcome" where
  "itrunc_indirect 0 j bp ip s = Ok s"
| "itrunc_indirect (Suc k) j bp ip s =
     (let a = get32 (bdata (bufs s bp)) (4 * j) in
      if a \<noteq> 0 then obind (bfree (idev (itab s ip)) a s) (\<lambda>s. itrunc_indirect k (Suc j) bp ip s)
      else itrunc_indirect k (Suc j) bp ip s)"

definition itrunc :: "nat \<Rightarrow> 'z fstate_scheme \<Rightarrow> 'z fstate_scheme outcome" where
  "itrunc ip s =
     obind (itrunc_direct NDIRECT 0 ip s) (\<lambda>s.
     obind (if iaddrs (itab s ip) NDIRECT \<noteq> 0
            then obind (bread (idev (itab s ip)) (iaddrs (itab s ip) NDIRECT) s) (\<lambda>(bp, s).
                 obind (itrunc_indirect NINDIRECT 0 bp ip s) (\<lambda>s.
                 obind (brelse bp s) (\<lambda>s.
                 obind (bfree (idev (itab s ip)) (iaddrs (itab s ip) NDIRECT) s) (\<lambda>s.
                 Ok (updi ip (\<lambda>x. x\<lparr>iaddrs := (iaddrs x)(NDIRECT := 0)\<rparr>) s)))))
            else Ok s) (\<lambda>s.
     iupdate ip (updi ip (\<lambda>x. x\<lparr>isize := 0\<rparr>) s)))"

definition iput :: "nat \<Rightarrow> 'z fstate_scheme \<Rightarrow> 'z fstate_scheme outcome" where
  "iput ip s =
     obind (if iref (itab s ip) = 1 \<and> ivalid (itab s ip) \<and> inlink (itab s ip) = 0
            then obind (acquiresleep (curpid s) (ilk (itab s ip))) (\<lambda>lk.
                 obind (itrunc ip (updi ip (\<lambda>x. x\<lparr>ilk := lk\<rparr>) s)) (\<lambda>s.
                 obind (iupdate ip (updi ip (\<lambda>x. x\<lparr>itype := 0\<rparr>) s)) (\<lambda>s.
                 Ok (updi ip (\<lambda>x. x\<lparr>ivalid := False, ilk := releasesleep (ilk x)\<rparr>) s))))
            else Ok s) (\<lambda>s.
     Ok (updi ip (\<lambda>x. x\<lparr>iref := iref x - 1\<rparr>) s))"

definition iunlockput :: "nat \<Rightarrow> 'z fstate_scheme \<Rightarrow> 'z fstate_scheme outcome" where
  "iunlockput ip s = obind (iunlock ip s) (\<lambda>s. iput ip s)"

text \<open>\<^verbatim>\<open>struct stat\<close>.\<close>

record stat =
  st_dev :: u32
  st_ino :: u32
  st_type :: u16
  st_nlink :: u16
  st_size :: u64

definition stati :: "nat \<Rightarrow> 'z fstate_scheme \<Rightarrow> stat" where
  "stati ip s = (let x = itab s ip in
     \<lparr>st_dev = idev x, st_ino = inum x, st_type = itype x, st_nlink = inlink x, st_size = ucast (isize x)\<rparr>)"

text \<open>\<^verbatim>\<open>either_copyout\<close> and \<^verbatim>\<open>either_copyin\<close> of \<^verbatim>\<open>kernel/proc.c\<close>.\<close>

definition either_copyout :: "bool \<Rightarrow> u64 \<Rightarrow> byte list \<Rightarrow> 'z fstate_scheme \<Rightarrow> (int \<times> 'z fstate_scheme) outcome" where
  "either_copyout user_dst dst src s =
     (if user_dst then copyout (cur_pt s) dst src s
      else Ok (0, s\<lparr>pmem := store (pmem s) dst src\<rparr>))"

text \<open>
  What \<^verbatim>\<open>copyin\<close> has stored at \<^verbatim>\<open>dst\<close> when it returns: everything, or the bytes of the pages before the
  first one that is not mapped.
\<close>

function copyin_part :: "addr \<Rightarrow> u64 \<Rightarrow> nat \<Rightarrow> 'z kmem_scheme \<Rightarrow> (int \<times> byte list) outcome" where
  "copyin_part pagetable srcva len s =
     (if len = 0 then Ok (0, [])
      else let va0 = PGROUNDDOWN srcva in
        obind (walkaddr pagetable va0 s) (\<lambda>pa0.
          if pa0 = 0 then Ok (-1, [])
          else let n = min (page_room srcva) len in
            obind (copyin_part pagetable (va0 + PGSIZE) (len - n) s) (\<lambda>(r, bs).
              Ok (r, load (pmem s) (pa0 + (srcva - va0)) n @ bs))))"
  by pat_completeness auto
termination
  by (relation "measure (\<lambda>(pagetable, srcva, len, s). len)")
    (use page_room_pos in \<open>auto simp: Let_def\<close>)

declare copyin_part.simps [simp del]

definition either_copyin :: "bool \<Rightarrow> u64 \<Rightarrow> nat \<Rightarrow> 'z fstate_scheme \<Rightarrow> (int \<times> byte list) outcome" where
  "either_copyin user_src src len s =
     (if user_src then copyin_part (cur_pt s) src len s
      else Ok (0, load (pmem s) src len))"

text \<open>\<^verbatim>\<open>min(n - tot, BSIZE - off%BSIZE)\<close>, the bytes one iteration moves.\<close>

definition rw_m :: "u32 \<Rightarrow> u32 \<Rightarrow> u32 \<Rightarrow> u32" where
  "rw_m n tot off = min (n - tot) (of_nat BSIZE - off mod of_nat BSIZE)"

primrec readi_loop :: "nat \<Rightarrow> nat \<Rightarrow> bool \<Rightarrow> u64 \<Rightarrow> u32 \<Rightarrow> u32 \<Rightarrow> u32 \<Rightarrow> 'z fstate_scheme \<Rightarrow> (u32 \<times> 'z fstate_scheme) outcome" where
  "readi_loop 0 ip user_dst dst off n tot s = Blocks"
| "readi_loop (Suc k) ip user_dst dst off n tot s =
     (if \<not> tot < n then Ok (tot, s)
      else obind (bmap ip (off div of_nat BSIZE) s) (\<lambda>(addr, s).
        if addr = 0 then Ok (tot, s)
        else obind (bread (idev (itab s ip)) addr s) (\<lambda>(bp, s).
          let m = rw_m n tot off in
          obind (either_copyout user_dst dst (get_bytes (bdata (bufs s bp)) (unat (off mod of_nat BSIZE)) (unat m)) s) (\<lambda>(r, s).
          obind (brelse bp s) (\<lambda>s.
          if r = -1 then Ok (-1, s)
          else readi_loop k ip user_dst (dst + ucast m) (off + m) n (tot + m) s)))))"

definition readi :: "nat \<Rightarrow> bool \<Rightarrow> u64 \<Rightarrow> u32 \<Rightarrow> u32 \<Rightarrow> 'z fstate_scheme \<Rightarrow> (u32 \<times> 'z fstate_scheme) outcome" where
  "readi ip user_dst dst off n s =
     (if isize (itab s ip) < off \<or> off + n < off then Ok (0, s)
      else let n = (if isize (itab s ip) < off + n then isize (itab s ip) - off else n) in
        readi_loop (Suc (unat n)) ip user_dst dst off n 0 s)"

text \<open>The loop of \<^verbatim>\<open>writei\<close> returns \<^verbatim>\<open>tot\<close> and the final \<^verbatim>\<open>off\<close>.\<close>

primrec writei_loop :: "nat \<Rightarrow> nat \<Rightarrow> bool \<Rightarrow> u64 \<Rightarrow> u32 \<Rightarrow> u32 \<Rightarrow> u32 \<Rightarrow> 'z fstate_scheme \<Rightarrow> (u32 \<times> u32 \<times> 'z fstate_scheme) outcome" where
  "writei_loop 0 ip user_src src off n tot s = Blocks"
| "writei_loop (Suc k) ip user_src src off n tot s =
     (if \<not> tot < n then Ok (tot, off, s)
      else obind (bmap ip (off div of_nat BSIZE) s) (\<lambda>(addr, s).
        if addr = 0 then Ok (tot, off, s)
        else obind (bread (idev (itab s ip)) addr s) (\<lambda>(bp, s).
          let m = rw_m n tot off in
          obind (either_copyin user_src src (unat m) s) (\<lambda>(r, bs).
          let s = upd bp (\<lambda>x. x\<lparr>bdata := put_bytes (bdata x) (unat (off mod of_nat BSIZE)) bs\<rparr>) s in
          if r = -1 then obind (brelse bp s) (\<lambda>s. Ok (tot, off, s))
          else obind (log_write bp s) (\<lambda>s.
               obind (brelse bp s) (\<lambda>s.
               writei_loop k ip user_src (src + ucast m) (off + m) n (tot + m) s))))))"

text \<open>The result of -1 is \<open>None\<close>.\<close>

definition writei :: "nat \<Rightarrow> bool \<Rightarrow> u64 \<Rightarrow> u32 \<Rightarrow> u32 \<Rightarrow> 'z fstate_scheme \<Rightarrow> (u32 option \<times> 'z fstate_scheme) outcome" where
  "writei ip user_src src off n s =
     (if isize (itab s ip) < off \<or> off + n < off then Ok (None, s)
      else if unat (off + n) > MAXFILE * BSIZE then Ok (None, s)
      else obind (writei_loop (Suc (unat n)) ip user_src src off n 0 s) (\<lambda>(tot, off, s).
        let s = (if isize (itab s ip) < off then updi ip (\<lambda>x. x\<lparr>isize := off\<rparr>) s else s) in
        obind (iupdate ip s) (\<lambda>s. Ok (Some tot, s))))"

section \<open>Directories\<close>

text \<open>\<^verbatim>\<open>struct dirent\<close>: two bytes of inode number and \<open>DIRSIZ\<close> bytes of name.\<close>

definition de_inum :: "byte list \<Rightarrow> u16" where
  "de_inum de = le_word (take 2 de)"

definition de_name :: "byte list \<Rightarrow> byte list" where
  "de_name de = drop 2 de"

definition de_bytes :: "u16 \<Rightarrow> byte list \<Rightarrow> byte list" where
  "de_bytes i nm = le_bytes 2 i @ strncpy_l DIRSIZ nm"

definition namecmp :: "byte list \<Rightarrow> byte list \<Rightarrow> int" where
  "namecmp s t = strncmp_l DIRSIZ s t"

text \<open>\<^verbatim>\<open>readi(dp, 0, (uint64)&de, off, sizeof(de))\<close> and the check of its result.\<close>

definition read_de :: "string \<Rightarrow> nat \<Rightarrow> u32 \<Rightarrow> 'z fstate_scheme \<Rightarrow> (byte list \<times> 'z fstate_scheme) outcome" where
  "read_de msg dp off s =
     obind (readi dp False (kscr s) off 16 s) (\<lambda>(r, s).
     if r \<noteq> 16 then Panic msg else Ok (load (pmem s) (kscr s) 16, s))"

primrec dirlookup_loop :: "nat \<Rightarrow> u32 \<Rightarrow> nat \<Rightarrow> byte list \<Rightarrow> 'z fstate_scheme \<Rightarrow> ((nat \<times> u32) option \<times> 'z fstate_scheme) outcome" where
  "dirlookup_loop 0 off dp nm s = Blocks"
| "dirlookup_loop (Suc k) off dp nm s =
     (if \<not> off < isize (itab s dp) then Ok (None, s)
      else obind (read_de ''dirlookup read'' dp off s) (\<lambda>(de, s).
        if de_inum de \<noteq> 0 \<and> namecmp nm (de_name de) = 0
        then obind (iget (idev (itab s dp)) (ucast (de_inum de)) s) (\<lambda>(ip, s). Ok (Some (ip, off), s))
        else dirlookup_loop k (off + 16) dp nm s))"

definition dirlookup :: "nat \<Rightarrow> byte list \<Rightarrow> 'z fstate_scheme \<Rightarrow> ((nat \<times> u32) option \<times> 'z fstate_scheme) outcome" where
  "dirlookup dp nm s =
     (if itype (itab s dp) \<noteq> T_DIR then Panic ''dirlookup not DIR''
      else dirlookup_loop (unat (isize (itab s dp)) div 16 + 2) 0 dp nm s)"

text \<open>The search for an empty entry in \<^verbatim>\<open>dirlink\<close>; the result is the final \<^verbatim>\<open>off\<close>.\<close>

primrec dirlink_loop :: "nat \<Rightarrow> u32 \<Rightarrow> nat \<Rightarrow> 'z fstate_scheme \<Rightarrow> (u32 \<times> 'z fstate_scheme) outcome" where
  "dirlink_loop 0 off dp s = Blocks"
| "dirlink_loop (Suc k) off dp s =
     (if \<not> off < isize (itab s dp) then Ok (off, s)
      else obind (read_de ''dirlink read'' dp off s) (\<lambda>(de, s).
        if de_inum de = 0 then Ok (off, s) else dirlink_loop k (off + 16) dp s))"

definition dirlink :: "nat \<Rightarrow> byte list \<Rightarrow> u32 \<Rightarrow> 'z fstate_scheme \<Rightarrow> (int \<times> 'z fstate_scheme) outcome" where
  "dirlink dp nm i s =
     obind (dirlookup dp nm s) (\<lambda>(r, s).
     case r of
       Some (ip, _) \<Rightarrow> obind (iput ip s) (\<lambda>s. Ok (-1, s))
     | None \<Rightarrow>
         obind (dirlink_loop (unat (isize (itab s dp)) div 16 + 2) 0 dp s) (\<lambda>(off, s).
         let s = s\<lparr>pmem := store (pmem s) (kscr s) (de_bytes (ucast i) nm)\<rparr> in
         obind (writei dp False (kscr s) off 16 s) (\<lambda>(r, s).
         if r \<noteq> Some 16 then Ok (-1, s) else Ok (0, s))))"

section \<open>Paths\<close>

definition SLASH :: byte where [simp]: "SLASH = 47"

text \<open>The path and the element are the C strings without their terminators; the result is the rest and the element.\<close>

definition skipelem :: "byte list \<Rightarrow> (byte list \<times> byte list) option" where
  "skipelem path =
     (let s = dropWhile (\<lambda>c. c = SLASH) path in
      if s = [] then None
      else let e = takeWhile (\<lambda>c. c \<noteq> SLASH) s;
               rest = dropWhile (\<lambda>c. c \<noteq> SLASH) s;
               nm = (if length e \<ge> DIRSIZ then take DIRSIZ e else e) in
           Some (dropWhile (\<lambda>c. c = SLASH) rest, nm))"

lemma skipelem_shorter: "skipelem path = Some (rest, nm) \<Longrightarrow> length rest < length path"
proof -
  assume a: "skipelem path = Some (rest, nm)"
  define t where "t = dropWhile (\<lambda>c. c = SLASH) path"
  have t: "t \<noteq> []" "rest = dropWhile (\<lambda>c. c = SLASH) (dropWhile (\<lambda>c. c \<noteq> SLASH) t)"
    using a by (auto simp: skipelem_def t_def Let_def split: if_splits)
  have h: "hd t \<noteq> SLASH" using t(1) hd_dropWhile [of "\<lambda>c. c = SLASH" path] by (simp add: t_def)
  have "length (dropWhile (\<lambda>c. c \<noteq> SLASH) t) < length t"
    using t(1) h by (cases t) (auto simp: le_imp_less_Suc length_dropWhile_le)
  moreover have "length rest \<le> length (dropWhile (\<lambda>c. c \<noteq> SLASH) t)" unfolding t(2) by (rule length_dropWhile_le)
  moreover have "length t \<le> length path" unfolding t_def by (rule length_dropWhile_le)
  ultimately show ?thesis by linarith
qed

function namex_loop :: "byte list \<Rightarrow> bool \<Rightarrow> nat \<Rightarrow> byte list \<Rightarrow> 'z fstate_scheme \<Rightarrow> ((nat option \<times> byte list) \<times> 'z fstate_scheme) outcome" where
  "namex_loop path parent ip nm s =
     (case skipelem path of
        None \<Rightarrow> if parent then obind (iput ip s) (\<lambda>s. Ok ((None, nm), s)) else Ok ((Some ip, nm), s)
      | Some (rest, nm) \<Rightarrow>
          obind (ilock ip s) (\<lambda>s.
          if itype (itab s ip) \<noteq> T_DIR then obind (iunlockput ip s) (\<lambda>s. Ok ((None, nm), s))
          else if parent \<and> rest = [] then obind (iunlock ip s) (\<lambda>s. Ok ((Some ip, nm), s))
          else obind (dirlookup ip nm s) (\<lambda>(r, s).
            case r of
              None \<Rightarrow> obind (iunlockput ip s) (\<lambda>s. Ok ((None, nm), s))
            | Some (nxt, _) \<Rightarrow> obind (iunlockput ip s) (\<lambda>s. namex_loop rest parent nxt nm s))))"
  by pat_completeness auto
termination
  by (relation "measure (\<lambda>(path, parent, ip, nm, s). length path)") (auto intro: skipelem_shorter)

declare namex_loop.simps [simp del]

definition namex :: "byte list \<Rightarrow> bool \<Rightarrow> 'z fstate_scheme \<Rightarrow> ((nat option \<times> byte list) \<times> 'z fstate_scheme) outcome" where
  "namex path parent s =
     obind (if path \<noteq> [] \<and> hd path = SLASH then iget ROOTDEV ROOTINO s
            else Ok (cur_cwd s, idup (cur_cwd s) s)) (\<lambda>(ip, s).
     namex_loop path parent ip [] s)"

definition namei :: "byte list \<Rightarrow> 'z fstate_scheme \<Rightarrow> (nat option \<times> 'z fstate_scheme) outcome" where
  "namei path s = obind (namex path False s) (\<lambda>((ip, nm), s). Ok (ip, s))"

definition nameiparent :: "byte list \<Rightarrow> 'z fstate_scheme \<Rightarrow> ((nat option \<times> byte list) \<times> 'z fstate_scheme) outcome" where
  "nameiparent path s = namex path True s"

end
