(* ===== verification/Proc.thy ===== *)
theory Proc
  imports Fs Spinlock
begin

text \<open>
  Processes, \<^verbatim>\<open>kernel/proc.c\<close> (\<^verbatim>\<open>fork\<close> and \<^verbatim>\<open>exit\<close>, which also need the file table, are in the theory
  \<open>Fork\<close>). A pointer to a process is its index in \<^verbatim>\<open>proc[]\<close>. A section that runs under \<^verbatim>\<open>p->lock\<close> or
  \<^verbatim>\<open>wait_lock\<close> is one definition; the locks are explicit only where the code checks them, in
  \<^verbatim>\<open>sched\<close> and around it. A call that gives up the CPU is cut at \<^verbatim>\<open>swtch\<close>: the half before it and,
  with the suffix \<open>_back\<close>, the half after it. The addresses of kernel code are fields of the state.
\<close>

section \<open>State\<close>

datatype procstate = UNUSED | USED | SLEEPING | RUNNABLE | RUNNING | ZOMBIE

text \<open>The addresses processes sleep on.\<close>

datatype chan = Ch_none | Ch_proc nat | Ch_nread addr | Ch_nwrite addr | Ch_ticks | Ch_log | Ch_sleeplock nat
  | Ch_uart_tx | Ch_cons | Ch_disk_free | Ch_disk nat

record proc =
  p_lock :: spinlock
  p_state :: procstate
  p_chan :: chan
  p_killed :: bool
  p_xstate :: u32
  p_pid :: int
  p_parent :: "nat option"
  p_kstack :: u64
  p_sz :: u64
  p_pagetable :: addr
  p_trapframe :: addr
  p_context :: kcontext
  p_ofile :: "nat \<Rightarrow> nat option"
  p_cwd :: "nat option"
  p_name :: "byte list"

record pstate = fstate +
  procs :: "nat \<Rightarrow> proc"
  curp :: nat
  initproc :: "nat option"
  nextpid :: int
  cpus :: "nat \<Rightarrow> cpu"
  hart :: nat
  regs :: kcontext
  first_run :: bool
  sym_trampoline :: u64
  sym_forkret :: u64

definition updp :: "nat \<Rightarrow> (proc \<Rightarrow> proc) \<Rightarrow> 'z pstate_scheme \<Rightarrow> 'z pstate_scheme" where
  "updp i f s = s\<lparr>procs := (procs s)(i := f (procs s i))\<rparr>"

text \<open>A kernel access through a null pointer faults, and \<^verbatim>\<open>kerneltrap\<close> panics.\<close>

definition null_fault :: "'a outcome" where
  "null_fault = Panic ''kerneltrap''"

section \<open>Initialisation and the current process\<close>

primrec procinit_loop :: "nat \<Rightarrow> 'z pstate_scheme \<Rightarrow> 'z pstate_scheme" where
  "procinit_loop 0 s = s"
| "procinit_loop (Suc i) s =
     updp i (\<lambda>p. p\<lparr>p_lock := initlock (p_lock p) ''proc'', p_state := UNUSED, p_kstack := KSTACK i\<rparr>) (procinit_loop i s)"

definition procinit :: "'z pstate_scheme \<Rightarrow> 'z pstate_scheme" where
  "procinit s = procinit_loop NPROC s"

definition mycpu :: "'z pstate_scheme \<Rightarrow> cpu" where
  "mycpu s = cpus s (hart s)"

definition set_cpu :: "cpu \<Rightarrow> 'z pstate_scheme \<Rightarrow> 'z pstate_scheme" where
  "set_cpu c s = s\<lparr>cpus := (cpus s)(hart s := c)\<rparr>"

definition myproc :: "'z pstate_scheme \<Rightarrow> (nat option \<times> 'z pstate_scheme) outcome" where
  "myproc s =
     (let c = push_off (mycpu s); p = cpu_proc c in
      obind (pop_off c) (\<lambda>c. Ok (p, set_cpu c s)))"

definition allocpid :: "'z pstate_scheme \<Rightarrow> int \<times> 'z pstate_scheme" where
  "allocpid s = (nextpid s, s\<lparr>nextpid := nextpid s + 1\<rparr>)"

section \<open>Page tables of processes\<close>

definition proc_pagetable :: "nat \<Rightarrow> 'z pstate_scheme \<Rightarrow> (addr \<times> 'z pstate_scheme) outcome" where
  "proc_pagetable p s =
     (let (pagetable, s) = uvmcreate s in
      if pagetable = 0 then Ok (0, s)
      else obind (mappages pagetable TRAMPOLINE PGSIZE (sym_trampoline s) (PTE_R OR PTE_X) s) (\<lambda>(r, s).
        if r < 0 then obind (uvmfree pagetable 0 s) (\<lambda>s. Ok (0, s))
        else obind (mappages pagetable TRAPFRAME PGSIZE (p_trapframe (procs s p)) (PTE_R OR PTE_W) s) (\<lambda>(r, s).
          if r < 0
          then obind (uvmunmap pagetable TRAMPOLINE 1 False s) (\<lambda>s.
               obind (uvmfree pagetable 0 s) (\<lambda>s. Ok (0, s)))
          else Ok (pagetable, s))))"

definition proc_freepagetable :: "addr \<Rightarrow> u64 \<Rightarrow> 'z kmem_scheme \<Rightarrow> 'z kmem_scheme outcome" where
  "proc_freepagetable pagetable sz s =
     obind (uvmunmap pagetable TRAMPOLINE 1 False s) (\<lambda>s.
     obind (uvmunmap pagetable TRAPFRAME 1 False s) (\<lambda>s.
     uvmfree pagetable sz s))"

definition freeproc :: "nat \<Rightarrow> 'z pstate_scheme \<Rightarrow> 'z pstate_scheme outcome" where
  "freeproc p s =
     obind (if p_trapframe (procs s p) \<noteq> 0 then kfree (p_trapframe (procs s p)) s else Ok s) (\<lambda>s.
     let s = updp p (\<lambda>x. x\<lparr>p_trapframe := 0\<rparr>) s in
     obind (if p_pagetable (procs s p) \<noteq> 0
            then proc_freepagetable (p_pagetable (procs s p)) (p_sz (procs s p)) s else Ok s) (\<lambda>s.
     Ok (updp p (\<lambda>x. x\<lparr>p_pagetable := 0, p_sz := 0, p_pid := 0, p_parent := None, p_name := [], p_chan := Ch_none,
                       p_killed := False, p_xstate := 0, p_state := UNUSED\<rparr>) s)))"

definition zero_context :: kcontext where
  "zero_context = \<lparr>ctx_ra = 0, ctx_sp = 0, ctx_s = replicate 12 0\<rparr>"

definition allocproc :: "'z pstate_scheme \<Rightarrow> (nat option \<times> 'z pstate_scheme) outcome" where
  "allocproc s =
     (case find (\<lambda>i. p_state (procs s i) = UNUSED) [0..<NPROC] of
        None \<Rightarrow> Ok (None, s)
      | Some p \<Rightarrow>
          let (pid, s) = allocpid s;
              s = updp p (\<lambda>x. x\<lparr>p_pid := pid, p_state := USED\<rparr>) s;
              (tf, s) = kalloc s;
              s = updp p (\<lambda>x. x\<lparr>p_trapframe := tf\<rparr>) s in
          if tf = 0 then obind (freeproc p s) (\<lambda>s. Ok (None, s))
          else obind (proc_pagetable p s) (\<lambda>(pt, s).
            let s = updp p (\<lambda>x. x\<lparr>p_pagetable := pt\<rparr>) s in
            if pt = 0 then obind (freeproc p s) (\<lambda>s. Ok (None, s))
            else Ok (Some p, updp p (\<lambda>x. x\<lparr>p_context := zero_context\<lparr>ctx_ra := sym_forkret s, ctx_sp := p_kstack x + PGSIZE\<rparr>\<rparr>) s)))"

definition initcode :: "byte list" where
  "initcode =
    [0x17, 0x05, 0x00, 0x00, 0x13, 0x05, 0x45, 0x02,
     0x97, 0x05, 0x00, 0x00, 0x93, 0x85, 0x35, 0x02,
     0x93, 0x08, 0x70, 0x00, 0x73, 0x00, 0x00, 0x00,
     0x93, 0x08, 0x20, 0x00, 0x73, 0x00, 0x00, 0x00,
     0xef, 0xf0, 0x9f, 0xff, 0x2f, 0x69, 0x6e, 0x69,
     0x74, 0x00, 0x00, 0x24, 0x00, 0x00, 0x00, 0x00,
     0x00, 0x00, 0x00, 0x00]"

text \<open>Fields of the trap frame, by their offsets in \<^verbatim>\<open>struct trapframe\<close>.\<close>

definition tf_get :: "nat \<Rightarrow> nat \<Rightarrow> 'z pstate_scheme \<Rightarrow> u64" where
  "tf_get p off s = load64 (pmem s) (p_trapframe (procs s p) + of_nat off)"

definition tf_set :: "nat \<Rightarrow> nat \<Rightarrow> u64 \<Rightarrow> 'z pstate_scheme \<Rightarrow> 'z pstate_scheme" where
  "tf_set p off v s = s\<lparr>pmem := store64 (pmem s) (p_trapframe (procs s p) + of_nat off) v\<rparr>"

definition TF_epc :: nat where [simp]: "TF_epc = 24"
definition TF_sp :: nat where [simp]: "TF_sp = 48"
definition TF_a0 :: nat where [simp]: "TF_a0 = 112"
definition TF_a1 :: nat where [simp]: "TF_a1 = 120"
definition TF_a7 :: nat where [simp]: "TF_a7 = 168"

text \<open>A string literal as C bytes.\<close>

definition cbytes :: "string \<Rightarrow> byte list" where
  "cbytes = map of_char"

definition userinit :: "'z pstate_scheme \<Rightarrow> 'z pstate_scheme outcome" where
  "userinit s =
     obind (allocproc s) (\<lambda>(r, s).
     let s = s\<lparr>initproc := r\<rparr> in
     case r of
       None \<Rightarrow> null_fault
     | Some p \<Rightarrow>
         obind (uvmfirst (p_pagetable (procs s p)) initcode s) (\<lambda>s.
         let s = updp p (\<lambda>x. x\<lparr>p_sz := PGSIZE\<rparr>) s;
             s = tf_set p TF_epc 0 s;
             s = tf_set p TF_sp PGSIZE s;
             s = updp p (\<lambda>x. x\<lparr>p_name := cbytes ''initcode''\<rparr>) s in
         obind (namei [SLASH] s) (\<lambda>(cwd, s).
         Ok (updp p (\<lambda>x. x\<lparr>p_cwd := cwd, p_state := RUNNABLE\<rparr>) s))))"

definition growproc :: "int \<Rightarrow> 'z pstate_scheme \<Rightarrow> (int \<times> 'z pstate_scheme) outcome" where
  "growproc n s =
     (let p = curp s; sz = p_sz (procs s p); pt = p_pagetable (procs s p) in
      if n > 0
      then obind (uvmalloc pt sz (sz + word_of_int n) PTE_W s) (\<lambda>(sz, s).
           if sz = 0 then Ok (-1, s) else Ok (0, updp p (\<lambda>x. x\<lparr>p_sz := sz\<rparr>) s))
      else if n < 0
      then obind (uvmdealloc pt sz (sz + word_of_int n) s) (\<lambda>(sz, s).
           Ok (0, updp p (\<lambda>x. x\<lparr>p_sz := sz\<rparr>) s))
      else Ok (0, updp p (\<lambda>x. x\<lparr>p_sz := sz\<rparr>) s))"

section \<open>Sleep and wakeup\<close>

definition wakeup_one :: "nat \<Rightarrow> chan \<Rightarrow> 'z pstate_scheme \<Rightarrow> 'z pstate_scheme" where
  "wakeup_one i ch s =
     (if cpu_proc (mycpu s) \<noteq> Some i \<and> p_state (procs s i) = SLEEPING \<and> p_chan (procs s i) = ch
      then updp i (\<lambda>x. x\<lparr>p_state := RUNNABLE\<rparr>) s else s)"

primrec wakeup_loop :: "nat \<Rightarrow> chan \<Rightarrow> 'z pstate_scheme \<Rightarrow> 'z pstate_scheme" where
  "wakeup_loop 0 ch s = s"
| "wakeup_loop (Suc i) ch s = wakeup_one i ch (wakeup_loop i ch s)"

definition wakeup :: "chan \<Rightarrow> 'z pstate_scheme \<Rightarrow> 'z pstate_scheme" where
  "wakeup ch s = wakeup_loop NPROC ch s"

text \<open>\<^verbatim>\<open>swtch.S\<close>: save the callee-saved registers in \<^verbatim>\<open>old\<close>, load them from \<^verbatim>\<open>new\<close>.\<close>

definition swtch :: "kcontext \<Rightarrow> kcontext \<Rightarrow> kcontext \<times> kcontext" where
  "swtch now new = (now, new)"

definition sched :: "'z pstate_scheme \<Rightarrow> 'z pstate_scheme outcome" where
  "sched s =
     (let p = curp s; c = mycpu s in
      if \<not> holding (hart s) (p_lock (procs s p)) then Panic ''sched p->lock''
      else if noff c \<noteq> 1 then Panic ''sched locks''
      else if p_state (procs s p) = RUNNING then Panic ''sched running''
      else if intr_get c then Panic ''sched interruptible''
      else let (old, now) = swtch (regs s) (cpu_context c) in
           Ok ((updp p (\<lambda>x. x\<lparr>p_context := old\<rparr>) s)\<lparr>regs := now\<rparr>))"

text \<open>After \<^verbatim>\<open>swtch\<close> comes back, on any CPU: the saved \<^verbatim>\<open>intena\<close> is restored.\<close>

definition sched_back :: "bool \<Rightarrow> 'z pstate_scheme \<Rightarrow> 'z pstate_scheme" where
  "sched_back ena s = set_cpu ((mycpu s)\<lparr>intena := ena\<rparr>) s"

definition p_acquire :: "nat \<Rightarrow> 'z pstate_scheme \<Rightarrow> 'z pstate_scheme outcome" where
  "p_acquire p s = obind (acquire (hart s) (mycpu s) (p_lock (procs s p))) (\<lambda>(c, lk).
     Ok (updp p (\<lambda>x. x\<lparr>p_lock := lk\<rparr>) (set_cpu c s)))"

definition p_release :: "nat \<Rightarrow> 'z pstate_scheme \<Rightarrow> 'z pstate_scheme outcome" where
  "p_release p s = obind (release (hart s) (mycpu s) (p_lock (procs s p))) (\<lambda>(c, lk).
     Ok (updp p (\<lambda>x. x\<lparr>p_lock := lk\<rparr>) (set_cpu c s)))"

definition yield :: "'z pstate_scheme \<Rightarrow> 'z pstate_scheme outcome" where
  "yield s =
     obind (p_acquire (curp s) s) (\<lambda>s.
     sched (updp (curp s) (\<lambda>x. x\<lparr>p_state := RUNNABLE\<rparr>) s))"

definition yield_back :: "bool \<Rightarrow> 'z pstate_scheme \<Rightarrow> 'z pstate_scheme outcome" where
  "yield_back ena s = p_release (curp s) (sched_back ena s)"

definition sleep :: "chan \<Rightarrow> spinlock \<Rightarrow> 'z pstate_scheme \<Rightarrow> (spinlock \<times> 'z pstate_scheme) outcome" where
  "sleep ch lk s =
     obind (p_acquire (curp s) s) (\<lambda>s.
     obind (release (hart s) (mycpu s) lk) (\<lambda>(c, lk).
     let s = updp (curp s) (\<lambda>x. x\<lparr>p_chan := ch, p_state := SLEEPING\<rparr>) (set_cpu c s) in
     obind (sched s) (\<lambda>s. Ok (lk, s))))"

definition sleep_back :: "bool \<Rightarrow> spinlock \<Rightarrow> 'z pstate_scheme \<Rightarrow> (spinlock \<times> 'z pstate_scheme) outcome" where
  "sleep_back ena lk s =
     (let s = updp (curp s) (\<lambda>x. x\<lparr>p_chan := Ch_none\<rparr>) (sched_back ena s) in
      obind (p_release (curp s) s) (\<lambda>s.
      obind (acquire (hart s) (mycpu s) lk) (\<lambda>(c, lk). Ok (lk, set_cpu c s))))"

section \<open>The scheduler\<close>

text \<open>\<open>enter p\<close> makes \<open>p\<close> the process whose fields the file system sees as the caller's.\<close>

definition enter :: "nat \<Rightarrow> 'z pstate_scheme \<Rightarrow> 'z pstate_scheme" where
  "enter p s = s\<lparr>curp := p, curpid := p_pid (procs s p), cur_pt := p_pagetable (procs s p),
     cur_cwd := (case p_cwd (procs s p) of Some i \<Rightarrow> i | None \<Rightarrow> NINODE)\<rparr>"

text \<open>One iteration of the scan: the result says whether the CPU has switched to \<open>p\<close>.\<close>

definition scheduler_try :: "nat \<Rightarrow> 'z pstate_scheme \<Rightarrow> (bool \<times> 'z pstate_scheme) outcome" where
  "scheduler_try p s =
     obind (p_acquire p s) (\<lambda>s.
     if p_state (procs s p) = RUNNABLE
     then let s = updp p (\<lambda>x. x\<lparr>p_state := RUNNING\<rparr>) s;
              c = (mycpu s)\<lparr>cpu_proc := Some p\<rparr>;
              (old, now) = swtch (regs s) (p_context (procs s p)) in
          Ok (True, enter p ((set_cpu (c\<lparr>cpu_context := old\<rparr>) s)\<lparr>regs := now\<rparr>))
     else obind (p_release p s) (\<lambda>s. Ok (False, s)))"

definition scheduler_back :: "nat \<Rightarrow> 'z pstate_scheme \<Rightarrow> 'z pstate_scheme outcome" where
  "scheduler_back p s = p_release p (set_cpu ((mycpu s)\<lparr>cpu_proc := None\<rparr>) s)"

primrec scheduler_scan :: "nat \<Rightarrow> 'z pstate_scheme \<Rightarrow> (nat option \<times> 'z pstate_scheme) outcome" where
  "scheduler_scan 0 s = Ok (None, s)"
| "scheduler_scan (Suc k) s =
     obind (scheduler_try (NPROC - Suc k) s) (\<lambda>(run, s).
     if run then Ok (Some (NPROC - Suc k), s) else scheduler_scan k s)"

text \<open>One round of the outer loop, up to the first switch.\<close>

definition scheduler :: "'z pstate_scheme \<Rightarrow> (nat option \<times> 'z pstate_scheme) outcome" where
  "scheduler s = scheduler_scan NPROC (set_cpu (intr_on (mycpu s)) s)"

text \<open>\<^verbatim>\<open>forkret\<close> up to the jump to \<^verbatim>\<open>usertrapret\<close>.\<close>

definition forkret :: "'z pstate_scheme \<Rightarrow> 'z pstate_scheme outcome" where
  "forkret s =
     obind (p_release (curp s) s) (\<lambda>s.
     if first_run s then obind (fsinit ROOTDEV s) (\<lambda>s. Ok (s\<lparr>first_run := False\<rparr>)) else Ok s)"

section \<open>Killing and waiting\<close>

definition kill :: "int \<Rightarrow> 'z pstate_scheme \<Rightarrow> int \<times> 'z pstate_scheme" where
  "kill pid s =
     (case find (\<lambda>i. p_pid (procs s i) = pid) [0..<NPROC] of
        None \<Rightarrow> (-1, s)
      | Some i \<Rightarrow> (0, updp i (\<lambda>x. x\<lparr>p_killed := True,
                          p_state := (if p_state x = SLEEPING then RUNNABLE else p_state x)\<rparr>) s))"

definition setkilled :: "nat \<Rightarrow> 'z pstate_scheme \<Rightarrow> 'z pstate_scheme" where
  "setkilled p s = updp p (\<lambda>x. x\<lparr>p_killed := True\<rparr>) s"

definition killed :: "nat \<Rightarrow> 'z pstate_scheme \<Rightarrow> bool" where
  "killed p s = p_killed (procs s p)"

primrec reparent_loop :: "nat \<Rightarrow> nat \<Rightarrow> 'z pstate_scheme \<Rightarrow> 'z pstate_scheme" where
  "reparent_loop 0 p s = s"
| "reparent_loop (Suc i) p s =
     (let s = reparent_loop i p s in
      if p_parent (procs s i) = Some p
      then let s = updp i (\<lambda>x. x\<lparr>p_parent := initproc s\<rparr>) s in
           (case initproc s of Some ip \<Rightarrow> wakeup (Ch_proc ip) s | None \<Rightarrow> s)
      else s)"

definition reparent :: "nat \<Rightarrow> 'z pstate_scheme \<Rightarrow> 'z pstate_scheme" where
  "reparent p s = reparent_loop NPROC p s"

text \<open>The scan of \<^verbatim>\<open>wait\<close>: a return value, or whether the process has children.\<close>

primrec wait_scan :: "nat \<Rightarrow> nat \<Rightarrow> u64 \<Rightarrow> bool \<Rightarrow> 'z pstate_scheme \<Rightarrow> ((int + bool) \<times> 'z pstate_scheme) outcome" where
  "wait_scan 0 p a havekids s = Ok (Inr havekids, s)"
| "wait_scan (Suc k) p a havekids s =
     (let pp = NPROC - Suc k in
      if p_parent (procs s pp) = Some p
      then if p_state (procs s pp) = ZOMBIE
           then let pid = p_pid (procs s pp) in
                obind (if a \<noteq> 0 then copyout (p_pagetable (procs s p)) a (le_bytes 4 (p_xstate (procs s pp))) s else Ok (0, s)) (\<lambda>(r, s).
                if r < 0 then Ok (Inl (-1), s)
                else obind (freeproc pp s) (\<lambda>s. Ok (Inl pid, s)))
           else wait_scan k p a True s
      else wait_scan k p a havekids s)"

definition wait :: "u64 \<Rightarrow> 'z pstate_scheme \<Rightarrow> (int \<times> 'z pstate_scheme) outcome" where
  "wait a s =
     obind (wait_scan NPROC (curp s) a False s) (\<lambda>(r, s).
     case r of
       Inl v \<Rightarrow> Ok (v, s)
     | Inr havekids \<Rightarrow> if \<not> havekids \<or> killed (curp s) s then Ok (-1, s) else Blocks)"

text \<open>The lines \<^verbatim>\<open>procdump\<close> prints: pid, state and name.\<close>

fun state_name :: "procstate \<Rightarrow> string" where
  "state_name UNUSED = ''unused''"
| "state_name USED = ''used''"
| "state_name SLEEPING = ''sleep ''"
| "state_name RUNNABLE = ''runble''"
| "state_name RUNNING = ''run   ''"
| "state_name ZOMBIE = ''zombie''"

definition procdump :: "'z pstate_scheme \<Rightarrow> (int \<times> string \<times> byte list) list" where
  "procdump s = map (\<lambda>i. (p_pid (procs s i), state_name (p_state (procs s i)), p_name (procs s i)))
     (filter (\<lambda>i. p_state (procs s i) \<noteq> UNUSED) [0..<NPROC])"

section \<open>What wakeup does\<close>

definition awake :: "cpu \<Rightarrow> chan \<Rightarrow> nat \<Rightarrow> proc \<Rightarrow> proc" where
  "awake c ch i p = (if cpu_proc c \<noteq> Some i \<and> p_state p = SLEEPING \<and> p_chan p = ch then p\<lparr>p_state := RUNNABLE\<rparr> else p)"

lemma wakeup_one_eq: "wakeup_one i ch s = s\<lparr>procs := (procs s)(i := awake (mycpu s) ch i (procs s i))\<rparr>"
  by (simp add: wakeup_one_def awake_def updp_def)

lemma wakeup_loop_eq:
  "wakeup_loop n ch s = s\<lparr>procs := \<lambda>i. if i < n then awake (mycpu s) ch i (procs s i) else procs s i\<rparr>"
proof (induction n)
  case (Suc n)
  have c: "mycpu (wakeup_loop n ch s) = mycpu s" unfolding Suc by (simp add: mycpu_def)
  show ?case
    unfolding wakeup_loop.simps wakeup_one_eq c unfolding Suc by (auto simp: fun_eq_iff intro!: arg_cong [where f = "\<lambda>f. s\<lparr>procs := f\<rparr>"])
qed simp

lemma wakeup_eq: "wakeup ch s = s\<lparr>procs := \<lambda>i. if i < NPROC then awake (mycpu s) ch i (procs s i) else procs s i\<rparr>"
  by (simp only: wakeup_def wakeup_loop_eq)

lemma awake_fields [simp]:
  "p_killed (awake c ch i p) = p_killed p" "p_lock (awake c ch i p) = p_lock p" "p_chan (awake c ch i p) = p_chan p"
  "p_pid (awake c ch i p) = p_pid p" "p_ofile (awake c ch i p) = p_ofile p" "p_pagetable (awake c ch i p) = p_pagetable p"
  by (simp_all add: awake_def)

section \<open>The state before initialisation\<close>

text \<open>The kernel's data is zero when it starts. The file system is the one of the log's example.\<close>

definition zero_proc :: proc where
  "zero_proc = \<lparr>p_lock = \<lparr>locked = 0, lname = [], lcpu = None\<rparr>, p_state = UNUSED, p_chan = Ch_none, p_killed = False, p_xstate = 0,
     p_pid = 0, p_parent = None, p_kstack = 0, p_sz = 0, p_pagetable = 0, p_trapframe = 0, p_context = zero_context,
     p_ofile = (\<lambda>_. None), p_cwd = None, p_name = []\<rparr>"

definition zero_cpu :: cpu where
  "zero_cpu = \<lparr>cpu_proc = None, cpu_context = zero_context, noff = 0, intena = False, sstatus = 0\<rparr>"

definition zero_inode :: inode where
  "zero_inode = \<lparr>idev = 0, inum = 0, iref = 0, ilk = \<lparr>slocked = False, slname = [], slpid = 0\<rparr>, ivalid = False, itype = 0, imajor = 0,
     iminor = 0, inlink = 0, isize = 0, iaddrs = (\<lambda>_. 0)\<rparr>"

definition fs_boot :: fstate where
  "fs_boot = lstate.extend log_boot (fstate.fields
     \<lparr>magic = 0, sbsize = 0, nblocks = 0, ninodes = 0, nlog = 0, logstart = 0, inodestart = 0, bmapstart = 0\<rparr> (\<lambda>_. zero_inode) 0 0 0)"

definition proc_boot :: pstate where
  "proc_boot = fstate.extend fs_boot (pstate.fields (\<lambda>_. zero_proc) 0 None 1 (\<lambda>_. zero_cpu) 0 zero_context True 0 0)"

lemmas boot_simps = zero_proc_def zero_cpu_def zero_inode_def fs_boot_def lstate.defs proc_boot_def fstate.defs pstate.defs

end
