(* ===== verification/Ring.thy ===== *)
theory Ring
  imports Prelude
begin

text \<open>
  Ring buffers with free-running indices, the pattern of the pipes, the UART transmit buffer and the
  console input buffer: \<^verbatim>\<open>buf[w++ % SIZE] = c\<close> and \<^verbatim>\<open>c = buf[r++ % SIZE]\<close> on unsigned indices that
  wrap around. The locale states what a size has to satisfy for the wrap-around to be harmless; the
  components interpret it at their sizes and index widths.
\<close>

text \<open>The bytes between the read and the write index, oldest first.\<close>

definition ring :: "nat \<Rightarrow> (nat \<Rightarrow> byte) \<Rightarrow> 'a::len word \<Rightarrow> 'a word \<Rightarrow> byte list" where
  "ring sz buf r w = map (\<lambda>i. buf (unat (r + of_nat i) mod sz)) [0..<unat (w - r)]"

lemma length_ring [simp]: "length (ring sz buf r w) = unat (w - r)"
  by (simp add: ring_def)

lemma ring_empty [simp]: "ring sz buf r r = []"
  by (simp add: ring_def)

lemma ring_Cons:
  assumes "r \<noteq> w"
  shows "ring sz buf r w = buf (unat r mod sz) # ring sz buf (r + 1) w"
proof -
  have "w - r \<noteq> 0" using assms by simp
  then have "unat (w - r) = Suc (unat (w - r - 1))"
    using unat_minus_one [of "w - r"] unat_gt_0 [of "w - r"] by simp
  moreover have "w - r - 1 = w - (r + 1)" by simp
  ultimately have n: "unat (w - r) = Suc (unat (w - (r + 1)))" by simp
  have "[0..<Suc (unat (w - (r + 1)))] = 0 # map Suc [0..<unat (w - (r + 1))]"
    by (simp add: map_Suc_upt upt_conv_Cons)
  then show ?thesis unfolding ring_def n by (simp add: comp_def add.assoc)
qed

lemma ring_butlast:
  assumes "r \<noteq> w"
  shows "ring sz buf r (w - 1) = butlast (ring sz buf r w)"
proof -
  have "w - r \<noteq> 0" using assms by simp
  then have "unat (w - r - 1) = unat (w - r) - 1" by (rule unat_minus_one)
  moreover have "w - r - 1 = w - 1 - r" by simp
  ultimately have "unat (w - 1 - r) = unat (w - r) - 1" by simp
  moreover have "butlast [0..<n] = [0..<n - 1]" for n by (cases n) simp_all
  ultimately show ?thesis by (simp add: ring_def map_butlast [symmetric])
qed

lemma ring_last:
  assumes "r \<noteq> w"
  shows "last (ring sz buf r w) = buf (unat (w - 1) mod sz)"
proof -
  have n: "0 < unat (w - r)" using assms by (simp add: unat_gt_0)
  have "(of_nat (unat (w - r) - 1) :: 'a word) = w - r - 1" using n by (simp add: of_nat_diff)
  then have "r + of_nat (unat (w - r) - 1) = w - 1" by simp
  moreover have "last (ring sz buf r w) = buf (unat (r + of_nat (unat (w - r) - 1)) mod sz)"
    using n by (simp add: ring_def last_map)
  ultimately show ?thesis by simp
qed

lemma ring_append:
  assumes "unat (w - r) + unat (e - w) = unat (e - r)"
  shows "ring sz buf r e = ring sz buf r w @ ring sz buf w e"
proof -
  have "[0..<unat (e - r)] = [0..<unat (w - r)] @ map (\<lambda>i. i + unat (w - r)) [0..<unat (e - w)]"
    using upt_add_eq_append [of 0 "unat (w - r)" "unat (e - w)"] assms by (simp add: map_add_upt add.commute)
  moreover have "r + of_nat (i + unat (w - r)) = w + of_nat i" for i by simp
  ultimately show ?thesis by (simp add: ring_def comp_def add.commute)
qed

locale ring_buffer =
  fixes sz :: nat and ty :: "'a::len word itself"
  assumes sz_pos: "0 < sz" and sz_dvd: "sz dvd 2 ^ LENGTH('a)" and sz_less: "sz < 2 ^ LENGTH('a)"
begin

lemma unat_add_mod: "unat (r + of_nat i :: 'a word) mod sz = (unat r + i) mod sz"
proof -
  have "unat (r + of_nat i) = (unat r + i mod 2 ^ LENGTH('a)) mod 2 ^ LENGTH('a)"
    by (simp add: unat_word_ariths unat_of_nat take_bit_eq_mod)
  also have "\<dots> = (unat r + i) mod 2 ^ LENGTH('a)" by (simp add: mod_add_right_eq)
  finally show ?thesis using sz_dvd by (simp add: mod_mod_cancel)
qed

lemma ring_index_neq:
  assumes "i < unat (w - r :: 'a word)" and "unat (w - r) < sz"
  shows "unat (r + of_nat i) mod sz \<noteq> unat w mod sz"
proof
  assume eq: "unat (r + of_nat i) mod sz = unat w mod sz"
  have "w = r + of_nat (unat (w - r))" by simp
  then have "unat w mod sz = (unat r + unat (w - r)) mod sz" using unat_add_mod [of r "unat (w - r)"] by simp
  then have "(unat r + i) mod sz = (unat r + unat (w - r)) mod sz" using eq unat_add_mod [of r i] by simp
  then have "sz dvd (unat r + unat (w - r)) - (unat r + i)"
    using assms(1) mod_eq_dvd_iff_nat [of "unat r + i" "unat r + unat (w - r)" sz] by simp
  then show False using assms nat_dvd_not_less [of "unat (w - r) - i" sz] by simp
qed

text \<open>A write at the index \<open>e\<close> does not touch what lies before it.\<close>

lemma ring_other:
  assumes "unat (e - r :: 'a word) < sz" and "unat (w - r) \<le> unat (e - r)"
  shows "ring sz (buf(unat e mod sz := c)) r w = ring sz buf r w"
  unfolding ring_def using ring_index_neq [OF _ assms(1)] assms(2) by (intro map_cong) auto

lemma ring_push:
  assumes "unat (w - r :: 'a word) < sz"
  shows "ring sz (buf(unat w mod sz := c)) r (w + 1) = ring sz buf r w @ [c]"
proof -
  have u: "unat (w + 1 - r) = Suc (unat (w - r))"
  proof -
    have "w + 1 - r = (w - r) + 1" by simp
    moreover have "unat (w - r) + 1 < 2 ^ LENGTH('a)" using assms sz_less by simp
    ultimately show ?thesis by (metis Suc_eq_plus1 unat_of_nat unat_word_ariths(1) unsigned_1 mod_less)
  qed
  have "ring sz (buf(unat w mod sz := c)) r (w + 1)
      = map (\<lambda>i. (buf(unat w mod sz := c)) (unat (r + of_nat i) mod sz)) [0..<unat (w - r)] @ [c]"
    by (simp add: ring_def u)
  also have "map (\<lambda>i. (buf(unat w mod sz := c)) (unat (r + of_nat i) mod sz)) [0..<unat (w - r)] = ring sz buf r w"
    using ring_other [OF assms order.refl] by (simp add: ring_def)
  finally show ?thesis .
qed

end

end
