(* ===== verification/Uart.thy ===== *)
theory Uart
  imports Proc Ring
begin

text \<open>
  Character output: the UART driver \<^verbatim>\<open>kernel/uart.c\<close>, \<^verbatim>\<open>consputc\<close> of \<^verbatim>\<open>kernel/console.c\<close> and the
  formatted output of \<^verbatim>\<open>kernel/printf.c\<close>. The device is three fields: the input bytes that wait in
  the receiver, how many bytes the transmitter takes before the status register shows it busy, and
  the bytes sent. A loop that waits for the device, or spins after a panic, is \<open>Blocks\<close>.
\<close>

section \<open>State\<close>

record dstate = pstate +
  uart_tx_buf :: "nat \<Rightarrow> byte"
  uart_tx_w :: u64
  uart_tx_r :: u64
  dev_in :: "byte list"
  dev_room :: nat
  dev_out :: "byte list"
  dev_regs :: "(nat \<times> byte) list" \<comment> \<open>the control-register writes, in order\<close>
  panicked :: bool
  cons_buf :: "nat \<Rightarrow> byte"
  cons_r :: u32
  cons_w :: u32
  cons_e :: u32

definition UART_TX_BUF_SIZE :: nat where [simp]: "UART_TX_BUF_SIZE = 32"
definition INPUT_BUF_SIZE :: nat where [simp]: "INPUT_BUF_SIZE = 128"

section \<open>uart.c\<close>

definition RHR :: nat where [simp]: "RHR = 0"
definition THR :: nat where [simp]: "THR = 0"
definition IER :: nat where [simp]: "IER = 1"
definition IER_RX_ENABLE :: byte where [simp]: "IER_RX_ENABLE = 1"
definition IER_TX_ENABLE :: byte where [simp]: "IER_TX_ENABLE = 2"
definition FCR :: nat where [simp]: "FCR = 2"
definition FCR_FIFO_ENABLE :: byte where [simp]: "FCR_FIFO_ENABLE = 1"
definition FCR_FIFO_CLEAR :: byte where [simp]: "FCR_FIFO_CLEAR = 6"
definition LCR :: nat where [simp]: "LCR = 3"
definition LCR_EIGHT_BITS :: byte where [simp]: "LCR_EIGHT_BITS = 3"
definition LCR_BAUD_LATCH :: byte where [simp]: "LCR_BAUD_LATCH = 128"
definition LSR_RX_READY :: byte where [simp]: "LSR_RX_READY = 1"
definition LSR_TX_IDLE :: byte where [simp]: "LSR_TX_IDLE = 32"

definition WriteReg :: "nat \<Rightarrow> byte \<Rightarrow> 'z dstate_scheme \<Rightarrow> 'z dstate_scheme" where
  "WriteReg reg v s = s\<lparr>dev_regs := dev_regs s @ [(reg, v)]\<rparr>"

definition read_LSR :: "'z dstate_scheme \<Rightarrow> byte" where
  "read_LSR s = (if dev_in s \<noteq> [] then LSR_RX_READY else 0) OR (if 0 < dev_room s then LSR_TX_IDLE else 0)"

definition write_THR :: "byte \<Rightarrow> 'z dstate_scheme \<Rightarrow> 'z dstate_scheme" where
  "write_THR c s = s\<lparr>dev_out := dev_out s @ [c], dev_room := dev_room s - 1\<rparr>"

definition uartinit :: "'z dstate_scheme \<Rightarrow> 'z dstate_scheme" where
  "uartinit s =
     (let s = WriteReg IER 0x00 s;
          s = WriteReg LCR LCR_BAUD_LATCH s;
          s = WriteReg 0 0x03 s;
          s = WriteReg 1 0x00 s;
          s = WriteReg LCR LCR_EIGHT_BITS s;
          s = WriteReg FCR (FCR_FIFO_ENABLE OR FCR_FIFO_CLEAR) s
      in WriteReg IER (IER_TX_ENABLE OR IER_RX_ENABLE) s)"

primrec uartstart_loop :: "nat \<Rightarrow> 'z dstate_scheme \<Rightarrow> 'z dstate_scheme outcome" where
  "uartstart_loop 0 s = Blocks"
| "uartstart_loop (Suc k) s =
     (if uart_tx_w s = uart_tx_r s then Ok s
      else if read_LSR s AND LSR_TX_IDLE = 0 then Ok s
      else let c = uart_tx_buf s (unat (uart_tx_r s) mod UART_TX_BUF_SIZE);
               s = s\<lparr>uart_tx_r := uart_tx_r s + 1\<rparr>;
               s = wakeup Ch_uart_tx s
           in uartstart_loop k (write_THR c s))"

definition uartstart :: "'z dstate_scheme \<Rightarrow> 'z dstate_scheme outcome" where
  "uartstart s = uartstart_loop (Suc (unat (uart_tx_w s - uart_tx_r s))) s"

definition uartputc :: "byte \<Rightarrow> 'z dstate_scheme \<Rightarrow> 'z dstate_scheme outcome" where
  "uartputc c s =
     (if panicked s then Blocks
      else if uart_tx_w s = uart_tx_r s + of_nat UART_TX_BUF_SIZE then Blocks
      else uartstart (s\<lparr>uart_tx_buf := (uart_tx_buf s)(unat (uart_tx_w s) mod UART_TX_BUF_SIZE := c),
                        uart_tx_w := uart_tx_w s + 1\<rparr>))"

definition uartputc_sync :: "byte \<Rightarrow> 'z dstate_scheme \<Rightarrow> 'z dstate_scheme outcome" where
  "uartputc_sync c s =
     (let s = set_cpu (push_off (mycpu s)) s in
      if panicked s then Blocks
      else if read_LSR s AND LSR_TX_IDLE = 0 then Blocks
      else let s = write_THR c s in
           obind (pop_off (mycpu s)) (\<lambda>c. Ok (set_cpu c s)))"

definition uartgetc :: "'z dstate_scheme \<Rightarrow> int \<times> 'z dstate_scheme" where
  "uartgetc s =
     (if read_LSR s AND 0x01 \<noteq> 0 then (uint (hd (dev_in s)), s\<lparr>dev_in := tl (dev_in s)\<rparr>)
      else (-1, s))"

section \<open>consputc\<close>

definition BACKSPACE :: int where [simp]: "BACKSPACE = 0x100"

definition consputc :: "int \<Rightarrow> 'z dstate_scheme \<Rightarrow> 'z dstate_scheme outcome" where
  "consputc c s =
     (if c = BACKSPACE
      then obind (uartputc_sync 8 s) (\<lambda>s. obind (uartputc_sync 32 s) (\<lambda>s. uartputc_sync 8 s))
      else uartputc_sync (word_of_int c) s)"

primrec consputs :: "byte list \<Rightarrow> 'z dstate_scheme \<Rightarrow> 'z dstate_scheme outcome" where
  "consputs [] s = Ok s"
| "consputs (c # cs) s = obind (consputc (uint c) s) (consputs cs)"

section \<open>printf.c\<close>

definition digits :: "byte list" where
  "digits = cbytes ''0123456789abcdef''"

text \<open>The digits \<^verbatim>\<open>printint\<close> puts into \<^verbatim>\<open>buf\<close>, least significant first; 32 divisions by a base of at least 2 reach 0.\<close>

primrec printint_loop :: "nat \<Rightarrow> u32 \<Rightarrow> u32 \<Rightarrow> byte list" where
  "printint_loop 0 x base = []"
| "printint_loop (Suc k) x base =
     digits ! unat (x mod base) # (if x div base \<noteq> 0 then printint_loop k (x div base) base else [])"

definition printint :: "u32 \<Rightarrow> u32 \<Rightarrow> bool \<Rightarrow> byte list" where
  "printint xx base sign =
     (let neg = (sign \<and> sint xx < 0);
          x = (if neg then - xx else xx);
          buf = printint_loop 32 x base @ (if neg then [45] else [])
      in rev buf)"

definition printptr :: "u64 \<Rightarrow> byte list" where
  "printptr x = [48, 120] @ map (\<lambda>i. digits ! unat (drop_bit 60 (push_bit (4 * i) x))) [0..<16]"

text \<open>The variable arguments, and the bytes \<^verbatim>\<open>printf\<close> puts out; \<open>None\<close> when they do not fit the format.\<close>

datatype parg = AInt u32 | APtr u64 | AStr "byte list option"

fun printf_bytes :: "byte list \<Rightarrow> parg list \<Rightarrow> byte list option" where
  "printf_bytes [] ap = Some []"
| "printf_bytes (c # fmt) ap =
     (if c \<noteq> 37 then map_option (Cons c) (printf_bytes fmt ap)
      else case fmt of
        [] \<Rightarrow> Some []
      | d # fmt \<Rightarrow>
          if d = 100 then (case ap of AInt x # ap \<Rightarrow> map_option (append (printint x 10 True)) (printf_bytes fmt ap) | _ \<Rightarrow> None)
          else if d = 120 then (case ap of AInt x # ap \<Rightarrow> map_option (append (printint x 16 True)) (printf_bytes fmt ap) | _ \<Rightarrow> None)
          else if d = 112 then (case ap of APtr x # ap \<Rightarrow> map_option (append (printptr x)) (printf_bytes fmt ap) | _ \<Rightarrow> None)
          else if d = 115 then (case ap of AStr x # ap \<Rightarrow>
              map_option (append (case x of None \<Rightarrow> cbytes ''(null)'' | Some t \<Rightarrow> t)) (printf_bytes fmt ap) | _ \<Rightarrow> None)
          else if d = 37 then map_option (Cons 37) (printf_bytes fmt ap)
          else map_option (\<lambda>bs. 37 # d # bs) (printf_bytes fmt ap))"

definition printf :: "string \<Rightarrow> parg list \<Rightarrow> 'z dstate_scheme \<Rightarrow> 'z dstate_scheme outcome" where
  "printf fmt ap s = (case printf_bytes (cbytes fmt) ap of None \<Rightarrow> Blocks | Some bs \<Rightarrow> consputs bs s)"

section \<open>The state before initialisation\<close>

definition dev_boot :: dstate where
  "dev_boot = pstate.extend proc_boot (dstate.fields (\<lambda>_. 0) 0 0 [] 0 [] [] False (\<lambda>_. 0) 0 0 0)"

lemmas dev_boot_simps = boot_simps dev_boot_def dstate.defs

section \<open>Output in order\<close>

interpretation uart_ring: ring_buffer UART_TX_BUF_SIZE "TYPE(64 word)"
  by unfold_locales simp_all

definition uart_pending :: "'z dstate_scheme \<Rightarrow> byte list" where
  "uart_pending s = ring UART_TX_BUF_SIZE (uart_tx_buf s) (uart_tx_r s) (uart_tx_w s)"

definition uart_ok :: "'z dstate_scheme \<Rightarrow> bool" where
  "uart_ok s \<longleftrightarrow> length (uart_pending s) \<le> UART_TX_BUF_SIZE"

lemma read_LSR_idle: "read_LSR s AND LSR_TX_IDLE = 0 \<longleftrightarrow> dev_room s = 0"
  by (simp add: read_LSR_def)

lemma read_LSR_ready: "read_LSR s AND 1 \<noteq> 0 \<longleftrightarrow> dev_in s \<noteq> []"
  by (simp add: read_LSR_def)

lemma uart_empty_iff: "uart_tx_w s = uart_tx_r s \<longleftrightarrow> uart_pending s = []"
proof -
  have "uart_pending s = [] \<longleftrightarrow> unat (uart_tx_w s - uart_tx_r s) = 0"
    by (metis length_0_conv length_ring uart_pending_def)
  then show ?thesis by (auto simp: unat_eq_0)
qed

lemma uart_full_iff:
  assumes "uart_ok s"
  shows "uart_tx_w s = uart_tx_r s + of_nat UART_TX_BUF_SIZE \<longleftrightarrow> length (uart_pending s) = UART_TX_BUF_SIZE"
proof
  assume "length (uart_pending s) = UART_TX_BUF_SIZE"
  then have "uart_tx_w s - uart_tx_r s = 32" by (simp add: uart_pending_def word_unat_eq_iff)
  then show "uart_tx_w s = uart_tx_r s + of_nat UART_TX_BUF_SIZE" by (simp add: algebra_simps)
qed (simp add: uart_pending_def)

lemma uart_wakeup_fields [simp]:
  "uart_tx_buf (wakeup ch s) = uart_tx_buf s" "uart_tx_r (wakeup ch s) = uart_tx_r s" "uart_tx_w (wakeup ch s) = uart_tx_w s"
  "dev_room (wakeup ch s) = dev_room s" "dev_out (wakeup ch s) = dev_out s" "dev_in (wakeup ch s) = dev_in s"
  "panicked (wakeup ch s) = panicked s"
  by (simp_all add: wakeup_eq)

lemma write_THR_fields [simp]:
  "uart_tx_buf (write_THR c s) = uart_tx_buf s" "uart_tx_r (write_THR c s) = uart_tx_r s" "uart_tx_w (write_THR c s) = uart_tx_w s"
  "dev_room (write_THR c s) = dev_room s - 1" "dev_out (write_THR c s) = dev_out s @ [c]" "panicked (write_THR c s) = panicked s"
  by (simp_all add: write_THR_def)

text \<open>The driver sends as many pending bytes as the device takes.\<close>

lemma uartstart_loop_ok:
  assumes "length (uart_pending s) < k"
  shows "\<exists>s'. uartstart_loop k s = Ok s' \<and> dev_out s' = dev_out s @ take (dev_room s) (uart_pending s)
    \<and> uart_pending s' = drop (dev_room s) (uart_pending s) \<and> dev_room s' = dev_room s - length (uart_pending s)
    \<and> panicked s' = panicked s"
  using assms
proof (induction k arbitrary: s)
  case (Suc k)
  show ?case
  proof (cases "uart_pending s = [] \<or> dev_room s = 0")
    case True
    then show ?thesis using uart_empty_iff [of s] read_LSR_idle [of s] by (auto simp del: LSR_TX_IDLE_def)
  next
    case False
    define c where "c = uart_tx_buf s (unat (uart_tx_r s) mod UART_TX_BUF_SIZE)"
    define t where "t = write_THR c (wakeup Ch_uart_tx (s\<lparr>uart_tx_r := uart_tx_r s + 1\<rparr>))"
    have p: "uart_pending s = c # uart_pending t"
      using False uart_empty_iff [of s] ring_Cons [of "uart_tx_r s" "uart_tx_w s" UART_TX_BUF_SIZE "uart_tx_buf s"]
      by (auto simp: uart_pending_def t_def c_def)
    have t: "dev_out t = dev_out s @ [c]" "dev_room t = dev_room s - 1" "panicked t = panicked s"
      by (simp_all add: t_def)
    have "uartstart_loop (Suc k) s = uartstart_loop k t"
      using False uart_empty_iff [of s] read_LSR_idle [of s] by (simp add: t_def c_def del: LSR_TX_IDLE_def)
    moreover obtain s' where "uartstart_loop k t = Ok s'" "dev_out s' = dev_out t @ take (dev_room t) (uart_pending t)"
      "uart_pending s' = drop (dev_room t) (uart_pending t)" "dev_room s' = dev_room t - length (uart_pending t)" "panicked s' = panicked t"
      using Suc.IH [of t] Suc.prems p by auto
    ultimately show ?thesis using False p t by (cases "dev_room s") auto
  qed
qed simp

lemma uartstart_ok:
  "\<exists>s'. uartstart s = Ok s' \<and> dev_out s' = dev_out s @ take (dev_room s) (uart_pending s)
    \<and> uart_pending s' = drop (dev_room s) (uart_pending s) \<and> dev_room s' = dev_room s - length (uart_pending s)
    \<and> panicked s' = panicked s"
  unfolding uartstart_def by (rule uartstart_loop_ok) (simp add: uart_pending_def)

text \<open>
  C25. The transmit buffer loses and reorders nothing: \<^verbatim>\<open>uartputc\<close> sleeps exactly when the 32 bytes are in use,
  otherwise it returns, the bytes sent and the bytes pending together are those before and then the new one, and nothing stays
  pending while the device is idle.
\<close>

theorem uart_in_order:
  assumes "uart_ok s" "\<not> panicked s"
  shows "if length (uart_pending s) = UART_TX_BUF_SIZE then uartputc c s = Blocks
     else \<exists>s'. uartputc c s = Ok s' \<and> uart_ok s' \<and> dev_out s' @ uart_pending s' = dev_out s @ uart_pending s @ [c]
        \<and> (uart_pending s' = [] \<or> dev_room s' = 0)"
proof (cases "length (uart_pending s) = UART_TX_BUF_SIZE")
  case True
  then show ?thesis using assms uart_full_iff [OF assms(1)] by (simp add: uartputc_def)
next
  case False
  define t where "t = s\<lparr>uart_tx_buf := (uart_tx_buf s)(unat (uart_tx_w s) mod UART_TX_BUF_SIZE := c), uart_tx_w := uart_tx_w s + 1\<rparr>"
  have less: "length (uart_pending s) < UART_TX_BUF_SIZE" using False assms(1) by (simp add: uart_ok_def)
  then have p: "uart_pending t = uart_pending s @ [c]"
    using uart_ring.ring_push [of "uart_tx_w s" "uart_tx_r s" "uart_tx_buf s" c] by (simp add: uart_pending_def t_def)
  have t: "dev_out t = dev_out s" "dev_room t = dev_room s" by (simp_all add: t_def)
  have "uartputc c s = uartstart t" using False assms uart_full_iff [OF assms(1)] by (simp add: uartputc_def t_def)
  then show ?thesis
    using uartstart_ok [of t] False less unfolding p t uart_ok_def by (auto simp: drop_Cons' simp del: UART_TX_BUF_SIZE_def)
qed

theorem uart_in_order_witness:
  "uart_ok (dev_boot\<lparr>dev_room := 1\<rparr>) \<and> (\<exists>s'. uartputc 65 (dev_boot\<lparr>dev_room := 1\<rparr>) = Ok s' \<and> dev_out s' @ uart_pending s' = [65])"
proof -
  have p: "uart_pending (dev_boot\<lparr>dev_room := 1\<rparr>) = []" "dev_out (dev_boot\<lparr>dev_room := 1\<rparr>) = []" "\<not> panicked (dev_boot\<lparr>dev_room := 1\<rparr>)"
    by (simp_all add: uart_pending_def dev_boot_simps)
  then have "uart_ok (dev_boot\<lparr>dev_room := 1\<rparr>)" by (simp add: uart_ok_def)
  then show ?thesis using uart_in_order [of "dev_boot\<lparr>dev_room := 1\<rparr>" 65] p by auto
qed

section \<open>Printed numbers\<close>

definition digit_val :: "byte \<Rightarrow> nat" where
  "digit_val c = (if c < 58 then unat c - 48 else unat c - 87)"

primrec digits_val :: "nat \<Rightarrow> byte list \<Rightarrow> nat" where
  "digits_val b [] = 0"
| "digits_val b (d # ds) = digit_val d + b * digits_val b ds"

definition parse_int :: "byte list \<Rightarrow> int" where
  "parse_int bs = (if bs \<noteq> [] \<and> hd bs = 45 then - int (digits_val 10 (rev (tl bs))) else int (digits_val 10 (rev bs)))"

lemma digit_ok:
  assumes "i < 16"
  shows "digit_val (digits ! i) = i" and "digits ! i \<noteq> 45"
proof -
  have "\<forall>i\<in>set [0..<16]. digit_val (digits ! i) = i \<and> digits ! i \<noteq> 45" by code_simp
  then show "digit_val (digits ! i) = i" "digits ! i \<noteq> 45" using assms by auto
qed

lemma u32_less: "unat (x :: u32) < 4294967296"
  using unsigned_less [of x, where ?'a = nat] by simp

lemma printint_loop_ok:
  assumes "0 < unat b" "unat b \<le> 16" "unat x < unat b ^ k" "0 < k"
  shows "digits_val (unat b) (printint_loop k x b) = unat x" "printint_loop k x b \<noteq> []" "45 \<notin> set (printint_loop k x b)"
proof -
  have *: "digits_val (unat b) (printint_loop k x b) = unat x \<and> 45 \<notin> set (printint_loop k x b)"
    using assms
  proof (induction k arbitrary: x)
    case (Suc k)
    have m: "unat (x mod b) < 16" using Suc.prems(2) mod_less_divisor [OF Suc.prems(1), of "unat x"] unfolding unat_mod by linarith
    show ?case
    proof (cases "x div b = 0")
      case True
      then have "unat x div unat b = 0" by (simp flip: unat_div)
      then have "unat (x mod b) = unat x" using Suc.prems(1) by (auto simp: unat_mod div_eq_0_iff)
      then show ?thesis using True digit_ok [OF m] by simp
    next
      case False
      have "unat x div unat b < unat b ^ k" using Suc.prems(1,3) by (simp add: div_less_iff_less_mult mult.commute)
      then have d: "unat (x div b) < unat b ^ k" by (simp add: unat_div)
      then have "0 < k" using False by (cases k) (auto simp: unat_eq_0)
      then show ?thesis using False Suc.IH [of "x div b"] Suc.prems d digit_ok [OF m] by (auto simp: unat_mod unat_div)
    qed
  qed simp
  then show "digits_val (unat b) (printint_loop k x b) = unat x" "45 \<notin> set (printint_loop k x b)" by auto
  show "printint_loop k x b \<noteq> []" using assms(4) by (cases k) simp_all
qed

lemma length_printint_loop:
  assumes "0 < unat b" "unat x < unat b ^ n" "0 < n"
  shows "length (printint_loop k x b) \<le> n"
  using assms
proof (induction k arbitrary: x n)
  case (Suc k)
  then obtain m where m: "n = Suc m" by (cases n) auto
  have "unat x div unat b < unat b ^ m" using Suc.prems(1,2) by (simp add: m div_less_iff_less_mult mult.commute)
  then have d: "unat (x div b) < unat b ^ m" by (simp add: unat_div)
  then show ?case using Suc.IH [of "x div b" m] Suc.prems(1) by (cases "x div b = 0"; cases m) (auto simp: m unat_eq_0)
qed simp

lemma unat_minus_sint:
  assumes "sint (x :: u32) < 0"
  shows "int (unat (- x)) = - sint x"
proof -
  have "- (2 ^ 31) \<le> sint x" using sint_ge [of x] by simp
  then have "take_bit 32 (- sint x) = - sint x" using assms by (simp add: take_bit_int_eq_self_iff)
  then have "uint (word_of_int (- sint x) :: u32) = - sint x" unfolding uint_word_of_int_eq by simp
  moreover have "word_of_int (- sint x) = - x" by simp
  ultimately show ?thesis by (simp only: uint_nat)
qed

lemma unat_sint:
  assumes "0 \<le> sint (x :: u32)"
  shows "int (unat x) = sint x"
proof -
  have "sint x < 2 ^ 31" using sint_lt [of x] by simp
  then have "take_bit 32 (sint x) = sint x" using assms by (simp add: take_bit_int_eq_self_iff)
  then have "uint (word_of_int (sint x) :: u32) = sint x" unfolding uint_word_of_int_eq by simp
  then show ?thesis by (simp only: uint_nat of_int_sint scast_id)
qed

text \<open>
  C26. \<^verbatim>\<open>printint\<close> prints numbers that read back: the decimal digits of every signed 32-bit number, \<^verbatim>\<open>INT_MIN\<close>
  included, denote it.
\<close>

theorem printint_roundtrip: "parse_int (printint xx 10 True) = sint xx"
proof -
  define x where "x = (if sint xx < 0 then - xx else xx)"
  define ds where "ds = printint_loop 32 x 10"
  have "unat x < 10 ^ 32" using u32_less [of x] by simp
  then have l: "digits_val 10 ds = unat x" "ds \<noteq> []" "45 \<notin> set ds"
    using printint_loop_ok [of 10 x 32] by (simp_all add: ds_def)
  show ?thesis
  proof (cases "sint xx < 0")
    case True
    then have "printint xx 10 True = 45 # rev ds" by (simp add: printint_def ds_def x_def)
    then show ?thesis using l unat_minus_sint [OF True] True by (simp add: parse_int_def x_def)
  next
    case False
    then have "printint xx 10 True = rev ds" by (simp add: printint_def ds_def x_def)
    moreover have "hd (rev ds) \<noteq> 45" using l(2,3) hd_in_set [of "rev ds"] by auto
    moreover have "int (unat xx) = sint xx" using False by (intro unat_sint) simp
    ultimately show ?thesis using l False by (simp add: parse_int_def x_def)
  qed
qed

text \<open>
  C27. The buffer of 16 characters of \<^verbatim>\<open>printint\<close> is never exceeded for the bases the kernel prints in: a number takes at most ten
  digits and a sign.
\<close>

theorem printint_bounds:
  assumes "base = 10 \<or> base = 16"
  shows "length (printint xx base sign) \<le> 11"
proof -
  have "length (printint_loop 32 x base) \<le> 10" for x
    using assms u32_less [of x] by (intro length_printint_loop) auto
  from this [of xx] this [of "- xx"] show ?thesis by (auto simp: printint_def Let_def)
qed

theorem printint_bounds_witness: "length (printint 0x80000000 10 True) \<le> 11 \<and> printint 255 16 False = [102, 102]"
  using printint_bounds [of 10 "0x80000000" True] by (simp, code_simp)

end
