(* ===== verification/Console.thy ===== *)
theory Console
  imports Uart Ucopy
begin

text \<open>
  The console, \<^verbatim>\<open>kernel/console.c\<close>, and the UART interrupt handler that feeds it. Input is edited in the
  ring buffer between \<^verbatim>\<open>cons.w\<close> and \<^verbatim>\<open>cons.e\<close> and becomes readable, between \<^verbatim>\<open>cons.r\<close> and
  \<^verbatim>\<open>cons.w\<close>, a line at a time. Every function runs under \<^verbatim>\<open>cons.lock\<close>.
\<close>

section \<open>Operations\<close>

definition ctrl :: "char \<Rightarrow> int" where
  "ctrl x = of_char x - of_char (CHR ''@'')"

definition procdump_bytes :: "'z pstate_scheme \<Rightarrow> byte list" where
  "procdump_bytes s = 10 # concat (map (\<lambda>(pid, st, nm).
     printint (word_of_int pid) 10 True @ [32] @ cbytes st @ [32] @ nm @ [10]) (procdump s))"

primrec kill_line :: "nat \<Rightarrow> 'z dstate_scheme \<Rightarrow> 'z dstate_scheme outcome" where
  "kill_line 0 s = Blocks"
| "kill_line (Suc k) s =
     (if cons_e s \<noteq> cons_w s \<and> cons_buf s (unat (cons_e s - 1) mod INPUT_BUF_SIZE) \<noteq> 10
      then obind (consputc BACKSPACE (s\<lparr>cons_e := cons_e s - 1\<rparr>)) (kill_line k)
      else Ok s)"

definition consoleintr :: "int \<Rightarrow> 'z dstate_scheme \<Rightarrow> 'z dstate_scheme outcome" where
  "consoleintr c s =
     (if c = ctrl (CHR ''P'') then consputs (procdump_bytes s) s
      else if c = ctrl (CHR ''U'') then kill_line (Suc (unat (cons_e s - cons_w s))) s
      else if c = ctrl (CHR ''H'') \<or> c = 0x7f then
        (if cons_e s \<noteq> cons_w s then consputc BACKSPACE (s\<lparr>cons_e := cons_e s - 1\<rparr>) else Ok s)
      else if c \<noteq> 0 \<and> cons_e s - cons_r s < of_nat INPUT_BUF_SIZE then
        (let c = (if c = 13 then 10 else c) in
         obind (consputc c s) (\<lambda>s.
         let s = s\<lparr>cons_buf := (cons_buf s)(unat (cons_e s) mod INPUT_BUF_SIZE := word_of_int c), cons_e := cons_e s + 1\<rparr> in
         if c = 10 \<or> c = ctrl (CHR ''D'') \<or> cons_e s - cons_r s = of_nat INPUT_BUF_SIZE
         then Ok (wakeup Ch_cons (s\<lparr>cons_w := cons_e s\<rparr>))
         else Ok s))
      else Ok s)"

primrec uartintr_loop :: "nat \<Rightarrow> 'z dstate_scheme \<Rightarrow> 'z dstate_scheme outcome" where
  "uartintr_loop 0 s = Blocks"
| "uartintr_loop (Suc k) s =
     (let (c, s) = uartgetc s in
      if c = -1 then Ok s else obind (consoleintr c s) (uartintr_loop k))"

definition uartintr :: "'z dstate_scheme \<Rightarrow> 'z dstate_scheme outcome" where
  "uartintr s = obind (uartintr_loop (Suc (length (dev_in s))) s) uartstart"

text \<open>\<open>i\<close> is the loop counter; the result is the number of bytes sent.\<close>

primrec consolewrite_loop :: "nat \<Rightarrow> int \<Rightarrow> bool \<Rightarrow> u64 \<Rightarrow> 'z dstate_scheme \<Rightarrow> (int \<times> 'z dstate_scheme) outcome" where
  "consolewrite_loop 0 i user_src src s = Ok (i, s)"
| "consolewrite_loop (Suc k) i user_src src s =
     obind (either_copyin user_src (src + word_of_int i) 1 s) (\<lambda>(r, bs).
     if r = -1 then Ok (i, s)
     else obind (uartputc (hd bs) s) (\<lambda>s. consolewrite_loop k (i + 1) user_src src s))"

definition consolewrite :: "bool \<Rightarrow> u64 \<Rightarrow> int \<Rightarrow> 'z dstate_scheme \<Rightarrow> (int \<times> 'z dstate_scheme) outcome" where
  "consolewrite user_src src n s = consolewrite_loop (nat n) 0 user_src src s"

text \<open>The loop returns the final \<^verbatim>\<open>n\<close>, or \<open>None\<close> when the process was killed while waiting.\<close>

primrec consoleread_loop :: "nat \<Rightarrow> int \<Rightarrow> bool \<Rightarrow> u64 \<Rightarrow> 'z dstate_scheme \<Rightarrow> (int option \<times> 'z dstate_scheme) outcome" where
  "consoleread_loop 0 target user_dst dst s = Ok (Some 0, s)"
| "consoleread_loop (Suc k) target user_dst dst s =
     (let n = int (Suc k) in
      if cons_r s = cons_w s
      then if killed (curp s) s then Ok (None, s) else Blocks
      else let c = cons_buf s (unat (cons_r s) mod INPUT_BUF_SIZE);
               s = s\<lparr>cons_r := cons_r s + 1\<rparr> in
           if uint c = ctrl (CHR ''D'')
           then Ok (Some n, if n < target then s\<lparr>cons_r := cons_r s - 1\<rparr> else s)
           else obind (either_copyout user_dst dst [c] s) (\<lambda>(r, s).
                if r = -1 then Ok (Some n, s)
                else if c = 10 then Ok (Some (n - 1), s)
                else consoleread_loop k target user_dst (dst + 1) s))"

definition consoleread :: "bool \<Rightarrow> u64 \<Rightarrow> int \<Rightarrow> 'z dstate_scheme \<Rightarrow> (int \<times> 'z dstate_scheme) outcome" where
  "consoleread user_dst dst n s =
     (if n > 0
      then obind (consoleread_loop (nat n) n user_dst dst s) (\<lambda>(r, s).
           case r of None \<Rightarrow> Ok (-1, s) | Some n' \<Rightarrow> Ok (n - n', s))
      else Ok (0, s))"

section \<open>The line discipline\<close>

interpretation cons_ring: ring_buffer INPUT_BUF_SIZE "TYPE(32 word)"
  by unfold_locales simp_all

text \<open>The bytes a reader can have, and the line that is being edited.\<close>

definition cons_ready :: "'z dstate_scheme \<Rightarrow> byte list" where
  "cons_ready s = ring INPUT_BUF_SIZE (cons_buf s) (cons_r s) (cons_w s)"

definition cons_edit :: "'z dstate_scheme \<Rightarrow> byte list" where
  "cons_edit s = ring INPUT_BUF_SIZE (cons_buf s) (cons_w s) (cons_e s)"

definition cons_ok :: "'z dstate_scheme \<Rightarrow> bool" where
  "cons_ok s \<longleftrightarrow> unat (cons_e s - cons_r s) = length (cons_ready s) + length (cons_edit s)
     \<and> length (cons_ready s) + length (cons_edit s) \<le> INPUT_BUF_SIZE \<and> 10 \<notin> set (cons_edit s)"

text \<open>What a character typed does to the two, as a function on lists.\<close>

definition cons_type :: "int \<Rightarrow> byte list \<times> byte list \<Rightarrow> byte list \<times> byte list" where
  "cons_type c = (\<lambda>(rdy, ed).
     if c = ctrl (CHR ''P'') then (rdy, ed)
     else if c = ctrl (CHR ''U'') then (rdy, [])
     else if c = ctrl (CHR ''H'') \<or> c = 0x7f then (rdy, butlast ed)
     else if c \<noteq> 0 \<and> length rdy + length ed < INPUT_BUF_SIZE
     then let c = (if c = 13 then 10 else c); ed = ed @ [word_of_int c] in
          if c = 10 \<or> c = ctrl (CHR ''D'') \<or> length rdy + length ed = INPUT_BUF_SIZE then (rdy @ ed, []) else (rdy, ed)
     else (rdy, ed))"

text \<open>Echoing changes neither the buffer nor the nesting of \<^verbatim>\<open>push_off\<close>.\<close>

definition echoed :: "'z dstate_scheme \<Rightarrow> 'z dstate_scheme \<Rightarrow> bool" where
  "echoed s s' \<longleftrightarrow> cons_buf s' = cons_buf s \<and> cons_r s' = cons_r s \<and> cons_w s' = cons_w s \<and> cons_e s' = cons_e s
     \<and> panicked s' = panicked s \<and> noff (mycpu s') = noff (mycpu s)"

lemma echoed_refl [simp]: "echoed s s"
  by (simp add: echoed_def)

lemma echoed_trans: "echoed s t \<Longrightarrow> echoed t u \<Longrightarrow> echoed s u"
  by (simp add: echoed_def)

definition can_echo :: "nat \<Rightarrow> 'z dstate_scheme \<Rightarrow> bool" where
  "can_echo n s \<longleftrightarrow> \<not> panicked s \<and> 0 \<le> noff (mycpu s) \<and> n \<le> dev_room s"

lemma uartputc_sync_ok:
  assumes "can_echo (Suc n) s"
  shows "\<exists>s'. uartputc_sync c s = Ok s' \<and> echoed s s' \<and> can_echo n s'"
proof -
  have pop: "\<exists>d. pop_off c = Ok d \<and> noff d = noff c - 1" if "\<not> intr_get c" "1 \<le> noff c" for c
    using that by (auto simp: pop_off_def Let_def intr_on_def)
  obtain d where "pop_off (push_off (mycpu s)) = Ok d" "noff d = noff (mycpu s)"
    using pop [of "push_off (mycpu s)"] assms by (auto simp: can_echo_def)
  then show ?thesis
    using assms read_LSR_idle [of "set_cpu (push_off (mycpu s)) s"]
    by (auto simp: uartputc_sync_def can_echo_def echoed_def mycpu_def set_cpu_def write_THR_def Let_def)
qed

lemma consputc_ok:
  assumes "can_echo (n + 3) s"
  shows "\<exists>s'. consputc c s = Ok s' \<and> echoed s s' \<and> can_echo n s'"
proof (cases "c = BACKSPACE")
  case True
  obtain s1 where 1: "uartputc_sync 8 s = Ok s1" "echoed s s1" "can_echo (Suc (Suc n)) s1" using uartputc_sync_ok [of "Suc (Suc n)" s] assms by (auto simp: numeral_3_eq_3)
  obtain s2 where 2: "uartputc_sync 32 s1 = Ok s2" "echoed s1 s2" "can_echo (Suc n) s2" using uartputc_sync_ok [OF 1(3)] by blast
  obtain s3 where 3: "uartputc_sync 8 s2 = Ok s3" "echoed s2 s3" "can_echo n s3" using uartputc_sync_ok [OF 2(3)] by blast
  show ?thesis using True 1 2 3 by (auto simp: consputc_def intro: echoed_trans)
next
  case False
  then show ?thesis using uartputc_sync_ok [of n s] assms by (auto simp: consputc_def can_echo_def)
qed

lemma consputs_ok:
  assumes "can_echo (n + 3 * length cs) s"
  shows "\<exists>s'. consputs cs s = Ok s' \<and> echoed s s' \<and> can_echo n s'"
  using assms
proof (induction cs arbitrary: s)
  case (Cons c cs)
  then obtain s1 where 1: "consputc (uint c) s = Ok s1" "echoed s s1" "can_echo (n + 3 * length cs) s1"
    using consputc_ok [of "n + 3 * length cs" s] by (auto simp: algebra_simps)
  then show ?case using Cons.IH [OF 1(3)] by (auto intro: echoed_trans)
qed simp

lemma echoed_cons: "echoed s s' \<Longrightarrow> cons_ready s' = cons_ready s \<and> cons_edit s' = cons_edit s \<and> cons_ok s' = cons_ok s"
  by (simp add: echoed_def cons_ready_def cons_edit_def cons_ok_def)


lemma can_echo_upd [simp]:
  "can_echo n (s\<lparr>cons_e := x\<rparr>) = can_echo n s"
  by (simp add: can_echo_def mycpu_def)

lemma can_echo_mono: "can_echo n s \<Longrightarrow> m \<le> n \<Longrightarrow> can_echo m s"
  by (simp add: can_echo_def)

lemma cons_edit_empty: "cons_edit s = [] \<longleftrightarrow> cons_e s = cons_w s"
proof -
  have "cons_edit s = [] \<longleftrightarrow> unat (cons_e s - cons_w s) = 0" by (metis length_0_conv length_ring cons_edit_def)
  then show ?thesis by (auto simp: unat_eq_0)
qed

lemma unat_pred: "x \<noteq> 0 \<Longrightarrow> unat (x - 1 :: u32) = unat x - 1"
  by (rule unat_minus_one)

lemma del_char:
  assumes "cons_ok s" "cons_edit s \<noteq> []"
  shows "cons_ok (s\<lparr>cons_e := cons_e s - 1\<rparr>)" "cons_ready (s\<lparr>cons_e := cons_e s - 1\<rparr>) = cons_ready s"
    "cons_edit (s\<lparr>cons_e := cons_e s - 1\<rparr>) = butlast (cons_edit s)"
proof -
  let ?t = "s\<lparr>cons_e := cons_e s - 1\<rparr>"
  show r: "cons_ready ?t = cons_ready s" by (simp add: cons_ready_def)
  show e: "cons_edit ?t = butlast (cons_edit s)"
    using assms(2) cons_edit_empty [of s] ring_butlast [of "cons_w s" "cons_e s" INPUT_BUF_SIZE "cons_buf s"] by (auto simp: cons_edit_def)
  have pos: "0 < length (cons_edit s)" using assms(2) by simp
  have ok: "unat (cons_e s - cons_r s) = length (cons_ready s) + length (cons_edit s)" using assms(1) by (simp add: cons_ok_def)
  have "cons_e s - cons_r s \<noteq> 0" using ok pos by (metis add_is_0 less_numeral_extra(3) unat_0)
  then have "unat (cons_e s - cons_r s - 1) = unat (cons_e s - cons_r s) - 1" by (rule unat_pred)
  moreover have e1: "cons_e s - 1 - cons_r s = cons_e s - cons_r s - 1" by simp
  ultimately have u: "unat (cons_e s - 1 - cons_r s) = length (cons_ready s) + length (butlast (cons_edit s))"
    unfolding e1 length_butlast using ok pos by linarith
  have "length (cons_ready s) + length (butlast (cons_edit s)) \<le> INPUT_BUF_SIZE"
    using assms(1) unfolding cons_ok_def length_butlast by linarith
  with u show "cons_ok ?t" using assms(1) unfolding cons_ok_def r e by (auto simp del: length_butlast dest: in_set_butlastD)
qed

lemma kill_line_ok:
  assumes "cons_ok s" "length (cons_edit s) < k" "can_echo (n + 3 * length (cons_edit s)) s"
  shows "\<exists>s'. kill_line k s = Ok s' \<and> cons_ok s' \<and> cons_ready s' = cons_ready s \<and> cons_edit s' = [] \<and> can_echo n s'"
  using assms
proof (induction k arbitrary: s)
  case (Suc k)
  show ?case
  proof (cases "cons_edit s = []")
    case True
    then show ?thesis using Suc.prems cons_edit_empty [of s] by simp
  next
    case False
    define t where "t = s\<lparr>cons_e := cons_e s - 1\<rparr>"
    note d = del_char [OF Suc.prems(1) False, folded t_def]
    have "last (cons_edit s) \<noteq> 10" using Suc.prems(1) last_in_set [OF False] by (auto simp: cons_ok_def)
    then have c: "cons_e s \<noteq> cons_w s \<and> cons_buf s (unat (cons_e s - 1) mod INPUT_BUF_SIZE) \<noteq> 10"
      using False cons_edit_empty [of s] ring_last [of "cons_w s" "cons_e s" INPUT_BUF_SIZE "cons_buf s"] by (auto simp: cons_edit_def)
    obtain m where m: "length (cons_edit s) = Suc m" using False by (cases "cons_edit s") auto
    have "can_echo ((n + 3 * m) + 3) t" using Suc.prems(3) by (simp add: t_def m algebra_simps)
    then obtain u where u: "consputc BACKSPACE t = Ok u" "echoed t u" "can_echo (n + 3 * m) u" using consputc_ok by blast
    note eu = echoed_cons [OF u(2)]
    obtain s' where "kill_line k u = Ok s'" "cons_ok s'" "cons_ready s' = cons_ready u" "cons_edit s' = []" "can_echo n s'"
      using Suc.IH [of u] eu d u(3) Suc.prems(2) m by auto
    moreover have "kill_line (Suc k) s = kill_line k u" using c u(1) by (simp add: t_def)
    ultimately show ?thesis using eu d by auto
  qed
qed simp


text \<open>A character that is stored.\<close>

definition add_char :: "byte \<Rightarrow> 'z dstate_scheme \<Rightarrow> 'z dstate_scheme" where
  "add_char c s = s\<lparr>cons_buf := (cons_buf s)(unat (cons_e s) mod INPUT_BUF_SIZE := c), cons_e := cons_e s + 1\<rparr>"

lemma add_char_ok:
  assumes "cons_ok s" "length (cons_ready s) + length (cons_edit s) < INPUT_BUF_SIZE"
  shows "cons_ready (add_char c s) = cons_ready s" "cons_edit (add_char c s) = cons_edit s @ [c]"
    "unat (cons_e s + 1 - cons_r s) = Suc (length (cons_ready s) + length (cons_edit s))"
proof -
  have u: "unat (cons_e s - cons_r s) = length (cons_ready s) + length (cons_edit s)" using assms(1) by (simp add: cons_ok_def)
  show "cons_ready (add_char c s) = cons_ready s"
    using cons_ring.ring_other [of "cons_e s" "cons_r s" "cons_w s" "cons_buf s" c] u assms(2) by (simp add: cons_ready_def add_char_def)
  show "cons_edit (add_char c s) = cons_edit s @ [c]"
    using cons_ring.ring_push [of "cons_e s" "cons_w s" "cons_buf s" c] assms(2) by (simp add: cons_edit_def add_char_def)
  have "unat (cons_e s - cons_r s) < 128" using u assms(2) by simp
  then have "unat (cons_e s - cons_r s + 1) = Suc (unat (cons_e s - cons_r s))" by (simp add: unat_word_ariths)
  moreover have e1: "cons_e s + 1 - cons_r s = cons_e s - cons_r s + 1" by simp
  ultimately show "unat (cons_e s + 1 - cons_r s) = Suc (length (cons_ready s) + length (cons_edit s))" unfolding e1 using u by simp
qed

lemma commit_line:
  assumes "unat (cons_e t - cons_r t) = length (cons_ready t) + length (cons_edit t)"
  shows "cons_ready (t\<lparr>cons_w := cons_e t\<rparr>) = cons_ready t @ cons_edit t" "cons_edit (t\<lparr>cons_w := cons_e t\<rparr>) = []"
  using ring_append [of "cons_w t" "cons_r t" "cons_e t" INPUT_BUF_SIZE "cons_buf t"] assms by (simp_all add: cons_ready_def cons_edit_def)

lemma cons_wakeup [simp]:
  "cons_ready (wakeup ch s) = cons_ready s" "cons_edit (wakeup ch s) = cons_edit s" "cons_ok (wakeup ch s) = cons_ok s"
  "cons_e (wakeup ch s) = cons_e s" "cons_r (wakeup ch s) = cons_r s" "cons_w (wakeup ch s) = cons_w s" "cons_buf (wakeup ch s) = cons_buf s"
  by (simp_all add: wakeup_eq cons_ready_def cons_edit_def cons_ok_def)

lemma consoleintr_char:
  assumes "cons_ok s" "0 < c" "c < 256" "can_echo 3 s" "length (cons_ready s) + length (cons_edit s) < INPUT_BUF_SIZE"
    "c \<noteq> ctrl (CHR ''P'')" "c \<noteq> ctrl (CHR ''U'')" "c \<noteq> ctrl (CHR ''H'')" "c \<noteq> 0x7f"
  shows "\<exists>s'. consoleintr c s = Ok s' \<and> cons_ok s' \<and> (cons_ready s', cons_edit s') = cons_type c (cons_ready s, cons_edit s)"
proof -
  define d where "d = (if c = 13 then 10 else c)"
  have ten: "(word_of_int d :: byte) = 10 \<longleftrightarrow> d = 10"
    using assms(2,3) by (auto simp: d_def word_uint_eq_iff uint_word_of_int_eq take_bit_int_eq_self)
  have ne: "cons_e s - cons_r s < of_nat INPUT_BUF_SIZE"
    using assms(1,5) by (simp add: cons_ok_def word_less_nat_alt)
  obtain t where t: "consputc d s = Ok t" "echoed s t" using consputc_ok [of 0 s d] assms(4) by auto
  note et = echoed_cons [OF t(2)]
  define u where "u = add_char (word_of_int d) t"
  have ok: "cons_ok t" and less: "length (cons_ready t) + length (cons_edit t) < INPUT_BUF_SIZE" using et assms(1,5) by auto
  note a = add_char_ok(1,2) [OF ok less, of "word_of_int d", folded u_def] add_char_ok(3) [OF ok less]
  have ue: "cons_e u = cons_e t + 1" "cons_r u = cons_r t" by (simp_all add: u_def add_char_def)
  have len: "unat (cons_e u - cons_r u) = length (cons_ready u) + length (cons_edit u)" using a ue by simp
  have full: "cons_e u - cons_r u = of_nat INPUT_BUF_SIZE \<longleftrightarrow> length (cons_ready u) + length (cons_edit u) = INPUT_BUF_SIZE"
    using len by (simp add: word_unat_eq_iff)
  define v where "v = wakeup Ch_cons (u\<lparr>cons_w := cons_e u\<rparr>)"
  note cl = commit_line [OF len]
  have "consoleintr c s = Ok (if d = 10 \<or> d = ctrl (CHR ''D'') \<or> length (cons_ready u) + length (cons_edit u) = INPUT_BUF_SIZE then v else u)"
    using assms(2,6-) ne t(1) full by (auto simp: consoleintr_def d_def [symmetric] u_def add_char_def v_def Let_def)
  moreover have "cons_ok v"
    using len less a(1,2) cl by (simp add: v_def cons_ok_def)
  moreover have "cons_ok u" if "d \<noteq> 10" using that ten ok less len a(1,2) by (simp add: cons_ok_def)
  moreover have "cons_ready v = cons_ready s @ cons_edit s @ [word_of_int d]" "cons_edit v = []"
    using cl a(1,2) et by (simp_all add: v_def)
  moreover have "cons_ready u = cons_ready s" "cons_edit u = cons_edit s @ [word_of_int d]" using a(1,2) et by simp_all
  ultimately show ?thesis
    using assms(2,5-) by (auto simp: cons_type_def d_def [symmetric] Let_def)
qed

text \<open>
  C15. The console implements a line editor: on every character from the keyboard \<^verbatim>\<open>consoleintr\<close> does to the readable input and the
  edited line what \<open>cons_type\<close> says - erase, kill, end of line, end of file, full buffer - and never lets the ring overrun
  the 128 bytes, provided the UART takes the echoed characters.
\<close>

theorem consoleintr_refines:
  assumes "cons_ok s" "0 \<le> c" "c < 256" "can_echo (3 * (INPUT_BUF_SIZE + length (procdump_bytes s))) s"
  shows "\<exists>s'. consoleintr c s = Ok s' \<and> cons_ok s' \<and> (cons_ready s', cons_edit s') = cons_type c (cons_ready s, cons_edit s)"
proof -
  have echo: "can_echo (3 * length (procdump_bytes s)) s" "can_echo (3 * length (cons_edit s)) s" "can_echo 3 s"
    using assms(1,4) by (auto simp: cons_ok_def intro: can_echo_mono)
  have ctl: "ctrl (CHR ''P'') = 16" "ctrl (CHR ''U'') = 21" "ctrl (CHR ''H'') = 8" "ctrl (CHR ''D'') = 4" by (code_simp)+
  consider "c = ctrl (CHR ''P'')" | "c = ctrl (CHR ''U'')" | "c = ctrl (CHR ''H'') \<or> c = 0x7f"
    | "c \<noteq> ctrl (CHR ''P'')" "c \<noteq> ctrl (CHR ''U'')" "c \<noteq> ctrl (CHR ''H'')" "c \<noteq> 0x7f" "\<not> (c \<noteq> 0 \<and> length (cons_ready s) + length (cons_edit s) < INPUT_BUF_SIZE)"
    | "c \<noteq> ctrl (CHR ''P'')" "c \<noteq> ctrl (CHR ''U'')" "c \<noteq> ctrl (CHR ''H'')" "c \<noteq> 0x7f" "c \<noteq> 0" "length (cons_ready s) + length (cons_edit s) < INPUT_BUF_SIZE"
    by blast
  then show ?thesis
  proof cases
    case 1
    then show ?thesis using consputs_ok [of 0 "procdump_bytes s" s] echo(1) assms(1) echoed_cons by (fastforce simp: consoleintr_def cons_type_def)
  next
    case 2
    have "length (cons_edit s) = unat (cons_e s - cons_w s)" by (simp add: cons_edit_def)
    then show ?thesis using 2 kill_line_ok [of s "Suc (unat (cons_e s - cons_w s))" 0] assms(1) echo(2) by (auto simp: consoleintr_def cons_type_def ctl)
  next
    case 3
    then have i: "consoleintr c s = (if cons_e s \<noteq> cons_w s then consputc BACKSPACE (s\<lparr>cons_e := cons_e s - 1\<rparr>) else Ok s)"
      "cons_type c (cons_ready s, cons_edit s) = (cons_ready s, butlast (cons_edit s))"
      by (auto simp: consoleintr_def cons_type_def ctl)
    show ?thesis
    proof (cases "cons_edit s = []")
      case True
      then show ?thesis using i assms(1) cons_edit_empty [of s] by simp
    next
      case False
      note d = del_char [OF assms(1) False]
      obtain u where "consputc BACKSPACE (s\<lparr>cons_e := cons_e s - 1\<rparr>) = Ok u" "echoed (s\<lparr>cons_e := cons_e s - 1\<rparr>) u"
        using consputc_ok [of 0 "s\<lparr>cons_e := cons_e s - 1\<rparr>" BACKSPACE] echo(3) by auto
      then show ?thesis using i d False cons_edit_empty [of s] echoed_cons by fastforce
    qed
  next
    case 4
    have "cons_e s - cons_r s < of_nat INPUT_BUF_SIZE \<longleftrightarrow> length (cons_ready s) + length (cons_edit s) < INPUT_BUF_SIZE"
      using assms(1) by (simp add: cons_ok_def word_less_nat_alt)
    then show ?thesis using 4 assms(1) by (auto simp: consoleintr_def cons_type_def)
  next
    case 5
    then show ?thesis using assms echo by (intro consoleintr_char) auto
  qed
qed

text \<open>The console with nothing typed yet.\<close>

lemma cons_boot:
  "cons_ok (dev_boot\<lparr>dev_room := r\<rparr>)" "cons_ready (dev_boot\<lparr>dev_room := r\<rparr>) = []" "cons_edit (dev_boot\<lparr>dev_room := r\<rparr>) = []"
  "can_echo r (dev_boot\<lparr>dev_room := r\<rparr>)" "procdump_bytes (dev_boot\<lparr>dev_room := r\<rparr>) = [10]"
  by (simp_all add: cons_ok_def cons_ready_def cons_edit_def can_echo_def mycpu_def procdump_bytes_def procdump_def dev_boot_simps)

theorem consoleintr_refines_witness:
  "cons_ok (dev_boot\<lparr>dev_room := 387\<rparr>)
   \<and> (\<exists>s'. consoleintr 65 (dev_boot\<lparr>dev_room := 387\<rparr>) = Ok s' \<and> (cons_ready s', cons_edit s') = cons_type 65 ([], []))"
  using consoleintr_refines [of "dev_boot\<lparr>dev_room := 387\<rparr>" 65] cons_boot [of 387]
  by auto

section \<open>Reading a line\<close>

lemma take_char:
  assumes "cons_ready s = c # rdy"
  shows "cons_ready (s\<lparr>cons_r := cons_r s + 1\<rparr>) = rdy" "cons_edit (s\<lparr>cons_r := cons_r s + 1\<rparr>) = cons_edit s"
    "cons_buf s (unat (cons_r s) mod INPUT_BUF_SIZE) = c" "cons_r s \<noteq> cons_w s"
    "cons_ok s \<Longrightarrow> cons_ok (s\<lparr>cons_r := cons_r s + 1\<rparr>)"
proof -
  show ne: "cons_r s \<noteq> cons_w s" using assms by (auto simp: cons_ready_def)
  have *: "cons_buf s (unat (cons_r s) mod INPUT_BUF_SIZE) # cons_ready (s\<lparr>cons_r := cons_r s + 1\<rparr>) = c # rdy"
    using ring_Cons [OF ne, of INPUT_BUF_SIZE "cons_buf s"] assms by (simp add: cons_ready_def)
  then show r: "cons_ready (s\<lparr>cons_r := cons_r s + 1\<rparr>) = rdy" and "cons_buf s (unat (cons_r s) mod INPUT_BUF_SIZE) = c" by auto
  show e: "cons_edit (s\<lparr>cons_r := cons_r s + 1\<rparr>) = cons_edit s" by (simp add: cons_edit_def)
  assume ok: "cons_ok s"
  have "unat (cons_e s - cons_r s) = Suc (length rdy + length (cons_edit s))" using ok assms by (simp add: cons_ok_def)
  moreover from this have "cons_e s - cons_r s \<noteq> 0" by (metis nat.distinct(1) unat_0)
  then have "unat (cons_e s - cons_r s - 1) = unat (cons_e s - cons_r s) - 1" by (rule unat_pred)
  moreover have e1: "cons_e s - (cons_r s + 1) = cons_e s - cons_r s - 1" by simp
  ultimately have "unat (cons_e s - (cons_r s + 1)) = length rdy + length (cons_edit s)" unfolding e1 by simp
  then show "cons_ok (s\<lparr>cons_r := cons_r s + 1\<rparr>)" using ok assms unfolding cons_ok_def r e by simp
qed

lemma cons_pmem [simp]:
  "cons_ready (s\<lparr>pmem := m\<rparr>) = cons_ready s" "cons_edit (s\<lparr>pmem := m\<rparr>) = cons_edit s" "cons_ok (s\<lparr>pmem := m\<rparr>) = cons_ok s"
  by (simp_all add: cons_ready_def cons_edit_def cons_ok_def)

lemma consoleread_loop_line:
  assumes "uvm_inv s (cur_pt s) ps lim" "cons_ok s" "cons_ready s = l @ 10 # more_in" "10 \<notin> set l" "4 \<notin> set l" "length l < k" "k < 2 ^ 32"
    "\<forall>j\<le>length l. uwrite (pmem s) (cur_pt s) (dst + of_nat j)"
  shows "\<exists>s'. consoleread_loop k target True dst s = Ok (Some (int k - int (length l) - 1), s') \<and> cons_ok s' \<and> cons_ready s' = more_in
    \<and> cons_edit s' = cons_edit s \<and> user_mem (cur_pt s) dst (l @ [10]) (pmem s) (pmem s')"
  using assms
proof (induction k arbitrary: s l dst)
  case (Suc k)
  obtain c l' where c: "l @ 10 # more_in = c # l'" by (cases l) auto
  define t where "t = s\<lparr>cons_r := cons_r s + 1\<rparr>"
  note tk = take_char [OF Suc.prems(3) [unfolded c], folded t_def]
  have ctl: "ctrl (CHR ''D'') = 4" by code_simp
  have nd: "uint c \<noteq> 4" using c Suc.prems(5) by (cases l) (auto simp: word_uint_eq_iff)
  have tp: "pmem t = pmem s" "cur_pt t = cur_pt s" "freelist t = freelist s" "kend t = kend s" by (simp_all add: t_def)
  have inv: "uvm_inv t (cur_pt s) ps lim" using Suc.prems(1) tp by (simp add: uvm_inv_cong [of t s])
  obtain m where m: "copyout (cur_pt s) dst [c] t = Ok (0, t\<lparr>pmem := m\<rparr>)" "user_mem (cur_pt s) dst [c] (pmem s) m" "uvm_inv (t\<lparr>pmem := m\<rparr>) (cur_pt s) ps lim"
    using copyout_all [OF inv, of "[c]" dst] Suc.prems(8) tp by fastforce
  have run: "consoleread_loop (Suc k) target True dst s =
      (if c = 10 then Ok (Some (int k), t\<lparr>pmem := m\<rparr>) else consoleread_loop k target True (dst + 1) (t\<lparr>pmem := m\<rparr>))"
    using tk(3,4) nd m(1) tp(2) by (simp add: t_def [symmetric] either_copyout_def ctl del: INPUT_BUF_SIZE_def)
  show ?case
  proof (cases l)
    case Nil
    then have "c = 10" "l' = more_in" using c by auto
    then show ?thesis using run Nil tk Suc.prems(2) m(2) by simp
  next
    case (Cons d ds)
    then have cd: "c = d" "l' = ds @ 10 # more_in" "d \<noteq> 10" using c Suc.prems(4) by auto
    have w: "\<forall>j\<le>length ds. uwrite m (cur_pt s) (dst + 1 + of_nat j)"
    proof (intro allI impI)
      fix j assume "j \<le> length ds"
      then have "uwrite (pmem s) (cur_pt s) (dst + of_nat (Suc j))" using Suc.prems(8) Cons by (auto simp del: of_nat_Suc)
      then show "uwrite m (cur_pt s) (dst + 1 + of_nat j)" using user_mem_access(1) [OF m(2)] by (simp add: algebra_simps)
    qed
    obtain s' where s': "consoleread_loop k target True (dst + 1) (t\<lparr>pmem := m\<rparr>) = Ok (Some (int k - int (length ds) - 1), s')" "cons_ok s'" "cons_ready s' = more_in"
        "cons_edit s' = cons_edit s" "user_mem (cur_pt s) (dst + 1) (ds @ [10]) m (pmem s')"
      using Suc.IH [of "t\<lparr>pmem := m\<rparr>" ds "dst + 1"] m(3) tk(1,2,5) Suc.prems cd Cons w tp by auto
    have "user_mem (cur_pt s) dst ([c] @ ds @ [10]) (pmem s) (pmem s')"
      using user_mem_append [OF m(2), of "ds @ [10]" "pmem s'"] s'(5) Suc.prems(6,7) Cons by simp
    then show ?thesis using run s' cd Cons by simp
  qed
qed simp

text \<open>
  C28. A program that reads the console gets the next line: \<^verbatim>\<open>consoleread\<close> copies the readable bytes up to and including the first newline
  to the caller's buffer, returns their number and leaves the rest for the next read.
\<close>

theorem consoleread_line:
  assumes "uvm_inv s (cur_pt s) ps lim" "cons_ok s" "cons_ready s = l @ 10 # more_in" "10 \<notin> set l" "4 \<notin> set l" "length l < n" "n < 2 ^ 31"
    "\<forall>j\<le>length l. uwrite (pmem s) (cur_pt s) (dst + of_nat j)"
  shows "\<exists>s'. consoleread True dst (int n) s = Ok (int (length l) + 1, s') \<and> cons_ok s' \<and> cons_ready s' = more_in \<and> cons_edit s' = cons_edit s
    \<and> (\<forall>j\<le>length l. ubyte (pmem s') (cur_pt s) (dst + of_nat j) = (l @ [10]) ! j)"
proof -
  obtain s' where s': "consoleread_loop n (int n) True dst s = Ok (Some (int n - int (length l) - 1), s')" "cons_ok s'" "cons_ready s' = more_in"
      "cons_edit s' = cons_edit s" "user_mem (cur_pt s) dst (l @ [10]) (pmem s) (pmem s')"
    using consoleread_loop_line [OF assms(1-6) _ assms(8), of "int n"] assms(7) by auto
  have "ubyte (pmem s') (cur_pt s) (dst + of_nat j) = (l @ [10]) ! j" if "j \<le> length l" for j
    using user_mem_nth [OF s'(5), of j] assms(6-8) that by (simp add: uwrite_def)
  then show ?thesis using s' assms(6) by (simp add: consoleread_def)
qed

definition cons_ex :: dstate where
  "cons_ex = dev_boot\<lparr>pmem := pmem uvm_ex, freelist := freelist uvm_ex, kend := kend uvm_ex, cur_pt := 0x80030000,
     cons_buf := (\<lambda>_. 0)(0 := 97, 1 := 10), cons_w := 2, cons_e := 2\<rparr>"

lemma cons_ex_ok:
  "uvm_inv cons_ex 0x80030000 [] 2" "cur_pt cons_ex = 0x80030000" "cons_ready cons_ex = [97] @ 10 # []" "cons_ok cons_ex" "pmem cons_ex = pmem uvm_ex"
proof -
  show "uvm_inv cons_ex 0x80030000 [] 2"
    using uvm_ex_inv uvm_inv_cong [of cons_ex uvm_ex] by (simp add: cons_ex_def dev_boot_simps)
  show r: "cons_ready cons_ex = [97] @ 10 # []"
    by (simp add: cons_ready_def cons_ex_def dev_boot_simps ring_def upt_conv_Cons)
  have "cons_edit cons_ex = []" by (simp add: cons_edit_def cons_ex_def dev_boot_simps)
  then show "cons_ok cons_ex" using r unfolding cons_ok_def by (simp add: cons_ex_def dev_boot_simps)
qed (simp_all add: cons_ex_def dev_boot_simps)

theorem consoleread_line_witness:
  "\<exists>s'. consoleread True 0x10 (int 100) cons_ex = Ok (2, s') \<and> cons_ready s' = []"
proof -
  have "\<forall>j\<le>1. uwrite (pmem cons_ex) (cur_pt cons_ex) (0x10 + of_nat j)"
    unfolding cons_ex_ok(2,5) by (auto intro!: uvm_ex_write simp: le_Suc_eq)
  then show ?thesis
    using consoleread_line [of cons_ex "[]" 2 "[97]" "[]" 100 "0x10"] cons_ex_ok by auto
qed

end
