(* ===== verification/File.thy ===== *)
theory File
  imports Console
begin

text \<open>
  Open files and pipes, \<^verbatim>\<open>kernel/file.c\<close> and \<^verbatim>\<open>kernel/pipe.c\<close>. A pointer to a file is its index in
  \<^verbatim>\<open>ftable.file\<close>; a pipe is known by the address of its page. The loops of \<^verbatim>\<open>pipewrite\<close> and
  \<^verbatim>\<open>piperead\<close> run up to a return or up to a call of \<^verbatim>\<open>sleep\<close>, so that a reader and a writer can be
  interleaved at their sleeps; the bytes sent before a sleep are in the pipe.
\<close>

section \<open>State\<close>

datatype ftype = FD_NONE | FD_PIPE | FD_INODE | FD_DEVICE

record kfile =
  f_type :: ftype
  f_ref :: int
  f_readable :: bool
  f_writable :: bool
  f_pipe :: addr
  f_ip :: nat
  f_off :: u32
  f_major :: u16

record pipe =
  pi_data :: "nat \<Rightarrow> byte"
  pi_nread :: u32
  pi_nwrite :: u32
  pi_readopen :: bool
  pi_writeopen :: bool

definition PIPESIZE :: nat where [simp]: "PIPESIZE = 512"
definition CONSOLE :: nat where [simp]: "CONSOLE = 1"

text \<open>\<open>devsw s m\<close>: the console functions are installed for major number \<open>m\<close>; there are no others.\<close>

record ostate = dstate +
  ftable :: "nat \<Rightarrow> kfile"
  pipes :: "addr \<Rightarrow> pipe"
  devsw :: "nat \<Rightarrow> bool"

definition updf :: "nat \<Rightarrow> (kfile \<Rightarrow> kfile) \<Rightarrow> 'z ostate_scheme \<Rightarrow> 'z ostate_scheme" where
  "updf i f s = s\<lparr>ftable := (ftable s)(i := f (ftable s i))\<rparr>"

definition updpipe :: "addr \<Rightarrow> (pipe \<Rightarrow> pipe) \<Rightarrow> 'z ostate_scheme \<Rightarrow> 'z ostate_scheme" where
  "updpipe a f s = s\<lparr>pipes := (pipes s)(a := f (pipes s a))\<rparr>"

definition consoleinit :: "'z ostate_scheme \<Rightarrow> 'z ostate_scheme" where
  "consoleinit s = (uartinit s)\<lparr>devsw := (devsw s)(CONSOLE := True)\<rparr>"

section \<open>File table\<close>

definition filealloc :: "'z ostate_scheme \<Rightarrow> nat option \<times> 'z ostate_scheme" where
  "filealloc s =
     (case find (\<lambda>i. f_ref (ftable s i) = 0) [0..<NFILE] of
        None \<Rightarrow> (None, s)
      | Some i \<Rightarrow> (Some i, updf i (\<lambda>f. f\<lparr>f_ref := 1\<rparr>) s))"

definition filedup :: "nat \<Rightarrow> 'z ostate_scheme \<Rightarrow> 'z ostate_scheme outcome" where
  "filedup f s =
     (if f_ref (ftable s f) < 1 then Panic ''filedup''
      else Ok (updf f (\<lambda>x. x\<lparr>f_ref := f_ref x + 1\<rparr>) s))"

definition pipeclose :: "addr \<Rightarrow> bool \<Rightarrow> 'z ostate_scheme \<Rightarrow> 'z ostate_scheme outcome" where
  "pipeclose pi writable s =
     (let s = (if writable then wakeup (Ch_nread pi) (updpipe pi (\<lambda>x. x\<lparr>pi_writeopen := False\<rparr>) s)
               else wakeup (Ch_nwrite pi) (updpipe pi (\<lambda>x. x\<lparr>pi_readopen := False\<rparr>) s)) in
      if \<not> pi_readopen (pipes s pi) \<and> \<not> pi_writeopen (pipes s pi) then kfree pi s else Ok s)"

definition fileclose :: "nat \<Rightarrow> 'z ostate_scheme \<Rightarrow> 'z ostate_scheme outcome" where
  "fileclose f s =
     (if f_ref (ftable s f) < 1 then Panic ''fileclose''
      else let s = updf f (\<lambda>x. x\<lparr>f_ref := f_ref x - 1\<rparr>) s in
        if f_ref (ftable s f) > 0 then Ok s
        else let ff = ftable s f;
                 s = updf f (\<lambda>x. x\<lparr>f_ref := 0, f_type := FD_NONE\<rparr>) s in
          if f_type ff = FD_PIPE then pipeclose (f_pipe ff) (f_writable ff) s
          else if f_type ff = FD_INODE \<or> f_type ff = FD_DEVICE
          then obind (begin_op s) (\<lambda>s. obind (iput (f_ip ff) s) end_op)
          else Ok s)"

text \<open>\<^verbatim>\<open>struct stat\<close> in memory: four bytes of padding, whatever the stack held, precede the size.\<close>

definition stat_bytes :: "stat \<Rightarrow> byte list \<Rightarrow> byte list" where
  "stat_bytes st pad = le_bytes 4 (st_dev st) @ le_bytes 4 (st_ino st) @ le_bytes 2 (st_type st) @ le_bytes 2 (st_nlink st)
     @ pad @ le_bytes 8 (st_size st)"

definition filestat :: "nat \<Rightarrow> u64 \<Rightarrow> 'z ostate_scheme \<Rightarrow> (int \<times> 'z ostate_scheme) outcome" where
  "filestat f a s =
     (let x = ftable s f in
      if f_type x = FD_INODE \<or> f_type x = FD_DEVICE
      then obind (ilock (f_ip x) s) (\<lambda>s.
           let st = stati (f_ip x) s in
           obind (iunlock (f_ip x) s) (\<lambda>s.
           obind (copyout (cur_pt s) a (stat_bytes st (load (pmem s) (kscr s + 12) 4)) s) (\<lambda>(r, s).
           if r < 0 then Ok (-1, s) else Ok (0, s))))
      else Ok (-1, s))"

section \<open>Pipes\<close>

definition pipealloc :: "'z ostate_scheme \<Rightarrow> ((nat \<times> nat) option \<times> 'z ostate_scheme) outcome" where
  "pipealloc s =
     (let (f0, s) = filealloc s in
      case f0 of
        None \<Rightarrow> Ok (None, s)
      | Some f0 \<Rightarrow>
          let (f1, s) = filealloc s in
          (case f1 of
             None \<Rightarrow> obind (fileclose f0 s) (\<lambda>s. Ok (None, s))
           | Some f1 \<Rightarrow>
               let (pi, s) = kalloc s in
               if pi = 0 then obind (fileclose f0 s) (\<lambda>s. obind (fileclose f1 s) (\<lambda>s. Ok (None, s)))
               else let s = updpipe pi (\<lambda>x. x\<lparr>pi_readopen := True, pi_writeopen := True, pi_nwrite := 0, pi_nread := 0\<rparr>) s;
                        s = updf f0 (\<lambda>x. x\<lparr>f_type := FD_PIPE, f_readable := True, f_writable := False, f_pipe := pi\<rparr>) s;
                        s = updf f1 (\<lambda>x. x\<lparr>f_type := FD_PIPE, f_readable := False, f_writable := True, f_pipe := pi\<rparr>) s
                    in Ok (Some (f0, f1), s)))"

text \<open>\<open>Inl r\<close>: the function returned \<open>r\<close>; \<open>Inr i\<close>: it sleeps with the loop counter at \<open>i\<close>.\<close>

primrec pipewrite_loop :: "nat \<Rightarrow> addr \<Rightarrow> u64 \<Rightarrow> int \<Rightarrow> int \<Rightarrow> 'z ostate_scheme \<Rightarrow> ((int + int) \<times> 'z ostate_scheme) outcome" where
  "pipewrite_loop 0 pi a n i s = Blocks"
| "pipewrite_loop (Suc k) pi a n i s =
     (if \<not> i < n then Ok (Inl i, wakeup (Ch_nread pi) s)
      else if \<not> pi_readopen (pipes s pi) \<or> killed (curp s) s then Ok (Inl (-1), s)
      else if pi_nwrite (pipes s pi) = pi_nread (pipes s pi) + of_nat PIPESIZE
      then Ok (Inr i, wakeup (Ch_nread pi) s)
      else obind (copyin (cur_pt s) (a + word_of_int i) 1 s) (\<lambda>r.
           case r of
             None \<Rightarrow> Ok (Inl i, wakeup (Ch_nread pi) s)
           | Some bs \<Rightarrow>
               pipewrite_loop k pi a n (i + 1)
                 (updpipe pi (\<lambda>x. x\<lparr>pi_data := (pi_data x)(unat (pi_nwrite x) mod PIPESIZE := hd bs), pi_nwrite := pi_nwrite x + 1\<rparr>) s)))"

definition pipewrite_from :: "addr \<Rightarrow> u64 \<Rightarrow> int \<Rightarrow> int \<Rightarrow> 'z ostate_scheme \<Rightarrow> ((int + int) \<times> 'z ostate_scheme) outcome" where
  "pipewrite_from pi a n i s = pipewrite_loop (Suc (nat (n - i))) pi a n i s"

definition pipewrite :: "addr \<Rightarrow> u64 \<Rightarrow> int \<Rightarrow> 'z ostate_scheme \<Rightarrow> ((int + int) \<times> 'z ostate_scheme) outcome" where
  "pipewrite pi a n s = pipewrite_from pi a n 0 s"

primrec piperead_loop :: "nat \<Rightarrow> addr \<Rightarrow> u64 \<Rightarrow> int \<Rightarrow> int \<Rightarrow> 'z ostate_scheme \<Rightarrow> (int \<times> 'z ostate_scheme) outcome" where
  "piperead_loop 0 pi a n i s = Ok (i, s)"
| "piperead_loop (Suc k) pi a n i s =
     (if pi_nread (pipes s pi) = pi_nwrite (pipes s pi) then Ok (i, s)
      else let ch = pi_data (pipes s pi) (unat (pi_nread (pipes s pi)) mod PIPESIZE);
               s = updpipe pi (\<lambda>x. x\<lparr>pi_nread := pi_nread x + 1\<rparr>) s in
           obind (copyout (cur_pt s) (a + word_of_int i) [ch] s) (\<lambda>(r, s).
           if r = -1 then Ok (i, s) else piperead_loop k pi a n (i + 1) s))"

text \<open>\<open>None\<close>: the reader sleeps, waiting for data.\<close>

definition piperead :: "addr \<Rightarrow> u64 \<Rightarrow> int \<Rightarrow> 'z ostate_scheme \<Rightarrow> (int option \<times> 'z ostate_scheme) outcome" where
  "piperead pi a n s =
     (if pi_nread (pipes s pi) = pi_nwrite (pipes s pi) \<and> pi_writeopen (pipes s pi)
      then if killed (curp s) s then Ok (Some (-1), s) else Ok (None, s)
      else obind (piperead_loop (nat n) pi a n 0 s) (\<lambda>(i, s). Ok (Some i, wakeup (Ch_nwrite pi) s)))"

section \<open>Reading and writing\<close>

definition dev_ok :: "u16 \<Rightarrow> 'z ostate_scheme \<Rightarrow> bool" where
  "dev_ok m s \<longleftrightarrow> \<not> (sint m < 0 \<or> sint m \<ge> int NDEV \<or> \<not> devsw s (nat (sint m)))"

definition fileread :: "nat \<Rightarrow> u64 \<Rightarrow> int \<Rightarrow> 'z ostate_scheme \<Rightarrow> (int \<times> 'z ostate_scheme) outcome" where
  "fileread f a n s =
     (let x = ftable s f in
      if \<not> f_readable x then Ok (-1, s)
      else case f_type x of
        FD_PIPE \<Rightarrow> obind (piperead (f_pipe x) a n s) (\<lambda>(r, s). case r of None \<Rightarrow> Blocks | Some i \<Rightarrow> Ok (i, s))
      | FD_DEVICE \<Rightarrow> if dev_ok (f_major x) s then consoleread True a n s else Ok (-1, s)
      | FD_INODE \<Rightarrow>
          obind (ilock (f_ip x) s) (\<lambda>s.
          obind (readi (f_ip x) True a (f_off x) (word_of_int n) s) (\<lambda>(r, s).
          let s = (if sint r > 0 then updf f (\<lambda>y. y\<lparr>f_off := f_off y + r\<rparr>) s else s) in
          obind (iunlock (f_ip x) s) (\<lambda>s. Ok (sint r, s))))
      | FD_NONE \<Rightarrow> Panic ''fileread'')"

definition FW_MAX :: int where [simp]: "FW_MAX = ((int MAXOPBLOCKS - 1 - 1 - 2) div 2) * int BSIZE"

primrec filewrite_loop :: "nat \<Rightarrow> nat \<Rightarrow> u64 \<Rightarrow> int \<Rightarrow> int \<Rightarrow> 'z ostate_scheme \<Rightarrow> (int \<times> 'z ostate_scheme) outcome" where
  "filewrite_loop 0 f a n i s = Blocks"
| "filewrite_loop (Suc k) f a n i s =
     (if \<not> i < n then Ok (i, s)
      else let n1 = (if n - i > FW_MAX then FW_MAX else n - i); ip = f_ip (ftable s f) in
        obind (begin_op s) (\<lambda>s.
        obind (ilock ip s) (\<lambda>s.
        obind (writei ip True (a + word_of_int i) (f_off (ftable s f)) (word_of_int n1) s) (\<lambda>(r, s).
        let r' = (case r of None \<Rightarrow> -1 | Some v \<Rightarrow> sint v);
            s = (if r' > 0 then updf f (\<lambda>y. y\<lparr>f_off := f_off y + word_of_int r'\<rparr>) s else s) in
        obind (iunlock ip s) (\<lambda>s.
        obind (end_op s) (\<lambda>s.
        if r' \<noteq> n1 then Ok (i, s) else filewrite_loop k f a n (i + r') s))))))"

definition filewrite :: "nat \<Rightarrow> u64 \<Rightarrow> int \<Rightarrow> 'z ostate_scheme \<Rightarrow> (int \<times> 'z ostate_scheme) outcome" where
  "filewrite f a n s =
     (let x = ftable s f in
      if \<not> f_writable x then Ok (-1, s)
      else case f_type x of
        FD_PIPE \<Rightarrow> obind (pipewrite (f_pipe x) a n s) (\<lambda>(r, s). case r of Inr i \<Rightarrow> Blocks | Inl i \<Rightarrow> Ok (i, s))
      | FD_DEVICE \<Rightarrow> if dev_ok (f_major x) s then consolewrite True a n s else Ok (-1, s)
      | FD_INODE \<Rightarrow> obind (filewrite_loop (Suc (nat n)) f a n 0 s) (\<lambda>(i, s). Ok (if i = n then n else -1, s))
      | FD_NONE \<Rightarrow> Panic ''filewrite'')"

section \<open>The state before initialisation\<close>

definition zero_file :: kfile where
  "zero_file = \<lparr>f_type = FD_NONE, f_ref = 0, f_readable = False, f_writable = False, f_pipe = 0, f_ip = 0, f_off = 0, f_major = 0\<rparr>"

definition zero_pipe :: pipe where
  "zero_pipe = \<lparr>pi_data = (\<lambda>_. 0), pi_nread = 0, pi_nwrite = 0, pi_readopen = False, pi_writeopen = False\<rparr>"

definition os_boot :: ostate where
  "os_boot = dstate.extend dev_boot (ostate.fields (\<lambda>_. zero_file) (\<lambda>_. zero_pipe) (\<lambda>_. False))"

lemmas os_boot_simps = dev_boot_simps zero_file_def zero_pipe_def os_boot_def ostate.defs

end
