(* ===== verification/Virtio.thy ===== *)
theory Virtio
  imports Kalloc Fsdefs
begin

text \<open>
  The disk driver, \<^verbatim>\<open>kernel/virtio_disk.c\<close> with \<^verbatim>\<open>kernel/virtio.h\<close>: descriptors, the available and used
  rings, and the in-flight operations. The device registers are arguments; the device itself is a step
  of the environment that takes the next chain of the available ring, carries the request out and
  reports it in the used ring, as the virtio specification says. \<^verbatim>\<open>virtio_disk_rw\<close> is cut at the
  \<^verbatim>\<open>sleep\<close> that waits for the completion.
\<close>

section \<open>Driver state\<close>

definition NUM :: nat where [simp]: "NUM = 8"
definition VRING_DESC_F_NEXT :: u16 where [simp]: "VRING_DESC_F_NEXT = 1"
definition VRING_DESC_F_WRITE :: u16 where [simp]: "VRING_DESC_F_WRITE = 2"
definition VIRTIO_BLK_T_IN :: u32 where [simp]: "VIRTIO_BLK_T_IN = 0"
definition VIRTIO_BLK_T_OUT :: u32 where [simp]: "VIRTIO_BLK_T_OUT = 1"

text \<open>The memory a descriptor points to: nothing, a command header, the data of a buffer or a status byte.\<close>

datatype dref = D_null | D_op nat | D_data nat | D_status nat

record vdesc =
  vd_addr :: dref
  vd_len :: u32
  vd_flags :: u16
  vd_next :: nat

record vreq =
  rq_type :: u32
  rq_reserved :: u32
  rq_sector :: u64

record vdisk =
  desc :: "nat \<Rightarrow> vdesc"
  avail_idx :: u16
  avail_ring :: "nat \<Rightarrow> nat"
  used_ring_idx :: u16
  used_ring :: "nat \<Rightarrow> nat"
  vfree :: "nat \<Rightarrow> bool"
  used_idx :: u16
  info_b :: "nat \<Rightarrow> nat option"
  info_status :: "nat \<Rightarrow> byte"
  vops :: "nat \<Rightarrow> vreq"
  b_disk :: "nat \<Rightarrow> bool" \<comment> \<open>the field \<^verbatim>\<open>disk\<close> of the buffers\<close>
  desc_page :: addr
  avail_page :: addr
  used_page :: addr
  mmio :: "(nat \<times> u32) list" \<comment> \<open>the register writes, in order\<close>

definition mmio_write :: "nat \<Rightarrow> u32 \<Rightarrow> vdisk \<Rightarrow> vdisk" where
  "mmio_write r v d = d\<lparr>mmio := mmio d @ [(r, v)]\<rparr>"

section \<open>Initialisation\<close>

definition null_desc :: vdesc where
  "null_desc = \<lparr>vd_addr = D_null, vd_len = 0, vd_flags = 0, vd_next = 0\<rparr>"

text \<open>
  The features the driver accepts: the mask clears bits 5, 7, 11, 12, 27, 29 and 28. The complement is
  taken of an \<^verbatim>\<open>int\<close> and widened with its sign, so the upper half of the 64-bit value is kept.
\<close>

definition virtio_features :: "u32 \<Rightarrow> u32" where
  "virtio_features f = f AND NOT (push_bit 5 1) AND NOT (push_bit 7 1) AND NOT (push_bit 11 1) AND NOT (push_bit 12 1)
     AND NOT (push_bit 27 1) AND NOT (push_bit 29 1) AND NOT (push_bit 28 1)"

text \<open>\<open>R\<close> gives the registers that are read, \<open>st\<close> the status register after the negotiation.\<close>

definition virtio_disk_init :: "(nat \<Rightarrow> u32) \<Rightarrow> u32 \<Rightarrow> vdisk \<Rightarrow> 'z kmem_scheme \<Rightarrow> (vdisk \<times> 'z kmem_scheme) outcome" where
  "virtio_disk_init R st d s =
     (if R 0x000 \<noteq> 0x74726976 \<or> R 0x004 \<noteq> 2 \<or> R 0x008 \<noteq> 2 \<or> R 0x00c \<noteq> 0x554d4551
      then Panic ''could not find virtio disk''
      else let d = mmio_write 0x070 0 d;
               d = mmio_write 0x070 1 d;
               d = mmio_write 0x070 (1 OR 2) d;
               d = mmio_write 0x020 (virtio_features (R 0x010)) d;
               d = mmio_write 0x070 (1 OR 2 OR 8) d in
      if st AND 8 = 0 then Panic ''virtio disk FEATURES_OK unset''
      else let d = mmio_write 0x030 0 d in
      if R 0x044 \<noteq> 0 then Panic ''virtio disk should not be ready''
      else if R 0x034 = 0 then Panic ''virtio disk has no queue 0''
      else if R 0x034 < of_nat NUM then Panic ''virtio disk max queue too short''
      else let (pd, s) = kalloc s; (pa, s) = kalloc s; (pu, s) = kalloc s in
      if pd = 0 \<or> pa = 0 \<or> pu = 0 then Panic ''virtio disk kalloc''
      else let s = s\<lparr>pmem := store (store (store (pmem s) pd (replicate 4096 0)) pa (replicate 4096 0)) pu (replicate 4096 0)\<rparr>;
               d = d\<lparr>desc_page := pd, avail_page := pa, used_page := pu, desc := (\<lambda>_. null_desc), avail_idx := 0,
                     avail_ring := (\<lambda>_. 0), used_ring_idx := 0, used_ring := (\<lambda>_. 0)\<rparr>;
               d = mmio_write 0x038 (of_nat NUM) d;
               d = mmio_write 0x080 (ucast pd) d;
               d = mmio_write 0x084 (ucast (drop_bit 32 pd)) d;
               d = mmio_write 0x090 (ucast pa) d;
               d = mmio_write 0x094 (ucast (drop_bit 32 pa)) d;
               d = mmio_write 0x0a0 (ucast pu) d;
               d = mmio_write 0x0a4 (ucast (drop_bit 32 pu)) d;
               d = mmio_write 0x044 1 d;
               d = d\<lparr>vfree := (\<lambda>i. i < NUM \<or> vfree d i)\<rparr> in
           Ok (mmio_write 0x070 (st OR 4) d, s))"

section \<open>Descriptors\<close>

definition alloc_desc :: "vdisk \<Rightarrow> nat option \<times> vdisk" where
  "alloc_desc d =
     (case find (\<lambda>i. vfree d i) [0..<NUM] of
        None \<Rightarrow> (None, d)
      | Some i \<Rightarrow> (Some i, d\<lparr>vfree := (vfree d)(i := False)\<rparr>))"

definition free_desc :: "nat \<Rightarrow> vdisk \<Rightarrow> vdisk outcome" where
  "free_desc i d =
     (if i \<ge> NUM then Panic ''free_desc 1''
      else if vfree d i then Panic ''free_desc 2''
      else Ok (d\<lparr>desc := (desc d)(i := null_desc), vfree := (vfree d)(i := True)\<rparr>))"

text \<open>A chain has at most \<open>NUM\<close> descriptors: freeing one twice panics.\<close>

primrec free_chain :: "nat \<Rightarrow> nat \<Rightarrow> vdisk \<Rightarrow> vdisk outcome" where
  "free_chain 0 i d = Blocks"
| "free_chain (Suc k) i d =
     (let flag = vd_flags (desc d i); nxt = vd_next (desc d i) in
      obind (free_desc i d) (\<lambda>d.
      if flag AND VRING_DESC_F_NEXT \<noteq> 0 then free_chain k nxt d else Ok d))"

definition free_descs :: "nat list \<Rightarrow> vdisk \<Rightarrow> vdisk outcome" where
  "free_descs is d = fold (\<lambda>i r. obind r (free_desc i)) is (Ok d)"

primrec alloc3_loop :: "nat \<Rightarrow> nat list \<Rightarrow> vdisk \<Rightarrow> (nat list option \<times> vdisk) outcome" where
  "alloc3_loop 0 idx d = Ok (Some idx, d)"
| "alloc3_loop (Suc k) idx d =
     (let (r, d) = alloc_desc d in
      case r of
        Some i \<Rightarrow> alloc3_loop k (idx @ [i]) d
      | None \<Rightarrow> obind (free_descs idx d) (\<lambda>d. Ok (None, d)))"

definition alloc3_desc :: "vdisk \<Rightarrow> (nat list option \<times> vdisk) outcome" where
  "alloc3_desc d = alloc3_loop 3 [] d"

section \<open>Requests\<close>

text \<open>Up to the notification of the device: the head of the chain, or \<open>None\<close> when the caller has to wait for descriptors.\<close>

definition disk_rw_start :: "nat \<Rightarrow> u32 \<Rightarrow> bool \<Rightarrow> vdisk \<Rightarrow> (nat option \<times> vdisk) outcome" where
  "disk_rw_start b blockno write d =
     obind (alloc3_desc d) (\<lambda>(r, d).
     case r of
       None \<Rightarrow> Ok (None, d)
     | Some idx \<Rightarrow>
         let i0 = idx ! 0; i1 = idx ! 1; i2 = idx ! 2;
             d = d\<lparr>vops := (vops d)(i0 := \<lparr>rq_type = (if write then VIRTIO_BLK_T_OUT else VIRTIO_BLK_T_IN), rq_reserved = 0,
                                            rq_sector = ucast (blockno * of_nat (BSIZE div 512))\<rparr>)\<rparr>;
             d = d\<lparr>desc := (desc d)(i0 := \<lparr>vd_addr = D_op i0, vd_len = 16, vd_flags = VRING_DESC_F_NEXT, vd_next = i1\<rparr>)\<rparr>;
             d = d\<lparr>desc := (desc d)(i1 := \<lparr>vd_addr = D_data b, vd_len = of_nat BSIZE,
                                           vd_flags = (if write then 0 else VRING_DESC_F_WRITE) OR VRING_DESC_F_NEXT, vd_next = i2\<rparr>)\<rparr>;
             d = d\<lparr>info_status := (info_status d)(i0 := 0xff)\<rparr>;
             d = d\<lparr>desc := (desc d)(i2 := \<lparr>vd_addr = D_status i0, vd_len = 1, vd_flags = VRING_DESC_F_WRITE, vd_next = 0\<rparr>)\<rparr>;
             d = d\<lparr>b_disk := (b_disk d)(b := True), info_b := (info_b d)(i0 := Some b)\<rparr>;
             d = d\<lparr>avail_ring := (avail_ring d)(unat (avail_idx d) mod NUM := i0)\<rparr>;
             d = d\<lparr>avail_idx := avail_idx d + 1\<rparr>
         in Ok (Some i0, mmio_write 0x050 0 d))"

text \<open>After the wake-up: wait on, or free the chain.\<close>

definition disk_rw_finish :: "nat \<Rightarrow> nat \<Rightarrow> vdisk \<Rightarrow> vdisk outcome" where
  "disk_rw_finish b i0 d =
     (if b_disk d b then Blocks
      else free_chain (Suc NUM) i0 (d\<lparr>info_b := (info_b d)(i0 := None)\<rparr>))"

text \<open>The completed heads are returned so that the caller can wake the processes that wait for their buffers.\<close>

primrec disk_intr_loop :: "nat \<Rightarrow> vdisk \<Rightarrow> (nat list \<times> vdisk) outcome" where
  "disk_intr_loop 0 d = Blocks"
| "disk_intr_loop (Suc k) d =
     (if used_idx d = used_ring_idx d then Ok ([], d)
      else let i = used_ring d (unat (used_idx d) mod NUM) in
        if info_status d i \<noteq> 0 then Panic ''virtio_disk_intr status''
        else case info_b d i of
          None \<Rightarrow> Panic ''kerneltrap''
        | Some b \<Rightarrow>
            obind (disk_intr_loop k (d\<lparr>b_disk := (b_disk d)(b := False), used_idx := used_idx d + 1\<rparr>)) (\<lambda>(bs, d).
            Ok (b # bs, d)))"

text \<open>\<open>istat\<close> is the interrupt status register.\<close>

definition virtio_disk_intr :: "u32 \<Rightarrow> vdisk \<Rightarrow> (nat list \<times> vdisk) outcome" where
  "virtio_disk_intr istat d =
     disk_intr_loop (Suc (unat (used_ring_idx d - used_idx d))) (mmio_write 0x064 (istat AND 3) d)"

end
