(* ===== verification/Fork.thy ===== *)
theory Fork
  imports File Virtio
begin

text \<open>
  \<^verbatim>\<open>fork\<close> and \<^verbatim>\<open>exit\<close> of \<^verbatim>\<open>kernel/proc.c\<close>, which need the file table, and the state of the whole
  kernel: the tick counter, \<^verbatim>\<open>wait_lock\<close>, the trap registers of the CPU and the interrupt controller.
\<close>

record kstate = ostate +
  ticks :: u32
  wait_lock :: spinlock
  scause :: u64
  sepc :: u64
  stval :: u64
  stvec :: u64
  satp :: u64
  sip :: u64
  plic_pending :: "u32 list" \<comment> \<open>the interrupts the PLIC will hand out, in order\<close>
  plic_done :: "u32 list"
  vd :: vdisk

primrec fork_files :: "nat \<Rightarrow> nat \<Rightarrow> nat \<Rightarrow> 'z ostate_scheme \<Rightarrow> 'z ostate_scheme outcome" where
  "fork_files 0 p np s = Ok s"
| "fork_files (Suc k) p np s =
     (let i = NOFILE - Suc k in
      case p_ofile (procs s p) i of
        None \<Rightarrow> fork_files k p np s
      | Some f \<Rightarrow>
          obind (filedup f s) (\<lambda>s.
          fork_files k p np (updp np (\<lambda>x. x\<lparr>p_ofile := (p_ofile x)(i := Some f)\<rparr>) s)))"

text \<open>\<^verbatim>\<open>*(np->trapframe) = *(p->trapframe)\<close> copies the 288 bytes of the structure.\<close>

definition fork :: "'z ostate_scheme \<Rightarrow> (int \<times> 'z ostate_scheme) outcome" where
  "fork s =
     (let p = curp s in
      obind (allocproc s) (\<lambda>(r, s).
      case r of
        None \<Rightarrow> Ok (-1, s)
      | Some np \<Rightarrow>
          obind (uvmcopy (p_pagetable (procs s p)) (p_pagetable (procs s np)) (p_sz (procs s p)) s) (\<lambda>(r, s).
          if r < 0 then obind (freeproc np s) (\<lambda>s. Ok (-1, s))
          else let s = updp np (\<lambda>x. x\<lparr>p_sz := p_sz (procs s p)\<rparr>) s;
                   s = s\<lparr>pmem := store (pmem s) (p_trapframe (procs s np)) (load (pmem s) (p_trapframe (procs s p)) 288)\<rparr>;
                   s = tf_set np TF_a0 0 s in
            obind (fork_files NOFILE p np s) (\<lambda>s.
            case p_cwd (procs s p) of
              None \<Rightarrow> null_fault
            | Some cwd \<Rightarrow>
                let s = idup cwd s;
                    s = updp np (\<lambda>x. x\<lparr>p_cwd := Some cwd, p_name := p_name (procs s p)\<rparr>) s;
                    pid = p_pid (procs s np);
                    s = updp np (\<lambda>x. x\<lparr>p_parent := Some p\<rparr>) s;
                    s = updp np (\<lambda>x. x\<lparr>p_state := RUNNABLE\<rparr>) s
                in Ok (pid, s)))))"

primrec exit_files :: "nat \<Rightarrow> nat \<Rightarrow> 'z ostate_scheme \<Rightarrow> 'z ostate_scheme outcome" where
  "exit_files 0 p s = Ok s"
| "exit_files (Suc k) p s =
     (let fd = NOFILE - Suc k in
      case p_ofile (procs s p) fd of
        None \<Rightarrow> exit_files k p s
      | Some f \<Rightarrow>
          obind (fileclose f s) (\<lambda>s.
          exit_files k p (updp p (\<lambda>x. x\<lparr>p_ofile := (p_ofile x)(fd := None)\<rparr>) s)))"

text \<open>\<^verbatim>\<open>exit\<close> up to the switch to the scheduler; it does not come back.\<close>

definition exit :: "u32 \<Rightarrow> 'z kstate_scheme \<Rightarrow> 'z kstate_scheme outcome" where
  "exit status s =
     (let p = curp s in
      if Some p = initproc s then Panic ''init exiting''
      else obind (exit_files NOFILE p s) (\<lambda>s.
        obind (begin_op s) (\<lambda>s.
        case p_cwd (procs s p) of
          None \<Rightarrow> null_fault
        | Some cwd \<Rightarrow>
            obind (iput cwd s) (\<lambda>s.
            obind (end_op s) (\<lambda>s.
            let s = updp p (\<lambda>x. x\<lparr>p_cwd := None\<rparr>) s in
            obind (acquire (hart s) (mycpu s) (wait_lock s)) (\<lambda>(c, lk).
            let s = (set_cpu c s)\<lparr>wait_lock := lk\<rparr>;
                s = reparent p s;
                s = (case p_parent (procs s p) of Some q \<Rightarrow> wakeup (Ch_proc q) s | None \<Rightarrow> wakeup Ch_none s) in
            obind (p_acquire p s) (\<lambda>s.
            let s = updp p (\<lambda>x. x\<lparr>p_xstate := status, p_state := ZOMBIE\<rparr>) s in
            obind (release (hart s) (mycpu s) (wait_lock s)) (\<lambda>(c, lk).
            sched ((set_cpu c s)\<lparr>wait_lock := lk\<rparr>)))))))))"

end
