(* ===== verification/Exec.thy ===== *)
theory Exec
  imports Fork
begin

text \<open>
  \<^verbatim>\<open>exec\<close>, \<^verbatim>\<open>kernel/exec.c\<close>: loading an ELF file, building the stack of the new program and switching
  to its address space. The ELF structures are read into the caller's stack and decoded at their offsets.
\<close>

definition flags2perm :: "u32 \<Rightarrow> u64" where
  "flags2perm flags =
     (let perm = (if flags AND 0x1 \<noteq> 0 then PTE_X else 0)
      in if flags AND 0x2 \<noteq> 0 then perm OR PTE_W else perm)"

definition ELF_MAGIC :: u32 where [simp]: "ELF_MAGIC = 0x464C457F"
definition ELF_PROG_LOAD :: u32 where [simp]: "ELF_PROG_LOAD = 1"

record elfhdr =
  elf_magic :: u32
  elf_entry :: u64
  elf_phoff :: u64
  elf_phnum :: u16

record proghdr =
  ph_type :: u32
  ph_flags :: u32
  ph_off :: u64
  ph_vaddr :: u64
  ph_filesz :: u64
  ph_memsz :: u64

definition get64 :: "byte list \<Rightarrow> nat \<Rightarrow> u64" where
  "get64 d off = le_word (get_bytes d off 8)"

definition elf_decode :: "byte list \<Rightarrow> elfhdr" where
  "elf_decode d = \<lparr>elf_magic = get32 d 0, elf_entry = get64 d 24, elf_phoff = get64 d 32, elf_phnum = get16 d 56\<rparr>"

definition ph_decode :: "byte list \<Rightarrow> proghdr" where
  "ph_decode d = \<lparr>ph_type = get32 d 0, ph_flags = get32 d 4, ph_off = get64 d 8, ph_vaddr = get64 d 16,
     ph_filesz = get64 d 32, ph_memsz = get64 d 40\<rparr>"

primrec loadseg_loop :: "nat \<Rightarrow> addr \<Rightarrow> u64 \<Rightarrow> nat \<Rightarrow> u32 \<Rightarrow> u32 \<Rightarrow> u32 \<Rightarrow> 'z fstate_scheme \<Rightarrow> (int \<times> 'z fstate_scheme) outcome" where
  "loadseg_loop 0 pagetable va ip offset sz i s = Blocks"
| "loadseg_loop (Suc k) pagetable va ip offset sz i s =
     (if \<not> i < sz then Ok (0, s)
      else obind (walkaddr pagetable (va + ucast i) s) (\<lambda>pa.
        if pa = 0 then Panic ''loadseg: address should exist''
        else let n = (if sz - i < 4096 then sz - i else 4096) in
          obind (readi ip False pa (offset + i) n s) (\<lambda>(r, s).
          if r \<noteq> n then Ok (-1, s) else loadseg_loop k pagetable va ip offset sz (i + 4096) s)))"

definition loadseg :: "addr \<Rightarrow> u64 \<Rightarrow> nat \<Rightarrow> u32 \<Rightarrow> u32 \<Rightarrow> 'z fstate_scheme \<Rightarrow> (int \<times> 'z fstate_scheme) outcome" where
  "loadseg pagetable va ip offset sz s = loadseg_loop (unat sz div 4096 + 2) pagetable va ip offset sz 0 s"

text \<open>The loop over the program headers: whether it went through, and the size of the image so far.\<close>

primrec exec_segments :: "nat \<Rightarrow> u32 \<Rightarrow> nat \<Rightarrow> addr \<Rightarrow> u64 \<Rightarrow> 'z fstate_scheme \<Rightarrow> ((bool \<times> u64) \<times> 'z fstate_scheme) outcome" where
  "exec_segments 0 off ip pagetable sz s = Ok ((True, sz), s)"
| "exec_segments (Suc k) off ip pagetable sz s =
     obind (readi ip False (kscr s) off 56 s) (\<lambda>(r, s).
     if r \<noteq> 56 then Ok ((False, sz), s)
     else let ph = ph_decode (load (pmem s) (kscr s) 56) in
       if ph_type ph \<noteq> ELF_PROG_LOAD then exec_segments k (off + 56) ip pagetable sz s
       else if ph_memsz ph < ph_filesz ph then Ok ((False, sz), s)
       else if ph_vaddr ph + ph_memsz ph < ph_vaddr ph then Ok ((False, sz), s)
       else if ph_vaddr ph mod PGSIZE \<noteq> 0 then Ok ((False, sz), s)
       else obind (uvmalloc pagetable sz (ph_vaddr ph + ph_memsz ph) (flags2perm (ph_flags ph)) s) (\<lambda>(sz1, s).
         if sz1 = 0 then Ok ((False, sz), s)
         else obind (loadseg pagetable (ph_vaddr ph) ip (ucast (ph_off ph)) (ucast (ph_filesz ph)) s) (\<lambda>(r, s).
           if r < 0 then Ok ((False, sz1), s)
           else exec_segments k (off + 56) ip pagetable sz1 s)))"

text \<open>Pushing the argument strings: the stack pointer and the pointers pushed, or \<open>None\<close> for the jump to \<^verbatim>\<open>bad\<close>.\<close>

primrec exec_push :: "addr list \<Rightarrow> nat \<Rightarrow> addr \<Rightarrow> u64 \<Rightarrow> u64 \<Rightarrow> u64 list \<Rightarrow> 'z kmem_scheme \<Rightarrow> ((u64 \<times> u64 list) option \<times> 'z kmem_scheme) outcome" where
  "exec_push [] argc pagetable sp stackbase ustack s = Ok (Some (sp, ustack), s)"
| "exec_push (a # argv) argc pagetable sp stackbase ustack s =
     (if argc \<ge> MAXARG then Ok (None, s)
      else case strlen (pmem s) a of
        None \<Rightarrow> Blocks
      | Some len \<Rightarrow>
          let sp = sp - (of_nat len + 1); sp = sp - sp mod 16 in
          if sp < stackbase then Ok (None, s)
          else obind (copyout pagetable sp (load (pmem s) a (len + 1)) s) (\<lambda>(r, s).
            if r < 0 then Ok (None, s)
            else exec_push argv (argc + 1) pagetable sp stackbase (ustack @ [sp]) s))"

primrec exec_last :: "byte list \<Rightarrow> byte list \<Rightarrow> byte list" where
  "exec_last [] l = l"
| "exec_last (c # cs) l = exec_last cs (if c = SLASH then cs else l)"

definition exec_bad :: "addr \<Rightarrow> u64 \<Rightarrow> nat option \<Rightarrow> 'z ostate_scheme \<Rightarrow> (int \<times> 'z ostate_scheme) outcome" where
  "exec_bad pagetable sz ip s =
     obind (if pagetable \<noteq> 0 then proc_freepagetable pagetable sz s else Ok s) (\<lambda>s.
     obind (case ip of Some ip \<Rightarrow> obind (iunlockput ip s) end_op | None \<Rightarrow> Ok s) (\<lambda>s.
     Ok (-1, s)))"

text \<open>After the image is loaded: stack, arguments and the switch to the new image.\<close>

definition exec_stack :: "byte list \<Rightarrow> addr list \<Rightarrow> addr \<Rightarrow> u64 \<Rightarrow> u64 \<Rightarrow> 'z ostate_scheme \<Rightarrow> (int \<times> 'z ostate_scheme) outcome" where
  "exec_stack path argv pagetable sz entry s =
     (let p = curp s; oldsz = p_sz (procs s p); sz = PGROUNDUP sz in
      obind (uvmalloc pagetable sz (sz + 2 * PGSIZE) PTE_W s) (\<lambda>(sz1, s).
      if sz1 = 0 then exec_bad pagetable sz None s
      else let sz = sz1 in
        obind (uvmclear pagetable (sz - 2 * PGSIZE) s) (\<lambda>s.
        let stackbase = sz - PGSIZE in
        obind (exec_push argv 0 pagetable sz stackbase [] s) (\<lambda>(r, s).
        case r of
          None \<Rightarrow> exec_bad pagetable sz None s
        | Some (sp, ustack) \<Rightarrow>
            let argc = length ustack; sp = sp - (of_nat argc + 1) * 8; sp = sp - sp mod 16 in
            if sp < stackbase then exec_bad pagetable sz None s
            else obind (copyout pagetable sp (concat (map (le_bytes 8) (ustack @ [0]))) s) (\<lambda>(r, s).
              if r < 0 then exec_bad pagetable sz None s
              else let s = tf_set p TF_a1 sp s;
                       s = updp p (\<lambda>x. x\<lparr>p_name := take 15 (exec_last path path)\<rparr>) s;
                       oldpagetable = p_pagetable (procs s p);
                       s = (updp p (\<lambda>x. x\<lparr>p_pagetable := pagetable, p_sz := sz\<rparr>) s)\<lparr>cur_pt := pagetable\<rparr>;
                       s = tf_set p TF_epc entry s;
                       s = tf_set p TF_sp sp s in
                obind (proc_freepagetable oldpagetable oldsz s) (\<lambda>s. Ok (int argc, s)))))))"

definition exec :: "byte list \<Rightarrow> addr list \<Rightarrow> 'z ostate_scheme \<Rightarrow> (int \<times> 'z ostate_scheme) outcome" where
  "exec path argv s =
     obind (begin_op s) (\<lambda>s.
     obind (namei path s) (\<lambda>(r, s).
     case r of
       None \<Rightarrow> obind (end_op s) (\<lambda>s. Ok (-1, s))
     | Some ip \<Rightarrow>
         obind (ilock ip s) (\<lambda>s.
         obind (readi ip False (kscr s) 0 64 s) (\<lambda>(r, s).
         if r \<noteq> 64 then exec_bad 0 0 (Some ip) s
         else let elf = elf_decode (load (pmem s) (kscr s) 64) in
           if elf_magic elf \<noteq> ELF_MAGIC then exec_bad 0 0 (Some ip) s
           else obind (proc_pagetable (curp s) s) (\<lambda>(pagetable, s).
             if pagetable = 0 then exec_bad 0 0 (Some ip) s
             else obind (exec_segments (unat (elf_phnum elf)) (ucast (elf_phoff elf)) ip pagetable 0 s) (\<lambda>((ok, sz), s).
               if \<not> ok then exec_bad pagetable sz (Some ip) s
               else obind (iunlockput ip s) (\<lambda>s.
                 obind (end_op s) (\<lambda>s.
                 exec_stack path argv pagetable sz (elf_entry elf) s))))))))"

end
