(* ===== verification/Sysproc.thy ===== *)
theory Sysproc
  imports Exec
begin

text \<open>
  System-call arguments, \<^verbatim>\<open>kernel/syscall.c\<close>, and the process system calls, \<^verbatim>\<open>kernel/sysproc.c\<close>. A system
  call returns the 64-bit value that goes to register \<^verbatim>\<open>a0\<close>; -1 is the all-ones word.
\<close>

section \<open>Arguments\<close>

text \<open>The value at \<^verbatim>\<open>*ip\<close>, or \<open>None\<close> for a result of -1.\<close>

definition fetchaddr :: "u64 \<Rightarrow> 'z pstate_scheme \<Rightarrow> u64 option outcome" where
  "fetchaddr a s =
     (let p = procs s (curp s) in
      if p_sz p \<le> a \<or> p_sz p < a + 8 then Ok None
      else obind (copyin (p_pagetable p) a 8 s) (\<lambda>r. Ok (map_option le_word r)))"

text \<open>The string without its terminator; its length is the value the source returns.\<close>

definition fetchstr :: "u64 \<Rightarrow> nat \<Rightarrow> 'z pstate_scheme \<Rightarrow> byte list option outcome" where
  "fetchstr a mx s = obind (copyinstr (p_pagetable (procs s (curp s))) a mx s) (\<lambda>r. Ok (map_option (takeWhile (\<lambda>c. c \<noteq> 0)) r))"

definition argraw :: "nat \<Rightarrow> 'z pstate_scheme \<Rightarrow> u64 outcome" where
  "argraw n s = (if n \<le> 5 then Ok (tf_get (curp s) (TF_a0 + 8 * n) s) else Panic ''argraw'')"

definition argint :: "nat \<Rightarrow> 'z pstate_scheme \<Rightarrow> int outcome" where
  "argint n s = obind (argraw n s) (\<lambda>v. Ok (sint (ucast v :: u32)))"

definition argaddr :: "nat \<Rightarrow> 'z pstate_scheme \<Rightarrow> u64 outcome" where
  "argaddr n s = argraw n s"

definition argstr :: "nat \<Rightarrow> nat \<Rightarrow> 'z pstate_scheme \<Rightarrow> byte list option outcome" where
  "argstr n mx s = obind (argaddr n s) (\<lambda>a. fetchstr a mx s)"

section \<open>System calls\<close>

text \<open>\<^verbatim>\<open>sys_exit\<close> ends in the scheduler: there is no return value.\<close>

definition sys_exit :: "'z kstate_scheme \<Rightarrow> 'z kstate_scheme outcome" where
  "sys_exit s = obind (argint 0 s) (\<lambda>n. exit (word_of_int n) s)"

definition sys_getpid :: "'z kstate_scheme \<Rightarrow> (u64 \<times> 'z kstate_scheme) outcome" where
  "sys_getpid s = Ok (word_of_int (p_pid (procs s (curp s))), s)"

definition sys_fork :: "'z kstate_scheme \<Rightarrow> (u64 \<times> 'z kstate_scheme) outcome" where
  "sys_fork s = obind (fork s) (\<lambda>(r, s). Ok (word_of_int r, s))"

definition sys_wait :: "'z kstate_scheme \<Rightarrow> (u64 \<times> 'z kstate_scheme) outcome" where
  "sys_wait s = obind (argaddr 0 s) (\<lambda>p. obind (wait p s) (\<lambda>(r, s). Ok (word_of_int r, s)))"

definition sys_sbrk :: "'z kstate_scheme \<Rightarrow> (u64 \<times> 'z kstate_scheme) outcome" where
  "sys_sbrk s =
     obind (argint 0 s) (\<lambda>n.
     let a = p_sz (procs s (curp s)) in
     obind (growproc n s) (\<lambda>(r, s). if r < 0 then Ok (-1, s) else Ok (a, s)))"

text \<open>
  The condition of the loop of \<^verbatim>\<open>sys_sleep\<close> is an unsigned comparison. From a tick count \<open>t0\<close> taken on
  entry, one evaluation of the loop returns or sleeps on \<^verbatim>\<open>ticks\<close>.
\<close>

definition sys_sleep_loop :: "u32 \<Rightarrow> u32 \<Rightarrow> 'z kstate_scheme \<Rightarrow> (u64 \<times> 'z kstate_scheme) outcome" where
  "sys_sleep_loop t0 n s =
     (if ticks s - t0 < n
      then if killed (curp s) s then Ok (-1, s) else Blocks
      else Ok (0, s))"

definition sys_sleep :: "'z kstate_scheme \<Rightarrow> (u64 \<times> 'z kstate_scheme) outcome" where
  "sys_sleep s =
     obind (argint 0 s) (\<lambda>n.
     let n = (if n < 0 then 0 else n) in
     sys_sleep_loop (ticks s) (word_of_int n) s)"

definition sys_kill :: "'z kstate_scheme \<Rightarrow> (u64 \<times> 'z kstate_scheme) outcome" where
  "sys_kill s = obind (argint 0 s) (\<lambda>pid. let (r, s) = kill pid s in Ok (word_of_int r, s))"

definition sys_uptime :: "'z kstate_scheme \<Rightarrow> (u64 \<times> 'z kstate_scheme) outcome" where
  "sys_uptime s = Ok (ucast (ticks s), s)"

end
