(* ===== verification/Sysfile.thy ===== *)
theory Sysfile
  imports Sysproc
begin

text \<open>
  The file-system calls, \<^verbatim>\<open>kernel/sysfile.c\<close>. Each is the whole handler, from the decoding of its
  arguments to the end of the transaction, with the error exits of the source.
\<close>

section \<open>Descriptors\<close>

text \<open>The descriptor and its file, or \<open>None\<close> for a result of -1.\<close>

definition argfd :: "nat \<Rightarrow> 'z kstate_scheme \<Rightarrow> (nat \<times> nat) option outcome" where
  "argfd n s =
     obind (argint n s) (\<lambda>fd.
     if fd < 0 \<or> fd \<ge> int NOFILE then Ok None
     else case p_ofile (procs s (curp s)) (nat fd) of None \<Rightarrow> Ok None | Some f \<Rightarrow> Ok (Some (nat fd, f)))"

definition fdalloc :: "nat \<Rightarrow> 'z ostate_scheme \<Rightarrow> nat option \<times> 'z ostate_scheme" where
  "fdalloc f s =
     (case find (\<lambda>fd. p_ofile (procs s (curp s)) fd = None) [0..<NOFILE] of
        None \<Rightarrow> (None, s)
      | Some fd \<Rightarrow> (Some fd, updp (curp s) (\<lambda>x. x\<lparr>p_ofile := (p_ofile x)(fd := Some f)\<rparr>) s))"

definition fdclear :: "nat \<Rightarrow> 'z ostate_scheme \<Rightarrow> 'z ostate_scheme" where
  "fdclear fd s = updp (curp s) (\<lambda>x. x\<lparr>p_ofile := (p_ofile x)(fd := None)\<rparr>) s"

definition sys_dup :: "'z kstate_scheme \<Rightarrow> (u64 \<times> 'z kstate_scheme) outcome" where
  "sys_dup s =
     obind (argfd 0 s) (\<lambda>r.
     case r of
       None \<Rightarrow> Ok (-1, s)
     | Some (_, f) \<Rightarrow>
         let (r, s) = fdalloc f s in
         (case r of None \<Rightarrow> Ok (-1, s) | Some fd \<Rightarrow> obind (filedup f s) (\<lambda>s. Ok (of_nat fd, s))))"

definition sys_read :: "'z kstate_scheme \<Rightarrow> (u64 \<times> 'z kstate_scheme) outcome" where
  "sys_read s =
     obind (argaddr 1 s) (\<lambda>p. obind (argint 2 s) (\<lambda>n. obind (argfd 0 s) (\<lambda>r.
     case r of
       None \<Rightarrow> Ok (-1, s)
     | Some (_, f) \<Rightarrow> obind (fileread f p n s) (\<lambda>(r, s). Ok (word_of_int r, s)))))"

definition sys_write :: "'z kstate_scheme \<Rightarrow> (u64 \<times> 'z kstate_scheme) outcome" where
  "sys_write s =
     obind (argaddr 1 s) (\<lambda>p. obind (argint 2 s) (\<lambda>n. obind (argfd 0 s) (\<lambda>r.
     case r of
       None \<Rightarrow> Ok (-1, s)
     | Some (_, f) \<Rightarrow> obind (filewrite f p n s) (\<lambda>(r, s). Ok (word_of_int r, s)))))"

definition sys_close :: "'z kstate_scheme \<Rightarrow> (u64 \<times> 'z kstate_scheme) outcome" where
  "sys_close s =
     obind (argfd 0 s) (\<lambda>r.
     case r of
       None \<Rightarrow> Ok (-1, s)
     | Some (fd, f) \<Rightarrow> obind (fileclose f (fdclear fd s)) (\<lambda>s. Ok (0, s)))"

definition sys_fstat :: "'z kstate_scheme \<Rightarrow> (u64 \<times> 'z kstate_scheme) outcome" where
  "sys_fstat s =
     obind (argaddr 1 s) (\<lambda>st. obind (argfd 0 s) (\<lambda>r.
     case r of
       None \<Rightarrow> Ok (-1, s)
     | Some (_, f) \<Rightarrow> obind (filestat f st s) (\<lambda>(r, s). Ok (word_of_int r, s))))"

section \<open>Links and directories\<close>

text \<open>A failing call that only has to end its transaction.\<close>

definition fail_op :: "'z lstate_scheme \<Rightarrow> (u64 \<times> 'z lstate_scheme) outcome" where
  "fail_op s = obind (end_op s) (\<lambda>s. Ok (-1, s))"

definition add_nlink :: "nat \<Rightarrow> u16 \<Rightarrow> 'z fstate_scheme \<Rightarrow> 'z fstate_scheme outcome" where
  "add_nlink ip d s = iupdate ip (updi ip (\<lambda>x. x\<lparr>inlink := inlink x + d\<rparr>) s)"

definition link_bad :: "nat \<Rightarrow> 'z fstate_scheme \<Rightarrow> (u64 \<times> 'z fstate_scheme) outcome" where
  "link_bad ip s =
     obind (ilock ip s) (\<lambda>s. obind (add_nlink ip (-1) s) (\<lambda>s. obind (iunlockput ip s) fail_op))"

definition sys_link :: "'z kstate_scheme \<Rightarrow> (u64 \<times> 'z kstate_scheme) outcome" where
  "sys_link s =
     obind (argstr 0 MAXPATH s) (\<lambda>old.
     case old of None \<Rightarrow> Ok (-1, s) | Some old \<Rightarrow>
     obind (argstr 1 MAXPATH s) (\<lambda>new.
     case new of None \<Rightarrow> Ok (-1, s) | Some new \<Rightarrow>
     obind (begin_op s) (\<lambda>s.
     obind (namei old s) (\<lambda>(r, s).
     case r of None \<Rightarrow> fail_op s | Some ip \<Rightarrow>
     obind (ilock ip s) (\<lambda>s.
     if itype (itab s ip) = T_DIR then obind (iunlockput ip s) fail_op
     else obind (add_nlink ip 1 s) (\<lambda>s.
       obind (iunlock ip s) (\<lambda>s.
       obind (nameiparent new s) (\<lambda>((r, nm), s).
       case r of None \<Rightarrow> link_bad ip s | Some dp \<Rightarrow>
       obind (ilock dp s) (\<lambda>s.
       obind (if idev (itab s dp) \<noteq> idev (itab s ip) then Ok (-1, s) else dirlink dp nm (inum (itab s ip)) s) (\<lambda>(r, s).
       if r < 0 then obind (iunlockput dp s) (link_bad ip)
       else obind (iunlockput dp s) (\<lambda>s.
         obind (iput ip s) (\<lambda>s. obind (end_op s) (\<lambda>s. Ok (0, s))))))))))))))"

primrec isdirempty_loop :: "nat \<Rightarrow> u32 \<Rightarrow> nat \<Rightarrow> 'z fstate_scheme \<Rightarrow> (bool \<times> 'z fstate_scheme) outcome" where
  "isdirempty_loop 0 off dp s = Blocks"
| "isdirempty_loop (Suc k) off dp s =
     (if \<not> off < isize (itab s dp) then Ok (True, s)
      else obind (read_de ''isdirempty: readi'' dp off s) (\<lambda>(de, s).
        if de_inum de \<noteq> 0 then Ok (False, s) else isdirempty_loop k (off + 16) dp s))"

definition isdirempty :: "nat \<Rightarrow> 'z fstate_scheme \<Rightarrow> (bool \<times> 'z fstate_scheme) outcome" where
  "isdirempty dp s = isdirempty_loop (unat (isize (itab s dp)) div 16 + 2) 32 dp s"

definition DOT :: "byte list" where "DOT = [46]"
definition DOTDOT :: "byte list" where "DOTDOT = [46, 46]"

definition sys_unlink :: "'z kstate_scheme \<Rightarrow> (u64 \<times> 'z kstate_scheme) outcome" where
  "sys_unlink s =
     obind (argstr 0 MAXPATH s) (\<lambda>path.
     case path of None \<Rightarrow> Ok (-1, s) | Some path \<Rightarrow>
     obind (begin_op s) (\<lambda>s.
     obind (nameiparent path s) (\<lambda>((r, nm), s).
     case r of None \<Rightarrow> fail_op s | Some dp \<Rightarrow>
     obind (ilock dp s) (\<lambda>s.
     if namecmp nm DOT = 0 \<or> namecmp nm DOTDOT = 0 then obind (iunlockput dp s) fail_op
     else obind (dirlookup dp nm s) (\<lambda>(r, s).
       case r of None \<Rightarrow> obind (iunlockput dp s) fail_op | Some (ip, off) \<Rightarrow>
       obind (ilock ip s) (\<lambda>s.
       if sint (inlink (itab s ip)) < 1 then Panic ''unlink: nlink < 1''
       else obind (if itype (itab s ip) = T_DIR then isdirempty ip s else Ok (True, s)) (\<lambda>(empty, s).
         if \<not> empty then obind (iunlockput ip s) (\<lambda>s. obind (iunlockput dp s) fail_op)
         else let s = s\<lparr>pmem := store (pmem s) (kscr s) (replicate 16 0)\<rparr> in
           obind (writei dp False (kscr s) off 16 s) (\<lambda>(r, s).
           if r \<noteq> Some 16 then Panic ''unlink: writei''
           else obind (if itype (itab s ip) = T_DIR then add_nlink dp (-1) s else Ok s) (\<lambda>s.
             obind (iunlockput dp s) (\<lambda>s.
             obind (add_nlink ip (-1) s) (\<lambda>s.
             obind (iunlockput ip s) (\<lambda>s.
             obind (end_op s) (\<lambda>s. Ok (0, s))))))))))))))"

definition create_fail :: "nat \<Rightarrow> nat \<Rightarrow> 'z fstate_scheme \<Rightarrow> (nat option \<times> 'z fstate_scheme) outcome" where
  "create_fail ip dp s =
     obind (iupdate ip (updi ip (\<lambda>x. x\<lparr>inlink := 0\<rparr>) s)) (\<lambda>s.
     obind (iunlockput ip s) (\<lambda>s. obind (iunlockput dp s) (\<lambda>s. Ok (None, s))))"

text \<open>A new inode, still locked, linked into its directory.\<close>

definition create_new :: "nat \<Rightarrow> byte list \<Rightarrow> u16 \<Rightarrow> u16 \<Rightarrow> u16 \<Rightarrow> nat \<Rightarrow> 'z fstate_scheme \<Rightarrow> (nat option \<times> 'z fstate_scheme) outcome" where
  "create_new dp nm ty major minor ip s =
     obind (ilock ip s) (\<lambda>s.
     obind (iupdate ip (updi ip (\<lambda>x. x\<lparr>imajor := major, iminor := minor, inlink := 1\<rparr>) s)) (\<lambda>s.
     obind (if ty = T_DIR
            then obind (dirlink ip DOT (inum (itab s ip)) s) (\<lambda>(r, s).
                 if r < 0 then Ok (False, s)
                 else obind (dirlink ip DOTDOT (inum (itab s dp)) s) (\<lambda>(r, s). Ok (\<not> r < 0, s)))
            else Ok (True, s)) (\<lambda>(ok, s).
     if \<not> ok then create_fail ip dp s
     else obind (dirlink dp nm (inum (itab s ip)) s) (\<lambda>(r, s).
       if r < 0 then create_fail ip dp s
       else obind (if ty = T_DIR then add_nlink dp 1 s else Ok s) (\<lambda>s.
         obind (iunlockput dp s) (\<lambda>s. Ok (Some ip, s)))))))"

definition create :: "byte list \<Rightarrow> u16 \<Rightarrow> u16 \<Rightarrow> u16 \<Rightarrow> 'z fstate_scheme \<Rightarrow> (nat option \<times> 'z fstate_scheme) outcome" where
  "create path ty major minor s =
     obind (nameiparent path s) (\<lambda>((r, nm), s).
     case r of None \<Rightarrow> Ok (None, s) | Some dp \<Rightarrow>
     obind (ilock dp s) (\<lambda>s.
     obind (dirlookup dp nm s) (\<lambda>(r, s).
     case r of
       Some (ip, _) \<Rightarrow>
         obind (iunlockput dp s) (\<lambda>s.
         obind (ilock ip s) (\<lambda>s.
         if ty = T_FILE \<and> (itype (itab s ip) = T_FILE \<or> itype (itab s ip) = T_DEVICE) then Ok (Some ip, s)
         else obind (iunlockput ip s) (\<lambda>s. Ok (None, s))))
     | None \<Rightarrow>
         obind (ialloc (idev (itab s dp)) ty s) (\<lambda>(r, s).
         case r of
           None \<Rightarrow> obind (iunlockput dp s) (\<lambda>s. Ok (None, s))
         | Some ip \<Rightarrow> create_new dp nm ty major minor ip s))))"

section \<open>Opening and creating files\<close>

definition O_RDONLY :: u32 where [simp]: "O_RDONLY = 0x000"
definition O_WRONLY :: u32 where [simp]: "O_WRONLY = 0x001"
definition O_RDWR :: u32 where [simp]: "O_RDWR = 0x002"
definition O_CREATE :: u32 where [simp]: "O_CREATE = 0x200"
definition O_TRUNC :: u32 where [simp]: "O_TRUNC = 0x400"

text \<open>The file structure \<^verbatim>\<open>sys_open\<close> fills in for the locked inode \<open>ip\<close>.\<close>

definition open_file :: "u32 \<Rightarrow> nat \<Rightarrow> inode \<Rightarrow> kfile \<Rightarrow> kfile" where
  "open_file omode ip x f =
     (let f = (if itype x = T_DEVICE then f\<lparr>f_type := FD_DEVICE, f_major := imajor x\<rparr>
               else f\<lparr>f_type := FD_INODE, f_off := 0\<rparr>)
      in f\<lparr>f_ip := ip, f_readable := (omode AND O_WRONLY = 0),
           f_writable := (omode AND O_WRONLY \<noteq> 0 \<or> omode AND O_RDWR \<noteq> 0)\<rparr>)"

definition sys_open :: "'z kstate_scheme \<Rightarrow> (u64 \<times> 'z kstate_scheme) outcome" where
  "sys_open s =
     obind (argint 1 s) (\<lambda>om.
     let omode = word_of_int om in
     obind (argstr 0 MAXPATH s) (\<lambda>path.
     case path of None \<Rightarrow> Ok (-1, s) | Some path \<Rightarrow>
     obind (begin_op s) (\<lambda>s.
     obind (if omode AND O_CREATE \<noteq> 0 then create path T_FILE 0 0 s
            else obind (namei path s) (\<lambda>(r, s).
              case r of None \<Rightarrow> Ok (None, s) | Some ip \<Rightarrow>
              obind (ilock ip s) (\<lambda>s.
              if itype (itab s ip) = T_DIR \<and> omode \<noteq> O_RDONLY
              then obind (iunlockput ip s) (\<lambda>s. Ok (None, s)) else Ok (Some ip, s)))) (\<lambda>(r, s).
     case r of None \<Rightarrow> fail_op s | Some ip \<Rightarrow>
     if itype (itab s ip) = T_DEVICE \<and> (sint (imajor (itab s ip)) < 0 \<or> sint (imajor (itab s ip)) \<ge> int NDEV)
     then obind (iunlockput ip s) fail_op
     else let (f, s) = filealloc s in
       (case f of None \<Rightarrow> obind (iunlockput ip s) fail_op | Some f \<Rightarrow>
       let (fd, s) = fdalloc f s in
       (case fd of None \<Rightarrow> obind (fileclose f s) (\<lambda>s. obind (iunlockput ip s) fail_op) | Some fd \<Rightarrow>
       let s = updf f (open_file omode ip (itab s ip)) s in
       obind (if omode AND O_TRUNC \<noteq> 0 \<and> itype (itab s ip) = T_FILE then itrunc ip s else Ok s) (\<lambda>s.
       obind (iunlock ip s) (\<lambda>s. obind (end_op s) (\<lambda>s. Ok (of_nat fd, s))))))))))"

definition sys_mkdir :: "'z kstate_scheme \<Rightarrow> (u64 \<times> 'z kstate_scheme) outcome" where
  "sys_mkdir s =
     obind (begin_op s) (\<lambda>s.
     obind (argstr 0 MAXPATH s) (\<lambda>path.
     case path of None \<Rightarrow> fail_op s | Some path \<Rightarrow>
     obind (create path T_DIR 0 0 s) (\<lambda>(r, s).
     case r of None \<Rightarrow> fail_op s | Some ip \<Rightarrow>
     obind (iunlockput ip s) (\<lambda>s. obind (end_op s) (\<lambda>s. Ok (0, s))))))"

definition sys_mknod :: "'z kstate_scheme \<Rightarrow> (u64 \<times> 'z kstate_scheme) outcome" where
  "sys_mknod s =
     obind (begin_op s) (\<lambda>s.
     obind (argint 1 s) (\<lambda>major. obind (argint 2 s) (\<lambda>minor.
     obind (argstr 0 MAXPATH s) (\<lambda>path.
     case path of None \<Rightarrow> fail_op s | Some path \<Rightarrow>
     obind (create path T_DEVICE (word_of_int major) (word_of_int minor) s) (\<lambda>(r, s).
     case r of None \<Rightarrow> fail_op s | Some ip \<Rightarrow>
     obind (iunlockput ip s) (\<lambda>s. obind (end_op s) (\<lambda>s. Ok (0, s))))))))"

definition sys_chdir :: "'z kstate_scheme \<Rightarrow> (u64 \<times> 'z kstate_scheme) outcome" where
  "sys_chdir s =
     obind (begin_op s) (\<lambda>s.
     obind (argstr 0 MAXPATH s) (\<lambda>path.
     case path of None \<Rightarrow> fail_op s | Some path \<Rightarrow>
     obind (namei path s) (\<lambda>(r, s).
     case r of None \<Rightarrow> fail_op s | Some ip \<Rightarrow>
     obind (ilock ip s) (\<lambda>s.
     if itype (itab s ip) \<noteq> T_DIR then obind (iunlockput ip s) fail_op
     else obind (iunlock ip s) (\<lambda>s.
       case p_cwd (procs s (curp s)) of None \<Rightarrow> null_fault | Some cwd \<Rightarrow>
       obind (iput cwd s) (\<lambda>s.
       obind (end_op s) (\<lambda>s.
       Ok (0, (updp (curp s) (\<lambda>x. x\<lparr>p_cwd := Some ip\<rparr>) s)\<lparr>cur_cwd := ip\<rparr>))))))))"

section \<open>exec and pipe\<close>

text \<open>The pages allocated for the arguments, and whether the loop reached the null pointer.\<close>

primrec sys_exec_args :: "nat \<Rightarrow> u64 \<Rightarrow> addr list \<Rightarrow> 'z kstate_scheme \<Rightarrow> ((bool \<times> addr list) \<times> 'z kstate_scheme) outcome" where
  "sys_exec_args 0 uargv argv s = Ok ((False, argv), s)"
| "sys_exec_args (Suc k) uargv argv s =
     obind (fetchaddr (uargv + 8 * of_nat (length argv)) s) (\<lambda>r.
     case r of None \<Rightarrow> Ok ((False, argv), s) | Some uarg \<Rightarrow>
     if uarg = 0 then Ok ((True, argv), s)
     else let (pa, s) = kalloc s in
       if pa = 0 then Ok ((False, argv), s)
       else obind (copyinstr (p_pagetable (procs s (curp s))) uarg 4096 s) (\<lambda>r.
         case r of None \<Rightarrow> Ok ((False, argv @ [pa]), s) | Some bs \<Rightarrow>
         sys_exec_args k uargv (argv @ [pa]) (s\<lparr>pmem := store (pmem s) pa bs\<rparr>)))"

primrec kfree_all :: "addr list \<Rightarrow> 'z kmem_scheme \<Rightarrow> 'z kmem_scheme outcome" where
  "kfree_all [] s = Ok s"
| "kfree_all (a # as) s = obind (kfree a s) (kfree_all as)"

definition sys_exec :: "'z kstate_scheme \<Rightarrow> (u64 \<times> 'z kstate_scheme) outcome" where
  "sys_exec s =
     obind (argaddr 1 s) (\<lambda>uargv.
     obind (argstr 0 MAXPATH s) (\<lambda>path.
     case path of None \<Rightarrow> Ok (-1, s) | Some path \<Rightarrow>
     obind (sys_exec_args MAXARG uargv [] s) (\<lambda>((ok, argv), s).
     if \<not> ok then obind (kfree_all argv s) (\<lambda>s. Ok (-1, s))
     else obind (exec path argv s) (\<lambda>(ret, s).
       obind (kfree_all argv s) (\<lambda>s. Ok (word_of_int ret, s))))))"

definition pipe_undo :: "nat list \<Rightarrow> nat \<Rightarrow> nat \<Rightarrow> 'z ostate_scheme \<Rightarrow> (u64 \<times> 'z ostate_scheme) outcome" where
  "pipe_undo fds rfl wfl s =
     obind (fileclose rfl (fold fdclear fds s)) (\<lambda>s. obind (fileclose wfl s) (\<lambda>s. Ok (-1, s)))"

definition sys_pipe :: "'z kstate_scheme \<Rightarrow> (u64 \<times> 'z kstate_scheme) outcome" where
  "sys_pipe s =
     obind (argaddr 0 s) (\<lambda>fdarray.
     obind (pipealloc s) (\<lambda>(r, s).
     case r of None \<Rightarrow> Ok (-1, s) | Some (rfl, wfl) \<Rightarrow>
     let (fd0, s) = fdalloc rfl s in
     (case fd0 of None \<Rightarrow> pipe_undo [] rfl wfl s | Some fd0 \<Rightarrow>
     let (fd1, s) = fdalloc wfl s in
     (case fd1 of None \<Rightarrow> pipe_undo [fd0] rfl wfl s | Some fd1 \<Rightarrow>
     obind (copyout (cur_pt s) fdarray (le_bytes 4 (of_nat fd0 :: u32)) s) (\<lambda>(r, s).
     if r < 0 then pipe_undo [fd0, fd1] rfl wfl s
     else obind (copyout (cur_pt s) (fdarray + 4) (le_bytes 4 (of_nat fd1 :: u32)) s) (\<lambda>(r, s).
       if r < 0 then pipe_undo [fd0, fd1] rfl wfl s else Ok (0, s)))))))"

end
