(* ===== verification/Trap.thy ===== *)
theory Trap
  imports Sysfile
begin

text \<open>
  Traps, \<^verbatim>\<open>kernel/trap.c\<close>, the system-call table of \<^verbatim>\<open>kernel/syscall.c\<close> and the interrupt controller,
  \<^verbatim>\<open>kernel/plic.c\<close>. The control registers are fields of the state. A trap ends in one of three ways:
  back in user space, in the scheduler (the process yields or has exited), or back in the interrupted kernel code.
\<close>

section \<open>The system-call table\<close>

text \<open>What the table entry does: a value for register a0, or no return (\<^verbatim>\<open>sys_exit\<close>).\<close>

definition SYS_exit :: int where [simp]: "SYS_exit = 2"

definition ret64 :: "('z kstate_scheme \<Rightarrow> (u64 \<times> 'z kstate_scheme) outcome) \<Rightarrow> 'z kstate_scheme \<Rightarrow> (u64 option \<times> 'z kstate_scheme) outcome" where
  "ret64 f s = obind (f s) (\<lambda>(v, s). Ok (Some v, s))"

definition syscalls :: "int \<Rightarrow> ('z kstate_scheme \<Rightarrow> (u64 option \<times> 'z kstate_scheme) outcome) option" where
  "syscalls num =
     (if num = 1 then Some (ret64 sys_fork)
      else if num = SYS_exit then Some (\<lambda>s. obind (sys_exit s) (\<lambda>s. Ok (None, s)))
      else if num = 3 then Some (ret64 sys_wait)
      else if num = 4 then Some (ret64 sys_pipe)
      else if num = 5 then Some (ret64 sys_read)
      else if num = 6 then Some (ret64 sys_kill)
      else if num = 7 then Some (ret64 sys_exec)
      else if num = 8 then Some (ret64 sys_fstat)
      else if num = 9 then Some (ret64 sys_chdir)
      else if num = 10 then Some (ret64 sys_dup)
      else if num = 11 then Some (ret64 sys_getpid)
      else if num = 12 then Some (ret64 sys_sbrk)
      else if num = 13 then Some (ret64 sys_sleep)
      else if num = 14 then Some (ret64 sys_uptime)
      else if num = 15 then Some (ret64 sys_open)
      else if num = 16 then Some (ret64 sys_write)
      else if num = 17 then Some (ret64 sys_mknod)
      else if num = 18 then Some (ret64 sys_unlink)
      else if num = 19 then Some (ret64 sys_link)
      else if num = 20 then Some (ret64 sys_mkdir)
      else if num = 21 then Some (ret64 sys_close)
      else None)"

text \<open>The result says whether the call returns to the process.\<close>

definition syscall :: "'z kstate_scheme \<Rightarrow> (bool \<times> 'z kstate_scheme) outcome" where
  "syscall s =
     (let p = curp s; num = sint (ucast (tf_get p TF_a7 s) :: u32) in
      case syscalls num of
        Some f \<Rightarrow> obind (f s) (\<lambda>(r, s).
          case r of Some v \<Rightarrow> Ok (True, tf_set p TF_a0 v s) | None \<Rightarrow> Ok (False, s))
      | None \<Rightarrow>
          obind (printf ''%d %s: unknown sys call %d\<newline>''
                   [AInt (word_of_int (p_pid (procs s p))), AStr (Some (p_name (procs s p))), AInt (word_of_int num)] s) (\<lambda>s.
          Ok (True, tf_set p TF_a0 (-1) s)))"

section \<open>Device interrupts\<close>

definition plic_claim :: "'z kstate_scheme \<Rightarrow> u32 \<times> 'z kstate_scheme" where
  "plic_claim s = (case plic_pending s of [] \<Rightarrow> (0, s) | irq # irqs \<Rightarrow> (irq, s\<lparr>plic_pending := irqs\<rparr>))"

definition plic_complete :: "u32 \<Rightarrow> 'z kstate_scheme \<Rightarrow> 'z kstate_scheme" where
  "plic_complete irq s = s\<lparr>plic_done := plic_done s @ [irq]\<rparr>"

definition clockintr :: "'z kstate_scheme \<Rightarrow> 'z kstate_scheme" where
  "clockintr s = wakeup Ch_ticks (s\<lparr>ticks := ticks s + 1\<rparr>)"

text \<open>\<open>istat\<close> is the interrupt status register of the disk.\<close>

definition disk_intr :: "u32 \<Rightarrow> 'z kstate_scheme \<Rightarrow> 'z kstate_scheme outcome" where
  "disk_intr istat s =
     obind (virtio_disk_intr istat (vd s)) (\<lambda>(bs, d).
     Ok (fold (\<lambda>b s. wakeup (Ch_disk b) s) bs (s\<lparr>vd := d\<rparr>)))"

definition devintr :: "u32 \<Rightarrow> 'z kstate_scheme \<Rightarrow> (int \<times> 'z kstate_scheme) outcome" where
  "devintr istat s =
     (if scause s AND 0x8000000000000000 \<noteq> 0 \<and> scause s AND 0xff = 9
      then let (irq, s) = plic_claim s in
        obind (if irq = UART0_IRQ then uartintr s
               else if irq = VIRTIO0_IRQ then disk_intr istat s
               else if irq \<noteq> 0 then printf ''unexpected interrupt irq=%d\<newline>'' [AInt irq] s
               else Ok s) (\<lambda>s.
        Ok (1, if irq \<noteq> 0 then plic_complete irq s else s))
      else if scause s = 0x8000000000000001
      then let s = (if hart s = 0 then clockintr s else s) in
           Ok (2, s\<lparr>sip := sip s AND NOT 2\<rparr>)
      else Ok (0, s))"

section \<open>Traps from user space\<close>

text \<open>
  \<open>To_user\<close>: the registers are set for the return to user space and the jump to \<^verbatim>\<open>userret\<close> gets this
  \<^verbatim>\<open>satp\<close>; \<open>To_sched\<close>: the CPU is in the scheduler, after \<^verbatim>\<open>exit\<close>; \<open>To_yield\<close>: the same, and the process
  goes on with \<^verbatim>\<open>usertrapret\<close> when it runs again; \<open>To_kernel\<close>: back to the interrupted kernel code.
\<close>

datatype trap_end = To_user u64 | To_sched | To_yield | To_kernel

definition MAKE_SATP :: "addr \<Rightarrow> u64" where
  "MAKE_SATP pagetable = push_bit 60 8 OR drop_bit 12 pagetable"

text \<open>The code addresses: \<open>uservec\<close> and \<open>userret\<close> of the trampoline, \<open>usertrap\<close> and \<open>kernelvec\<close>.\<close>

record ksyms =
  sym_uservec :: u64
  sym_userret :: u64
  sym_usertrap :: u64
  sym_kernelvec :: u64

definition usertrapret :: "ksyms \<Rightarrow> 'z kstate_scheme \<Rightarrow> u64 \<times> 'z kstate_scheme" where
  "usertrapret k s =
     (let p = curp s;
          s = set_cpu (intr_off (mycpu s)) s;
          s = s\<lparr>stvec := TRAMPOLINE + (sym_uservec k - sym_trampoline s)\<rparr>;
          s = tf_set p 0 (satp s) s;
          s = tf_set p 8 (p_kstack (procs s p) + PGSIZE) s;
          s = tf_set p 16 (sym_usertrap k) s;
          s = tf_set p 32 (of_nat (hart s)) s;
          x = (sstatus (mycpu s) AND NOT SSTATUS_SPP) OR SSTATUS_SPIE;
          s = set_cpu ((mycpu s)\<lparr>sstatus := x\<rparr>) s;
          s = s\<lparr>sepc := tf_get p TF_epc s\<rparr>
      in (MAKE_SATP (p_pagetable (procs s p)), s))"

text \<open>The last part of \<^verbatim>\<open>usertrap\<close>, after the cause has been handled.\<close>

definition usertrap_end :: "ksyms \<Rightarrow> int \<Rightarrow> 'z kstate_scheme \<Rightarrow> (trap_end \<times> 'z kstate_scheme) outcome" where
  "usertrap_end k which_dev s =
     (if killed (curp s) s then obind (exit (-1) s) (\<lambda>s. Ok (To_sched, s))
      else if which_dev = 2 then obind (yield s) (\<lambda>s. Ok (To_yield, s))
      else let (satp, s) = usertrapret k s in Ok (To_user satp, s))"

definition usertrap :: "ksyms \<Rightarrow> u32 \<Rightarrow> 'z kstate_scheme \<Rightarrow> (trap_end \<times> 'z kstate_scheme) outcome" where
  "usertrap k istat s =
     (if sstatus (mycpu s) AND SSTATUS_SPP \<noteq> 0 then Panic ''usertrap: not from user mode''
      else let s = s\<lparr>stvec := sym_kernelvec k\<rparr>; p = curp s; s = tf_set p TF_epc (sepc s) s in
      if scause s = 8
      then if killed p s then obind (exit (-1) s) (\<lambda>s. Ok (To_sched, s))
           else let s = tf_set p TF_epc (tf_get p TF_epc s + 4) s;
                    s = set_cpu (intr_on (mycpu s)) s in
                obind (syscall s) (\<lambda>(back, s).
                if back then usertrap_end k 0 s else Ok (To_sched, s))
      else obind (devintr istat s) (\<lambda>(which_dev, s).
        if which_dev \<noteq> 0 then usertrap_end k which_dev s
        else obind (printf ''usertrap(): unexpected scause %p pid=%d\<newline>'' [APtr (scause s), AInt (word_of_int (p_pid (procs s p)))] s) (\<lambda>s.
          obind (printf ''            sepc=%p stval=%p\<newline>'' [APtr (sepc s), APtr (stval s)] s) (\<lambda>s.
          usertrap_end k 0 (setkilled p s)))))"

section \<open>Traps from the kernel\<close>

definition kerneltrap :: "u32 \<Rightarrow> 'z kstate_scheme \<Rightarrow> (trap_end \<times> 'z kstate_scheme) outcome" where
  "kerneltrap istat s =
     (let epc = sepc s; st = sstatus (mycpu s) in
      if st AND SSTATUS_SPP = 0 then Panic ''kerneltrap: not from supervisor mode''
      else if intr_get (mycpu s) then Panic ''kerneltrap: interrupts enabled''
      else obind (devintr istat s) (\<lambda>(which_dev, s).
        if which_dev = 0 then Panic ''kerneltrap''
        else case cpu_proc (mycpu s) of
          Some p \<Rightarrow>
            if which_dev = 2 \<and> p_state (procs s p) = RUNNING
            then obind (yield s) (\<lambda>s. Ok (To_yield, s))
            else Ok (To_kernel, (set_cpu ((mycpu s)\<lparr>sstatus := st\<rparr>) s)\<lparr>sepc := epc\<rparr>)
        | None \<Rightarrow> Ok (To_kernel, (set_cpu ((mycpu s)\<lparr>sstatus := st\<rparr>) s)\<lparr>sepc := epc\<rparr>)))"

end
