(* ===== verification/Grep.thy ===== *)
theory Grep
  imports Prelude
begin

text \<open>
  \<^verbatim>\<open>user/grep.c\<close>: the regular-expression matcher and the loop that cuts the input into lines. A C
  string is the list of its bytes without the terminator. The descriptor is the input that is left;
  how many bytes a \<^verbatim>\<open>read\<close> returns is up to the environment, the argument \<open>want\<close>.
\<close>

section \<open>The matcher\<close>

definition STAR :: byte where [simp]: "STAR = 42"
definition DOLLAR :: byte where [simp]: "DOLLAR = 36"
definition DOTC :: byte where [simp]: "DOTC = 46"
definition CARET :: byte where [simp]: "CARET = 94"
definition NL :: byte where [simp]: "NL = 10"

function (sequential) matchhere :: "byte list \<Rightarrow> byte list \<Rightarrow> bool"
  and matchstar :: "byte \<Rightarrow> byte list \<Rightarrow> byte list \<Rightarrow> bool" where
  "matchhere [] txt = True"
| "matchhere (c # re) txt =
     (if re \<noteq> [] \<and> hd re = STAR then matchstar c (tl re) txt
      else if c = DOLLAR \<and> re = [] then txt = []
      else if txt \<noteq> [] \<and> (c = DOTC \<or> c = hd txt) then matchhere re (tl txt)
      else False)"
| "matchstar c re txt =
     (if matchhere re txt then True
      else if txt \<noteq> [] \<and> (hd txt = c \<or> c = DOTC) then matchstar c re (tl txt)
      else False)"
  by pat_completeness auto
termination
  by (relation "measure (\<lambda>x. case x of Inl (re, txt) \<Rightarrow> 2 * length re + 2 * length txt | Inr (c, re, txt) \<Rightarrow> 2 * length re + 2 * length txt + 1)")
    (auto simp: neq_Nil_conv)

declare matchstar.simps [simp del]

primrec match_from :: "byte list \<Rightarrow> byte list \<Rightarrow> bool" where
  "match_from re [] = matchhere re []"
| "match_from re (c # txt) = (if matchhere re (c # txt) then True else match_from re txt)"

definition match :: "byte list \<Rightarrow> byte list \<Rightarrow> bool" where
  "match re txt = (if re \<noteq> [] \<and> hd re = CARET then matchhere (tl re) txt else match_from re txt)"

section \<open>The loop over the input\<close>

text \<open>\<^verbatim>\<open>strchr\<close> sees the text up to a NUL. The inner loop: output so far and what is left after the last newline of the buffer.\<close>

function grep_lines :: "byte list \<Rightarrow> byte list \<Rightarrow> byte list \<times> byte list" where
  "grep_lines pattern p =
     (if NL \<in> set (takeWhile (\<lambda>c. c \<noteq> 0) p)
      then let line = takeWhile (\<lambda>c. c \<noteq> NL) p; rest = tl (dropWhile (\<lambda>c. c \<noteq> NL) p);
               (out, left) = grep_lines pattern rest in
           (if match pattern line then line @ [NL] @ out else out, left)
      else ([], p))"
  by pat_completeness auto
termination
proof (relation "measure (\<lambda>(pattern, p). length p)", goal_cases)
  case (2 pattern p x rest)
  then have p: "0 < length p" by (cases p) auto
  have "length rest = length (dropWhile (\<lambda>c. c \<noteq> NL) p) - 1" using 2 by simp
  with p have "length rest < length p" using length_dropWhile_le [of "\<lambda>c. c \<noteq> NL" p] by linarith
  then show ?case by simp
qed simp

declare grep_lines.simps [simp del]

text \<open>The outer loop; \<open>buf\<close> is the text before \<^verbatim>\<open>buf + m\<close>. A read of no bytes ends it.\<close>

definition BUFSZ :: nat where [simp]: "BUFSZ = 1024"

function grep_loop :: "(byte list \<Rightarrow> nat) \<Rightarrow> byte list \<Rightarrow> byte list \<Rightarrow> byte list \<Rightarrow> byte list" where
  "grep_loop want pattern buf inp =
     (let n = min (min (max 1 (want inp)) (length inp)) (BUFSZ - length buf - 1) in
      if n > 0
      then let (out, left) = grep_lines pattern (buf @ take n inp) in
           out @ grep_loop want pattern left (drop n inp)
      else [])"
  by pat_completeness auto
termination
  by (relation "measure (\<lambda>(want, pattern, buf, inp). length inp)") (auto simp: Let_def)

declare grep_loop.simps [simp del]

definition grep :: "(byte list \<Rightarrow> nat) \<Rightarrow> byte list \<Rightarrow> byte list \<Rightarrow> byte list" where
  "grep want pattern inp = grep_loop want pattern [] inp"

section \<open>Specification of the matcher\<close>

text \<open>
  A pattern is a sequence of items: a character or \<^verbatim>\<open>.\<close>, such an item under a \<^verbatim>\<open>*\<close>, and \<^verbatim>\<open>$\<close> at the end.
  \<open>rmatch rs t\<close>: the items describe a prefix of the text, the whole of it where the \<^verbatim>\<open>$\<close> requires it.
\<close>

datatype ritem = Item byte | Star byte | End_of_text

fun items :: "byte list \<Rightarrow> ritem list" where
  "items [] = []"
| "items [c] = (if c = DOLLAR then [End_of_text] else [Item c])"
| "items (c # d # re) = (if d = STAR then Star c # items re else Item c # items (d # re))"

definition cmatch :: "byte \<Rightarrow> byte \<Rightarrow> bool" where
  "cmatch c x \<longleftrightarrow> c = DOTC \<or> c = x"

inductive rmatch :: "ritem list \<Rightarrow> byte list \<Rightarrow> bool" where
  none: "rmatch [] t"
| item: "cmatch c x \<Longrightarrow> rmatch rs t \<Longrightarrow> rmatch (Item c # rs) (x # t)"
| star: "(\<And>x. x \<in> set xs \<Longrightarrow> cmatch c x) \<Longrightarrow> rmatch rs t \<Longrightarrow> rmatch (Star c # rs) (xs @ t)"
| end_of: "rmatch rs [] \<Longrightarrow> rmatch (End_of_text # rs) []"

inductive_cases rmatch_itemE: "rmatch (Item c # rs) t"
inductive_cases rmatch_starE: "rmatch (Star c # rs) t"
inductive_cases rmatch_endE: "rmatch (End_of_text # rs) t"

lemma rmatch_item: "rmatch (Item c # rs) t \<longleftrightarrow> (\<exists>x u. t = x # u \<and> cmatch c x \<and> rmatch rs u)"
  by (auto elim: rmatch_itemE intro: rmatch.item)

lemma rmatch_end: "rmatch (End_of_text # rs) t \<longleftrightarrow> t = [] \<and> rmatch rs []"
  by (auto elim: rmatch_endE intro: rmatch.end_of)

lemma rmatch_star: "rmatch (Star c # rs) t \<longleftrightarrow> rmatch rs t \<or> (\<exists>x u. t = x # u \<and> cmatch c x \<and> rmatch (Star c # rs) u)"
proof
  assume "rmatch (Star c # rs) t"
  then obtain xs u where t: "t = xs @ u" "\<And>x. x \<in> set xs \<Longrightarrow> cmatch c x" "rmatch rs u" by (auto elim: rmatch_starE)
  show "rmatch rs t \<or> (\<exists>x u. t = x # u \<and> cmatch c x \<and> rmatch (Star c # rs) u)"
  proof (cases xs)
    case (Cons y ys)
    then show ?thesis using t rmatch.star [of ys c rs u] by auto
  qed (use t in simp)
next
  assume "rmatch rs t \<or> (\<exists>x u. t = x # u \<and> cmatch c x \<and> rmatch (Star c # rs) u)"
  then show "rmatch (Star c # rs) t"
  proof
    assume "rmatch rs t"
    then show ?thesis using rmatch.star [of "[]" c rs t] by simp
  next
    assume "\<exists>x u. t = x # u \<and> cmatch c x \<and> rmatch (Star c # rs) u"
    then obtain x u where "t = x # u" "cmatch c x" "rmatch (Star c # rs) u" by blast
    then obtain xs v where "u = xs @ v" "\<And>y. y \<in> set xs \<Longrightarrow> cmatch c y" "rmatch rs v" by (auto elim: rmatch_starE)
    then show ?thesis using \<open>t = x # u\<close> \<open>cmatch c x\<close> rmatch.star [of "x # xs" c rs v] by auto
  qed
qed

lemma matchhere_rmatch:
  "matchhere re t \<longleftrightarrow> rmatch (items re) t"
  "matchstar c re t \<longleftrightarrow> rmatch (Star c # items re) t"
proof (induction re t and c re t rule: matchhere_matchstar.induct)
  case (1 u)
  then show ?case by (simp add: rmatch.none)
next
  case (2 c re u)
  show ?case
  proof (cases re)
    case Nil
    then show ?thesis using 2(2) by (cases u) (auto simp: rmatch_item rmatch_end cmatch_def rmatch.none)
  next
    case (Cons d re')
    then show ?thesis using 2 by (cases u) (auto simp: rmatch_item cmatch_def)
  qed
next
  case (3 c re u)
  then show ?case
    by (subst matchstar.simps, subst rmatch_star, cases u) (auto simp: cmatch_def)
qed

lemma match_from_iff: "match_from re t \<longleftrightarrow> (\<exists>a b. t = a @ b \<and> matchhere re b)"
proof (induction t)
  case (Cons c t)
  have "(\<exists>a b. c # t = a @ b \<and> matchhere re b) \<longleftrightarrow> matchhere re (c # t) \<or> (\<exists>a b. t = a @ b \<and> matchhere re b)"
    by (metis append_Cons append_Nil list.exhaust list.inject)
  then show ?case using Cons.IH by auto
qed auto

text \<open>
  C23. The matcher of \<^verbatim>\<open>grep\<close> decides the declarative meaning of its patterns: after a \<^verbatim>\<open>^\<close> the items have to
  match at the beginning of the line, otherwise anywhere in it.
\<close>

theorem match_correct:
  "match re t \<longleftrightarrow>
     (case re of
        c # re' \<Rightarrow> if c = CARET then rmatch (items re') t else (\<exists>a b. t = a @ b \<and> rmatch (items re) b)
      | [] \<Rightarrow> True)"
proof (cases re)
  case Nil
  then show ?thesis by (cases t) (auto simp: match_def)
next
  case (Cons c re')
  then show ?thesis by (auto simp: match_def match_from_iff matchhere_rmatch(1) simp del: matchhere.simps)
qed

section \<open>The lines that are printed\<close>

definition join_lines :: "byte list list \<Rightarrow> byte list" where
  "join_lines ls = concat (map (\<lambda>l. l @ [NL]) ls)"

lemma join_lines_simps [simp]:
  "join_lines [] = []" "join_lines (l # ls) = l @ NL # join_lines ls" "join_lines (ls @ ms) = join_lines ls @ join_lines ms"
  by (simp_all add: join_lines_def)

text \<open>Text without a newline in front of the lines lies within the first of them.\<close>

lemma first_line_prefix:
  assumes "buf @ r = l @ NL # z" "NL \<notin> set buf"
  shows "\<exists>l'. l = buf @ l' \<and> r = l' @ NL # z"
  using assms by (auto simp: append_eq_append_conv2 append_eq_Cons_conv)

lemma first_line_whole:
  assumes "p @ r = l @ NL # z" "NL \<in> set p" "NL \<notin> set l"
  shows "\<exists>p'. p = l @ NL # p' \<and> z = p' @ r"
  using assms by (auto simp: append_eq_append_conv2 append_eq_Cons_conv)

lemma grep_lines_split:
  assumes "p @ r = join_lines ls" "\<And>l. l \<in> set ls \<Longrightarrow> NL \<notin> set l \<and> 0 \<notin> set l"
  shows "\<exists>ls1 ls2 left. ls = ls1 @ ls2 \<and> left @ r = join_lines ls2 \<and> NL \<notin> set left
           \<and> grep_lines pattern p = (join_lines (filter (match pattern) ls1), left)"
  using assms
proof (induction ls arbitrary: p)
  case Nil
  then show ?case by (simp add: grep_lines.simps)
next
  case (Cons l ls)
  have l: "NL \<notin> set l" "0 \<notin> set l" using Cons.prems(2) by auto
  have nn: "0 \<notin> set p"
  proof -
    have "0 \<notin> set (join_lines (l # ls))" using Cons.prems(2) by (auto simp: join_lines_def)
    then show ?thesis unfolding Cons.prems(1) [symmetric] by simp
  qed
  show ?case
  proof (cases "NL \<in> set p")
    case True
    then obtain p' where p: "p = l @ NL # p'" "join_lines ls = p' @ r"
      using first_line_whole [of p r l "join_lines ls"] Cons.prems(1) l by auto
    obtain ls1 ls2 left where *: "ls = ls1 @ ls2" "left @ r = join_lines ls2" "NL \<notin> set left"
        "grep_lines pattern p' = (join_lines (filter (match pattern) ls1), left)"
      using Cons.IH [of p'] Cons.prems(2) p(2) by fastforce
    have whole: "takeWhile (\<lambda>c. c \<noteq> 0) p = p" using nn by (auto simp: takeWhile_eq_all_conv)
    have line: "takeWhile (\<lambda>c. c \<noteq> NL) p = l" "tl (dropWhile (\<lambda>c. c \<noteq> NL) p) = p'"
      using l(1) p(1) by (auto simp: takeWhile_append dropWhile_append)
    have "grep_lines pattern p = (join_lines (filter (match pattern) (l # ls1)), left)"
      using True line *(4) by (subst grep_lines.simps) (simp only: whole if_True, simp add: Let_def)
    then show ?thesis using * by (intro exI [of _ "l # ls1"] exI [of _ ls2] exI [of _ left]) auto
  next
    case False
    have "NL \<notin> set (takeWhile (\<lambda>c. c \<noteq> 0) p)" using False by (auto dest: set_takeWhileD)
    then have "grep_lines pattern p = ([], p)" by (subst grep_lines.simps) simp
    then show ?thesis using False Cons.prems(1) by (intro exI [of _ "[]"] exI [of _ "l # ls"] exI [of _ p]) simp
  qed
qed

lemma grep_loop_lines:
  assumes "buf @ inp = join_lines ls" "NL \<notin> set buf"
    "\<And>l. l \<in> set ls \<Longrightarrow> NL \<notin> set l \<and> 0 \<notin> set l \<and> length l < BUFSZ - 1"
  shows "grep_loop want pattern buf inp = join_lines (filter (match pattern) ls)"
  using assms
proof (induction want pattern buf inp arbitrary: ls rule: grep_loop.induct)
  case (1 want pattern buf inp)
  show ?case
  proof (cases "inp = []")
    case True
    then have "ls = []" using 1(2,3) by (cases ls) auto
    then show ?thesis using True by (subst grep_loop.simps) simp
  next
    case False
    define n where "n = min (min (max 1 (want inp)) (length inp)) (BUFSZ - length buf - 1)"
    obtain l ls' where ls: "ls = l # ls'" using False 1(2) by (cases ls) auto
    then have "length buf \<le> length l" using first_line_prefix [of buf inp l "join_lines ls'"] 1(2,3) by auto
    then have "0 < n" using 1(4) [of l] ls False by (auto simp: n_def)
    have parts: "(buf @ take n inp) @ drop n inp = join_lines ls" using 1(2) by simp
    obtain ls1 ls2 left where *: "ls = ls1 @ ls2" "left @ drop n inp = join_lines ls2" "NL \<notin> set left"
        "grep_lines pattern (buf @ take n inp) = (join_lines (filter (match pattern) ls1), left)"
      using grep_lines_split [OF parts, of pattern] 1(4) by blast
    have "grep_loop want pattern left (drop n inp) = join_lines (filter (match pattern) ls2)"
      by (rule 1(1) [OF n_def _ refl *(4) [symmetric] *(2,3)]) (use \<open>0 < n\<close> 1(4) *(1) in auto)
    then show ?thesis using \<open>0 < n\<close> *(1,4) by (subst grep_loop.simps, fold n_def, simp add: Let_def)
  qed
qed

text \<open>
  C24. On an input made of lines that fit the buffer, \<^verbatim>\<open>grep\<close> prints exactly the lines the pattern matches, in order,
  however the reads cut the input into pieces.
\<close>

theorem grep_correct:
  assumes "\<And>l. l \<in> set ls \<Longrightarrow> NL \<notin> set l \<and> 0 \<notin> set l \<and> length l < BUFSZ - 1"
  shows "grep want pattern (join_lines ls) = join_lines (filter (match pattern) ls)"
  unfolding grep_def by (rule grep_loop_lines) (use assms in auto)

theorem grep_correct_witness:
  "list_all (\<lambda>l. NL \<notin> set l \<and> 0 \<notin> set l \<and> length l < BUFSZ - 1) [[104, 105], [104], [120, 104, 104]]
   \<and> grep (\<lambda>inp. 2) [104, 42, 36] (join_lines [[104, 105], [104], [120, 104, 104]])
       = join_lines (filter (match [104, 42, 36]) [[104, 105], [104], [120, 104, 104]])"
  by (intro conjI grep_correct) auto

end
