(* ===== verification/Pipe.thy ===== *)
theory Pipe
  imports File Ucopy
begin

text \<open>
  Pipes deliver bytes in order: the lemmas about \<^verbatim>\<open>pipewrite\<close> and \<^verbatim>\<open>piperead\<close> (theory \<open>File\<close>), over
  the contract of \<^verbatim>\<open>copyin\<close> and \<^verbatim>\<open>copyout\<close> and the ring-buffer interface at the pipe's size.
\<close>

section \<open>The contents of a pipe\<close>

interpretation pipe_ring: ring_buffer PIPESIZE "TYPE(32 word)"
  by unfold_locales simp_all

definition pipe_bytes :: "pipe \<Rightarrow> byte list" where
  "pipe_bytes p = ring PIPESIZE (pi_data p) (pi_nread p) (pi_nwrite p)"

definition pipe_ok :: "pipe \<Rightarrow> bool" where
  "pipe_ok p \<longleftrightarrow> length (pipe_bytes p) \<le> PIPESIZE"

definition pipe_put :: "byte \<Rightarrow> pipe \<Rightarrow> pipe" where
  "pipe_put c p = p\<lparr>pi_data := (pi_data p)(unat (pi_nwrite p) mod PIPESIZE := c), pi_nwrite := pi_nwrite p + 1\<rparr>"

definition pipe_get :: "pipe \<Rightarrow> pipe" where
  "pipe_get p = p\<lparr>pi_nread := pi_nread p + 1\<rparr>"

lemma pipe_full_iff:
  assumes "pipe_ok p"
  shows "pi_nwrite p = pi_nread p + of_nat PIPESIZE \<longleftrightarrow> length (pipe_bytes p) = PIPESIZE"
proof
  assume "pi_nwrite p = pi_nread p + of_nat PIPESIZE"
  then show "length (pipe_bytes p) = PIPESIZE" by (simp add: pipe_bytes_def)
next
  assume "length (pipe_bytes p) = PIPESIZE"
  then have "unat (pi_nwrite p - pi_nread p) = 512" by (simp add: pipe_bytes_def)
  then have "pi_nwrite p - pi_nread p = 512" by (simp add: word_unat_eq_iff)
  then show "pi_nwrite p = pi_nread p + of_nat PIPESIZE" by (simp add: algebra_simps)
qed

lemma pipe_empty_iff: "pi_nread p = pi_nwrite p \<longleftrightarrow> pipe_bytes p = []"
proof -
  have "pipe_bytes p = [] \<longleftrightarrow> unat (pi_nwrite p - pi_nread p) = 0"
    by (metis length_0_conv length_ring pipe_bytes_def)
  then show ?thesis by (auto simp: unat_eq_0)
qed

lemma pipe_put_bytes:
  assumes "length (pipe_bytes p) < PIPESIZE"
  shows "pipe_bytes (pipe_put c p) = pipe_bytes p @ [c]"
  using assms pipe_ring.ring_push [of "pi_nwrite p" "pi_nread p" "pi_data p" c] by (simp add: pipe_bytes_def pipe_put_def)

lemma pipe_get_bytes:
  assumes "pipe_bytes p \<noteq> []"
  shows "pipe_bytes p = pi_data p (unat (pi_nread p) mod PIPESIZE) # pipe_bytes (pipe_get p)"
  using assms ring_Cons [of "pi_nread p" "pi_nwrite p" PIPESIZE "pi_data p"] pipe_empty_iff [of p]
  by (simp add: pipe_bytes_def pipe_get_def)

lemma pipe_op_fields [simp]:
  "pi_readopen (pipe_put c p) = pi_readopen p" "pi_writeopen (pipe_put c p) = pi_writeopen p"
  "pi_readopen (pipe_get p) = pi_readopen p" "pi_writeopen (pipe_get p) = pi_writeopen p"
  by (simp_all add: pipe_put_def pipe_get_def)

section \<open>Frames\<close>

lemma updpipe_fields [simp]:
  "pmem (updpipe pi f s) = pmem s" "freelist (updpipe pi f s) = freelist s" "kend (updpipe pi f s) = kend s"
  "cur_pt (updpipe pi f s) = cur_pt s" "procs (updpipe pi f s) = procs s" "curp (updpipe pi f s) = curp s"
  "pipes (updpipe pi f s) q = (if q = pi then f (pipes s pi) else pipes s q)"
  "killed p (updpipe pi f s) = killed p s"
  by (simp_all add: updpipe_def killed_def)

lemma updpipe_updpipe: "updpipe pi f (updpipe pi g s) = updpipe pi (\<lambda>x. f (g x)) s"
  by (simp add: updpipe_def)

lemma updpipe_id [simp]: "updpipe pi (\<lambda>x. x) s = s"
  by (simp add: updpipe_def)

lemma user_update_pipe:
  assumes "user_update pt va bs (updpipe pi f s) t"
  shows "\<exists>u. user_update pt va bs s u \<and> t = updpipe pi f u"
proof (intro exI conjI)
  have "kmem.more t = kmem.more (updpipe pi f s)" using assms by (simp add: user_update_def)
  then have m: "kmem.more (t\<lparr>pipes := pipes s\<rparr>) = kmem.more s \<and> t = updpipe pi f (t\<lparr>pipes := pipes s\<rparr>)"
    by (cases t, cases s) (simp add: updpipe_def)
  show "user_update pt va bs s (t\<lparr>pipes := pipes s\<rparr>)" using assms m by (simp add: user_update_def)
  show "t = updpipe pi f (t\<lparr>pipes := pipes s\<rparr>)" using m by simp
qed

section \<open>Writing\<close>

text \<open>What a writer can still send: the bytes up to the first one it has no access to.\<close>

definition sendable :: "memory \<Rightarrow> addr \<Rightarrow> u64 \<Rightarrow> nat \<Rightarrow> nat \<Rightarrow> byte list" where
  "sendable m pt a i n = map (\<lambda>j. ubyte m pt (a + of_nat j)) (takeWhile (\<lambda>j. uaccess m pt (a + of_nat j)) [i..<n])"

lemma sendable_step:
  "i < n \<Longrightarrow> sendable m pt a i n =
     (if uaccess m pt (a + of_nat i) then ubyte m pt (a + of_nat i) # sendable m pt a (Suc i) n else [])"
  "\<not> i < n \<Longrightarrow> sendable m pt a i n = []"
  by (simp_all add: sendable_def upt_conv_Cons)

lemma length_sendable: "length (sendable m pt a i n) \<le> n - i"
  unfolding sendable_def using length_takeWhile_le [of _ "[i..<n]"] by simp

lemma pipe_puts_bytes:
  "length (pipe_bytes p) + length cs \<le> PIPESIZE \<Longrightarrow> pipe_bytes (fold pipe_put cs p) = pipe_bytes p @ cs"
  by (induction cs arbitrary: p) (simp_all add: pipe_put_bytes)

lemma pipewrite_loop_ok:
  assumes "uvm_inv s (cur_pt s) ps lim" "pipe_ok (pipes s pi)" "pi_readopen (pipes s pi)" "\<not> killed (curp s) s"
    "i \<le> n" "n - i < k" 
    and "cs = take (PIPESIZE - length (pipe_bytes (pipes s pi))) (sendable (pmem s) (cur_pt s) a i n)"
  shows "pipewrite_loop k pi a (int n) (int i) s =
    Ok (if i + length cs < n \<and> length (pipe_bytes (pipes s pi)) + length cs = PIPESIZE then Inr (int (i + length cs)) else Inl (int (i + length cs)),
        wakeup (Ch_nread pi) (updpipe pi (fold pipe_put cs) s))"
  using assms
proof (induction k arbitrary: i s cs)
  case (Suc k)
  let ?p = "pipes s pi"
  note full = pipe_full_iff [OF Suc.prems(2)]
  show ?case
  proof (cases "i < n \<and> length (pipe_bytes ?p) < PIPESIZE \<and> uaccess (pmem s) (cur_pt s) (a + of_nat i)")
    case False
    consider "\<not> i < n" | "i < n" "length (pipe_bytes ?p) = PIPESIZE"
      | "i < n" "length (pipe_bytes ?p) < PIPESIZE" "\<not> uaccess (pmem s) (cur_pt s) (a + of_nat i)"
      using False Suc.prems(2) unfolding pipe_ok_def by linarith
    then show ?thesis
      using Suc.prems full by cases (auto simp: sendable_step copyin_ok [OF Suc.prems(1)] wakeup_eq simp del: PIPESIZE_def)
  next
    case True
    define c where "c = ubyte (pmem s) (cur_pt s) (a + of_nat i)"
    define t where "t = updpipe pi (pipe_put c) s"
    define ds where "ds = take (PIPESIZE - length (pipe_bytes (pipes t pi))) (sendable (pmem t) (cur_pt t) a (Suc i) n)"
    have b: "pipe_bytes (pipes t pi) = pipe_bytes ?p @ [c]" using True pipe_put_bytes by (simp add: t_def)
    have cs: "cs = c # ds"
      using True b unfolding Suc.prems(7) ds_def c_def
      by (simp add: sendable_step t_def take_Cons' Suc_diff_Suc del: PIPESIZE_def)
    have upd: "updpipe pi (\<lambda>x. x\<lparr>pi_data := (pi_data x)(unat (pi_nwrite x) mod PIPESIZE := c), pi_nwrite := pi_nwrite x + 1\<rparr>) s = t"
      by (simp add: t_def updpipe_def pipe_put_def)
    have "pipewrite_loop (Suc k) pi a (int n) (int i) s = pipewrite_loop k pi a (int n) (int (Suc i)) t"
      using True Suc.prems(3,4) full by (simp add: copyin_ok [OF Suc.prems(1)] upd c_def [symmetric] add.commute [of "int i" 1] del: PIPESIZE_def)
    also have "\<dots> = Ok (if Suc i + length ds < n \<and> length (pipe_bytes (pipes t pi)) + length ds = PIPESIZE
        then Inr (int (Suc i + length ds)) else Inl (int (Suc i + length ds)), wakeup (Ch_nread pi) (updpipe pi (fold pipe_put ds) t))"
    proof (rule Suc.IH [OF _ _ _ _ _ _ ds_def])
      show "uvm_inv t (cur_pt t) ps lim" using Suc.prems(1) by (simp add: t_def uvm_inv_cong [of "updpipe _ _ s" s])
      show "pipe_ok (pipes t pi)" using b True by (simp add: pipe_ok_def)
    qed (use True Suc.prems in \<open>auto simp: t_def\<close>)
    finally show ?thesis unfolding cs b by (simp add: t_def updpipe_updpipe)
  qed
qed simp

section \<open>Reading\<close>

lemma pipe_gets_bytes:
  "n \<le> length (pipe_bytes p) \<Longrightarrow> pipe_bytes ((pipe_get ^^ n) p) = drop n (pipe_bytes p)"
proof (induction n arbitrary: p)
  case (Suc n)
  then have ne: "pipe_bytes p \<noteq> []" by auto
  have "pipe_bytes p = pi_data p (unat (pi_nread p) mod PIPESIZE) # pipe_bytes (pipe_get p)" by (rule pipe_get_bytes [OF ne])
  then obtain c where c: "pipe_bytes p = c # pipe_bytes (pipe_get p)" by blast
  then show ?case using Suc.IH [of "pipe_get p"] Suc.prems by (simp add: funpow_swap1)
qed simp

lemma user_update_refl: "user_update pt va [] s s"
  by (simp add: user_update_def)

lemma user_update_uwrite: "user_update pt va bs s t \<Longrightarrow> uwrite (pmem t) pt = uwrite (pmem s) pt"
  by (rule uaccess_cong(2)) (simp add: user_update_def)

lemma user_update_cur: "user_update pt va bs s t \<Longrightarrow> cur_pt t = cur_pt s \<and> pipes t = pipes s \<and> procs t = procs s \<and> curp t = curp s"
  by (cases s, cases t) (simp add: user_update_def)

lemma piperead_loop_ok:
  assumes "uvm_inv s (cur_pt s) ps lim" "\<forall>j<k. uwrite (pmem s) (cur_pt s) (a + of_nat (i + j))"
    "pipe_ok (pipes s pi)" "k < 2 ^ 32"
    and "cs = take k (pipe_bytes (pipes s pi))"
  shows "\<exists>t. piperead_loop k pi a n (int i) s = Ok (int (i + length cs), updpipe pi (pipe_get ^^ length cs) t)
    \<and> user_update (cur_pt s) (a + of_nat i) cs s t \<and> uvm_inv t (cur_pt s) ps lim"
  using assms
proof (induction k arbitrary: i s cs)
  case 0
  then show ?case using user_update_refl by (auto simp: id_def)
next
  case (Suc k)
  let ?p = "pipes s pi"
  show ?case
  proof (cases "pipe_bytes ?p = []")
    case True
    then show ?thesis using Suc.prems user_update_refl [of "cur_pt s" _ s] pipe_empty_iff [of ?p]
      by (auto simp: id_def intro!: exI [of _ s])
  next
    case False
    define c where "c = pi_data ?p (unat (pi_nread ?p) mod PIPESIZE)"
    have bs: "pipe_bytes ?p = c # pipe_bytes (pipe_get ?p)" using pipe_get_bytes [OF False] by (simp add: c_def)
    define s1 where "s1 = updpipe pi pipe_get s"
    have inv1: "uvm_inv s1 (cur_pt s) ps lim" using Suc.prems(1) by (simp add: s1_def uvm_inv_cong [of "updpipe _ _ s" s])
    obtain t1 m where t1: "copyout (cur_pt s) (a + of_nat i) [c] s1 = Ok (0, t1)" "uvm_inv t1 (cur_pt s) ps lim"
        "user_update (cur_pt s) (a + of_nat i) [c] s1 t1"
      using copyout_ok [OF inv1, of "[c]" "a + of_nat i"] Suc.prems(2) [rule_format, of 0] by (auto simp: s1_def)
    obtain u where u: "user_update (cur_pt s) (a + of_nat i) [c] s u" "t1 = updpipe pi pipe_get u"
      using user_update_pipe [OF t1(3) [unfolded s1_def]] by blast
    note cur = user_update_cur [OF u(1)]
    define ds where "ds = take k (pipe_bytes (pipes t1 pi))"
    have cs: "cs = c # ds" using bs cur Suc.prems(5) by (simp add: ds_def u(2))
    have "\<forall>j<k. uwrite (pmem t1) (cur_pt t1) (a + of_nat (Suc i + j))"
      using Suc.prems(2) user_update_uwrite [OF u(1)] cur by (auto simp: u(2) algebra_simps dest: spec [of _ "Suc _"])
    moreover have "pipe_ok (pipes t1 pi)" using Suc.prems(3) bs cur by (simp add: u(2) pipe_ok_def)
    ultimately obtain t where t: "piperead_loop k pi a n (int (Suc i)) t1 = Ok (int (Suc i + length ds), updpipe pi (pipe_get ^^ length ds) t)"
        "user_update (cur_pt s) (a + of_nat (Suc i)) ds t1 t" "uvm_inv t (cur_pt s) ps lim"
      using Suc.IH [of t1 "Suc i" ds] t1(2) cur Suc.prems(4) ds_def by (auto simp: u(2))
    obtain v where v: "user_update (cur_pt s) (a + of_nat (Suc i)) ds u v" "t = updpipe pi pipe_get v"
      using user_update_pipe [OF t(2) [unfolded u(2)]] by blast
    have "piperead_loop (Suc k) pi a n (int i) s = piperead_loop k pi a n (int (Suc i)) t1"
      using False pipe_empty_iff [of ?p] t1(1) by (simp add: c_def s1_def pipe_get_def [abs_def] add.commute)
    moreover have "user_update (cur_pt s) (a + of_nat i) (c # ds) s v"
      using user_update_append [OF u(1), of ds v] v(1) Suc.prems(4) by (simp add: ds_def algebra_simps)
    ultimately show ?thesis
      using t(1,3) uvm_inv_cong [of t v] unfolding cs
      by (intro exI [of _ v]) (simp add: v(2) updpipe_updpipe funpow_swap1 comp_def)
  qed
qed

section \<open>Properties\<close>

lemma pipewrite_ok:
  assumes "uvm_inv s (cur_pt s) ps lim" "pipe_ok (pipes s pi)" "pi_readopen (pipes s pi)" "\<not> killed (curp s) s"
    and cs: "cs = take (PIPESIZE - length (pipe_bytes (pipes s pi))) (sendable (pmem s) (cur_pt s) a 0 n)"
  shows "pipewrite pi a (int n) s =
      Ok (if length cs < n \<and> length (pipe_bytes (pipes s pi)) + length cs = PIPESIZE then Inr (int (length cs)) else Inl (int (length cs)),
          wakeup (Ch_nread pi) (updpipe pi (fold pipe_put cs) s))"
    and "pipe_bytes (fold pipe_put cs (pipes s pi)) = pipe_bytes (pipes s pi) @ cs"
proof -
  show "pipewrite pi a (int n) s =
      Ok (if length cs < n \<and> length (pipe_bytes (pipes s pi)) + length cs = PIPESIZE then Inr (int (length cs)) else Inl (int (length cs)),
          wakeup (Ch_nread pi) (updpipe pi (fold pipe_put cs) s))"
    using pipewrite_loop_ok [OF assms(1-4) _ _ cs, of "Suc n"] by (simp add: pipewrite_def pipewrite_from_def)
  have "length (pipe_bytes (pipes s pi)) + length cs \<le> PIPESIZE" using assms(2) unfolding cs by (simp add: pipe_ok_def)
  then show "pipe_bytes (fold pipe_put cs (pipes s pi)) = pipe_bytes (pipes s pi) @ cs" by (rule pipe_puts_bytes)
qed

lemma wakeup_fields [simp]:
  "pipes (wakeup ch s) = pipes s" "pmem (wakeup ch s) = pmem s" "cur_pt (wakeup ch s) = cur_pt s" "killed p (wakeup ch s) = killed p s"
  "freelist (wakeup ch s) = freelist s" "kend (wakeup ch s) = kend s" "curp (wakeup ch s) = curp s"
  by (simp_all add: wakeup_eq killed_def)

text \<open>
  \<^verbatim>\<open>pipewrite\<close> appends to the pipe: it sends the caller's bytes in order, as many as are readable and
  fit into the 512 bytes of the buffer, changes nothing else of the pipe's contents, and returns their number, unless
  the buffer is full before the end, where it sleeps at that position.
\<close>

theorem pipewrite_fifo:
  assumes "uvm_inv s (cur_pt s) ps lim" "pipe_ok (pipes s pi)" "pi_readopen (pipes s pi)" "\<not> killed (curp s) s"
  shows "\<exists>s' cs. pipewrite pi a (int n) s =
        Ok (if length cs < n \<and> length (pipe_bytes (pipes s' pi)) = PIPESIZE then Inr (int (length cs)) else Inl (int (length cs)), s')
    \<and> cs = take (PIPESIZE - length (pipe_bytes (pipes s pi))) (sendable (pmem s) (cur_pt s) a 0 n)
    \<and> pipe_bytes (pipes s' pi) = pipe_bytes (pipes s pi) @ cs \<and> pipe_ok (pipes s' pi)
    \<and> (\<forall>q. q \<noteq> pi \<longrightarrow> pipes s' q = pipes s q) \<and> pmem s' = pmem s"
proof -
  define cs where "cs = take (PIPESIZE - length (pipe_bytes (pipes s pi))) (sendable (pmem s) (cur_pt s) a 0 n)"
  note w = pipewrite_ok [OF assms cs_def]
  have "pipe_ok (fold pipe_put cs (pipes s pi))"
    using assms(2) w(2) by (simp add: pipe_ok_def cs_def)
  then show ?thesis using w by (intro exI [of _ "wakeup (Ch_nread pi) (updpipe pi (fold pipe_put cs) s)"] exI [of _ cs]) (simp add: cs_def)
qed

text \<open>
  C9. A pipe carries bytes from one process to another unchanged: what \<^verbatim>\<open>pipewrite\<close> took from the writer's memory is
  what \<^verbatim>\<open>piperead\<close> puts into the memory of the process that runs next.
\<close>

theorem pipe_roundtrip:
  assumes "uvm_inv s (cur_pt s) ps lim" "pipe_bytes (pipes s pi) = []" "pi_readopen (pipes s pi)" "\<not> killed (curp s) s"
    and "n \<le> PIPESIZE" "0 < n" "\<forall>j<n. uaccess (pmem s) (cur_pt s) (a + of_nat j)"
    and "uvm_inv s (p_pagetable (procs s r)) ps' lim'" "\<forall>j<n. uwrite (pmem s) (p_pagetable (procs s r)) (b + of_nat j)"
  shows "\<exists>s1 s2. pipewrite pi a (int n) s = Ok (Inl (int n), s1) \<and> piperead pi b (int n) (enter r s1) = Ok (Some (int n), s2)
    \<and> (\<forall>j<n. ubyte (pmem s2) (p_pagetable (procs s r)) (b + of_nat j) = ubyte (pmem s) (cur_pt s) (a + of_nat j))
    \<and> pipe_bytes (pipes s2 pi) = []"
proof -
  define cs where "cs = map (\<lambda>j. ubyte (pmem s) (cur_pt s) (a + of_nat j)) [0..<n]"
  define s1 where "s1 = wakeup (Ch_nread pi) (updpipe pi (fold pipe_put cs) s)"
  define t where "t = enter r s1"
  have ok: "pipe_ok (pipes s pi)" using assms(2) by (simp add: pipe_ok_def)
  have cs: "cs = take (PIPESIZE - length (pipe_bytes (pipes s pi))) (sendable (pmem s) (cur_pt s) a 0 n)"
    using assms(2,5,7) by (simp add: sendable_def cs_def takeWhile_eq_all_conv [THEN iffD2])
  note w = pipewrite_ok [OF assms(1) ok assms(3,4) cs, folded s1_def]
  have len: "length cs = n" by (simp add: cs_def)
  have t: "pmem t = pmem s" "freelist t = freelist s" "kend t = kend s" "cur_pt t = p_pagetable (procs s r)"
    "pipes t pi = fold pipe_put cs (pipes s pi)"
    by (simp_all add: t_def enter_def s1_def wakeup_eq)
  have bytes: "pipe_bytes (pipes t pi) = cs" using w(2) assms(2) t(5) by simp
  have inv: "uvm_inv t (cur_pt t) ps' lim'" using assms(8) t by (simp add: uvm_inv_cong [of t s])
  have k: "n < 2 ^ 32" using assms(5) by simp
  have wr: "\<forall>j<n. uwrite (pmem t) (cur_pt t) (b + of_nat (0 + j))" and pok: "pipe_ok (pipes t pi)" and tk: "cs = take n (pipe_bytes (pipes t pi))"
    using assms(5,9) t bytes len by (auto simp: pipe_ok_def)
  obtain u where u: "piperead_loop n pi b (int n) 0 t = Ok (int n, updpipe pi (pipe_get ^^ n) u)" "user_update (cur_pt t) b cs t u"
    using piperead_loop_ok [OF inv wr pok k tk, of "int n"] len by auto
  define s2 where "s2 = wakeup (Ch_nwrite pi) (updpipe pi (pipe_get ^^ n) u)"
  have "piperead pi b (int n) t = Ok (Some (int n), s2)"
    using u(1) bytes len assms(6) pipe_empty_iff [of "pipes t pi"] by (auto simp: piperead_def s2_def)
  moreover have "pipe_bytes (pipes s2 pi) = []"
    using pipe_gets_bytes [of n "pipes t pi"] user_update_cur [OF u(2)] bytes len by (simp add: s2_def)
  moreover have "ubyte (pmem s2) (cur_pt t) (b + of_nat j) = cs ! j" if "j < n" for j
  proof -
    have "uaccess (pmem t) (cur_pt t) (b + of_nat j)" using wr that by (simp add: uwrite_def)
    moreover have "unat (of_nat j :: u64) = j" using that assms(5) by (simp add: unat_of_nat take_bit_nat_eq_self)
    ultimately show ?thesis using u(2) that len by (simp add: user_update_def s2_def)
  qed
  moreover have "pipewrite pi a (int n) s = Ok (Inl (int n), s1)" using w(1) len by simp
  ultimately show ?thesis using t by (intro exI [of _ s1] exI [of _ s2]) (simp add: t_def cs_def)
qed

text \<open>A process with the two-page address space and an open, empty pipe.\<close>

definition pipe_ex :: ostate where
  "pipe_ex = os_boot\<lparr>pmem := pmem uvm_ex, freelist := freelist uvm_ex, kend := kend uvm_ex, cur_pt := 0x80030000,
     procs := (\<lambda>_. zero_proc)(3 := zero_proc\<lparr>p_pagetable := 0x80030000\<rparr>),
     pipes := (\<lambda>_. zero_pipe)(0x80040000 := zero_pipe\<lparr>pi_readopen := True, pi_writeopen := True\<rparr>)\<rparr>"

lemma pipe_ex_ok:
  "uvm_inv pipe_ex 0x80030000 [] 2" "cur_pt pipe_ex = 0x80030000" "pipe_bytes (pipes pipe_ex 0x80040000) = []"
  "pi_readopen (pipes pipe_ex 0x80040000)" "\<not> killed (curp pipe_ex) pipe_ex" "p_pagetable (procs pipe_ex 3) = 0x80030000"
  "pmem pipe_ex = pmem uvm_ex"
  using uvm_ex_inv uvm_inv_cong [of pipe_ex uvm_ex]
  by (simp_all add: pipe_ex_def os_boot_simps killed_def pipe_bytes_def)

theorem pipewrite_fifo_witness:
  "\<exists>s' cs. pipewrite 0x80040000 0xffe (int 3) pipe_ex =
        Ok (if length cs < 3 \<and> length (pipe_bytes (pipes s' 0x80040000)) = PIPESIZE then Inr (int (length cs)) else Inl (int (length cs)), s')
    \<and> cs = take PIPESIZE (sendable (pmem uvm_ex) 0x80030000 0xffe 0 3)
    \<and> pipe_bytes (pipes s' 0x80040000) = cs"
proof -
  have "pipe_ok (pipes pipe_ex 0x80040000)" by (simp add: pipe_ok_def pipe_ex_ok)
  from pipewrite_fifo [of pipe_ex "[]" 2, OF _ this pipe_ex_ok(4,5), of "0xffe" 3, unfolded pipe_ex_ok(2,3,7) append_Nil list.size diff_zero, OF pipe_ex_ok(1)]
  show ?thesis by (elim exE conjE) (intro exI conjI)
qed

theorem pipe_roundtrip_witness:
  "\<exists>s1 s2. pipewrite 0x80040000 0xffe (int 2) pipe_ex = Ok (Inl (int 2), s1)
     \<and> piperead 0x80040000 0x10 (int 2) (enter 3 s1) = Ok (Some (int 2), s2) \<and> pipe_bytes (pipes s2 0x80040000) = []"
proof -
  have r: "uwrite (pmem uvm_ex) 0x80030000 (0xffe + of_nat j)" "uwrite (pmem uvm_ex) 0x80030000 (0x10 + of_nat j)" if "j < 2" for j
    using that by (auto intro!: uvm_ex_write simp: less_2_cases_iff)
  then have "\<forall>j<2. uaccess (pmem pipe_ex) (cur_pt pipe_ex) (0xffe + of_nat j)"
    "\<forall>j<2. uwrite (pmem pipe_ex) (p_pagetable (procs pipe_ex 3)) (0x10 + of_nat j)"
    by (auto simp: pipe_ex_ok uwrite_def)
  then show ?thesis
    using pipe_roundtrip [of pipe_ex "[]" 2 "0x80040000" 2 "0xffe" 3 "[]" 2 "0x10"] pipe_ex_ok by auto
qed

end
