(* ===== verification/Sched.thy ===== *)
theory Sched
  imports Proc Transition
begin

text \<open>
  Several CPUs in the scheduler of \<^verbatim>\<open>kernel/proc.c\<close>: a step relation whose steps are the sections of the code that run
  under a process's lock, and the invariant that keeps two CPUs from running on one kernel stack. The registers of
  the CPU that takes a step are whatever the code it ran before left in them.
\<close>

section \<open>What the invariant sees\<close>

definition cproc :: "'z pstate_scheme \<Rightarrow> nat \<Rightarrow> nat option" where
  "cproc s h = cpu_proc (cpus s h)"

definition pst :: "'z pstate_scheme \<Rightarrow> nat \<Rightarrow> procstate" where
  "pst s p = p_state (procs s p)"

definition plk :: "'z pstate_scheme \<Rightarrow> nat \<Rightarrow> spinlock" where
  "plk s p = p_lock (procs s p)"

lemmas sview = cproc_def pst_def plk_def

definition held_by :: "nat \<Rightarrow> spinlock \<Rightarrow> spinlock" where
  "held_by h lk = lk\<lparr>locked := 1, lcpu := Some h\<rparr>"

lemma holding_held [simp]: "holding i (held_by h lk) \<longleftrightarrow> i = h"
  by (auto simp: holding_def held_by_def)

lemma holding_free [simp]: "\<not> holding i (lk\<lparr>lcpu := None, locked := 0\<rparr>)"
  by (simp add: holding_def)

lemma push_off_proc [simp]: "cpu_proc (push_off c) = cpu_proc c"
  by (simp add: push_off_def intr_off_def Let_def)

lemma pop_off_proc: "pop_off c = Ok d \<Longrightarrow> cpu_proc d = cpu_proc c"
  by (auto simp: pop_off_def intr_on_def Let_def split: if_splits)

lemma p_acquire_view:
  assumes "p_acquire p s = Ok t"
  shows "locked (plk s p) = 0" "cproc t = cproc s" "pst t = pst s" "plk t = (plk s)(p := held_by (hart s) (plk s p))"
    "hart t = hart s" "curp t = curp s" "p_chan (procs t q) = p_chan (procs s q)"
  using assms by (auto simp: p_acquire_def acquire_def Let_def updp_def set_cpu_def sview held_by_def mycpu_def fun_eq_iff split: if_splits)

lemma release_view:
  assumes "release h c lk = Ok (d, lk')"
  shows "holding h lk" "lk' = lk\<lparr>lcpu := None, locked := 0\<rparr>" "cpu_proc d = cpu_proc c"
  using assms pop_off_proc by (auto simp: release_def Let_def obind_Ok_iff split: if_splits)

lemma p_release_view:
  assumes "p_release p s = Ok t"
  shows "holding (hart s) (plk s p)" "cproc t = cproc s" "pst t = pst s" "plk t = (plk s)(p := (plk s p)\<lparr>lcpu := None, locked := 0\<rparr>)"
    "hart t = hart s" "curp t = curp s" "p_chan (procs t q) = p_chan (procs s q)"
proof -
  obtain c lk where r: "release (hart s) (mycpu s) (p_lock (procs s p)) = Ok (c, lk)" and t: "t = updp p (\<lambda>x. x\<lparr>p_lock := lk\<rparr>) (set_cpu c s)"
    using assms by (auto simp: p_release_def obind_Ok_iff)
  note v = release_view [OF r]
  show "holding (hart s) (plk s p)" using v by (simp add: sview)
  show "cproc t = cproc s" "pst t = pst s" "plk t = (plk s)(p := (plk s p)\<lparr>lcpu := None, locked := 0\<rparr>)" "hart t = hart s" "curp t = curp s"
    "p_chan (procs t q) = p_chan (procs s q)"
    using v unfolding t by (auto simp: updp_def set_cpu_def sview mycpu_def fun_eq_iff)
qed

lemma sched_view:
  assumes "sched s = Ok t"
  shows "holding (hart s) (plk s (curp s))" "pst s (curp s) \<noteq> RUNNING" "cproc t = cproc s" "pst t = pst s" "plk t = plk s"
  using assms by (auto simp: sched_def Let_def swtch_def updp_def sview fun_eq_iff split: if_splits)

lemma updp_state_view:
  assumes "\<And>x. p_state (f x) = v" "\<And>x. p_lock (f x) = p_lock x"
  shows "cproc (updp p f s) = cproc s" "pst (updp p f s) = (pst s)(p := v)" "plk (updp p f s) = plk s" "hart (updp p f s) = hart s" "curp (updp p f s) = curp s"
  using assms by (auto simp: updp_def sview fun_eq_iff)

section \<open>Steps\<close>

definition on :: "nat \<Rightarrow> kcontext \<Rightarrow> 'z pstate_scheme \<Rightarrow> 'z pstate_scheme" where
  "on h r s = s\<lparr>hart := h, regs := r\<rparr>"

lemma on_view [simp]:
  "cproc (on h r s) = cproc s" "pst (on h r s) = pst s" "plk (on h r s) = plk s" "hart (on h r s) = h"
  "cproc (enter p s) = cproc s" "pst (enter p s) = pst s" "plk (enter p s) = plk s" "hart (enter p s) = hart s" "curp (enter p s) = p"
  by (simp_all add: on_def enter_def sview fun_eq_iff)

text \<open>A section under the lock of process \<open>i\<close>.\<close>

definition locked_section :: "nat \<Rightarrow> ('z pstate_scheme \<Rightarrow> 'z pstate_scheme) \<Rightarrow> 'z pstate_scheme \<Rightarrow> 'z pstate_scheme outcome" where
  "locked_section i f s = obind (p_acquire i s) (\<lambda>s. p_release i (f s))"

definition kill_one :: "nat \<Rightarrow> 'z pstate_scheme \<Rightarrow> 'z pstate_scheme" where
  "kill_one i s = updp i (\<lambda>x. x\<lparr>p_killed := True, p_state := (if p_state x = SLEEPING then RUNNABLE else p_state x)\<rparr>) s"

definition exit_last :: "u32 \<Rightarrow> spinlock \<Rightarrow> 'z pstate_scheme \<Rightarrow> 'z pstate_scheme outcome" where
  "exit_last status wl s =
     obind (p_acquire (curp s) s) (\<lambda>s.
     let s = updp (curp s) (\<lambda>x. x\<lparr>p_xstate := status, p_state := ZOMBIE\<rparr>) s in
     obind (release (hart s) (mycpu s) wl) (\<lambda>(c, wl). sched (set_cpu c s)))"

inductive sched_step :: "'z pstate_scheme \<Rightarrow> 'z pstate_scheme \<Rightarrow> bool" where
  pick: "cproc s h = None \<Longrightarrow> scheduler_try p (on h r s) = Ok (b, t) \<Longrightarrow> sched_step s t"
| gave_up: "cproc s h = Some p \<Longrightarrow> pst s p \<noteq> RUNNING \<Longrightarrow> scheduler_back p (on h r s) = Ok t \<Longrightarrow> sched_step s t"
| resume: "cproc s h = Some p \<Longrightarrow> pst s p = RUNNING \<Longrightarrow> yield_back ena (enter p (on h r s)) = Ok t \<Longrightarrow> sched_step s t"
| resume_sleep: "cproc s h = Some p \<Longrightarrow> pst s p = RUNNING \<Longrightarrow> sleep_back ena lk (enter p (on h r s)) = Ok (lk', t) \<Longrightarrow> sched_step s t"
| yield: "cproc s h = Some p \<Longrightarrow> pst s p = RUNNING \<Longrightarrow> yield (enter p (on h r s)) = Ok t \<Longrightarrow> sched_step s t"
| sleep: "cproc s h = Some p \<Longrightarrow> pst s p = RUNNING \<Longrightarrow> sleep ch lk (enter p (on h r s)) = Ok (lk', t) \<Longrightarrow> sched_step s t"
| exit: "cproc s h = Some p \<Longrightarrow> pst s p = RUNNING \<Longrightarrow> exit_last status wl (enter p (on h r s)) = Ok t \<Longrightarrow> sched_step s t"
| wake: "cproc s h \<noteq> Some i \<Longrightarrow> locked_section i (wakeup_one i ch) (on h r s) = Ok t \<Longrightarrow> sched_step s t"
| kill: "locked_section i (kill_one i) (on h r s) = Ok t \<Longrightarrow> sched_step s t"
| alloc: "pst s i = UNUSED \<Longrightarrow> locked_section i (updp i (\<lambda>x. x\<lparr>p_state := USED\<rparr>)) (on h r s) = Ok t \<Longrightarrow> sched_step s t"
| start: "pst s i = USED \<Longrightarrow> locked_section i (updp i (\<lambda>x. x\<lparr>p_state := RUNNABLE\<rparr>)) (on h r s) = Ok t \<Longrightarrow> sched_step s t"
| reap: "pst s i = ZOMBIE \<Longrightarrow> locked_section i (updp i (\<lambda>x. x\<lparr>p_state := UNUSED\<rparr>)) (on h r s) = Ok t \<Longrightarrow> sched_step s t"

definition sched_init :: "'z pstate_scheme \<Rightarrow> bool" where
  "sched_init s \<longleftrightarrow> (\<forall>h. cproc s h = None) \<and> (\<forall>p. pst s p \<noteq> RUNNING)"

definition sched_inv :: "'z pstate_scheme \<Rightarrow> bool" where
  "sched_inv s \<longleftrightarrow> (\<forall>h p. cproc s h = Some p \<longrightarrow> pst s p = RUNNING \<or> holding h (plk s p))
     \<and> (\<forall>h h' p. cproc s h = Some p \<longrightarrow> cproc s h' = Some p \<longrightarrow> h = h')
     \<and> (\<forall>p. pst s p = RUNNING \<longrightarrow> (\<exists>h. cproc s h = Some p))"

section \<open>The invariant is kept\<close>

lemma not_holding_free: "locked lk = 0 \<Longrightarrow> \<not> holding h lk"
  by (simp add: holding_def)

text \<open>A free lock means that a process some CPU names is running.\<close>

lemma sched_inv_free:
  assumes "sched_inv s" "locked (plk s p) = 0" "cproc s h = Some p"
  shows "pst s p = RUNNING"
  using assms not_holding_free unfolding sched_inv_def by blast

lemma sched_inv_section:
  assumes inv: "sched_inv s" and run: "locked_section i f (on h r s) = Ok t"
    and f: "\<And>u. pst u = pst s \<Longrightarrow> cproc u = cproc s \<Longrightarrow> cproc (f u) = cproc u \<and> plk (f u) = plk u \<and> hart (f u) = hart u
      \<and> (\<exists>v. v \<noteq> RUNNING \<and> (pst (f u) = pst u \<or> pst s i \<noteq> RUNNING \<and> pst (f u) = (pst u)(i := v)))"
  shows "sched_inv t"
proof -
  obtain u where u: "p_acquire i (on h r s) = Ok u" and t: "p_release i (f u) = Ok t" using run by (auto simp: locked_section_def obind_Ok_iff)
  note a = p_acquire_view [OF u, simplified] and b = p_release_view [OF t]
  have free: "\<not> holding h' (plk s i)" for h' using not_holding_free a(1) by blast
  obtain v where v: "cproc (f u) = cproc s" "plk (f u) = plk u" "v \<noteq> RUNNING" "pst (f u) = pst s \<or> pst s i \<noteq> RUNNING \<and> pst (f u) = (pst s)(i := v)"
    using f [of u] a by auto
  have view: "cproc t = cproc s" "pst t = pst (f u)" "\<And>q. q \<noteq> i \<Longrightarrow> plk t q = plk s q" using a b v by simp_all
  have "pst s p = RUNNING \<or> holding h' (plk t p)" if "cproc s h' = Some p" for h' p
    using inv that view(3) [of p] sched_inv_free [OF inv a(1)] unfolding sched_inv_def by metis
  moreover have "pst t p = RUNNING \<longleftrightarrow> pst s p = RUNNING" for p using v(3,4) view(2) by (auto split: if_splits)
  ultimately show ?thesis using inv view(1) unfolding sched_inv_def by metis
qed

text \<open>A running process that gives up its CPU.\<close>

lemma sched_inv_leave:
  assumes inv: "sched_inv s" and p: "cproc s h = Some p" "cproc t = cproc s" "pst t = (pst s)(p := v)" "v \<noteq> RUNNING"
    "plk t = (plk s)(p := held_by h (plk s p))"
  shows "sched_inv t"
  using inv p unfolding sched_inv_def by (auto split: if_splits)

lemma sched_inv_pick:
  assumes inv: "sched_inv s" and c: "cproc s h = None" and run: "scheduler_try p (on h r s) = Ok (b, t)"
  shows "sched_inv t"
proof -
  obtain u where u: "p_acquire p (on h r s) = Ok u" using run by (auto simp: scheduler_try_def obind_Ok_iff)
  note a = p_acquire_view [OF u, simplified]
  have state: "p_state (procs u p) = pst s p" using a(3) by (simp add: pst_def fun_eq_iff)
  show ?thesis
  proof (cases "pst s p = RUNNABLE")
    case True
    then have t: "t = enter p ((set_cpu ((mycpu u)\<lparr>cpu_proc := Some p, cpu_context := regs u\<rparr>) (updp p (\<lambda>x. x\<lparr>p_state := RUNNING\<rparr>) u))
        \<lparr>regs := p_context (procs u p)\<rparr>)"
      using run u state by (auto simp: scheduler_try_def Let_def swtch_def updp_def mycpu_def set_cpu_def)
    have view: "cproc t = (cproc s)(h := Some p)" "pst t = (pst s)(p := RUNNING)" "plk t = plk u"
      using a unfolding t by (auto simp: sview fun_eq_iff set_cpu_def updp_def enter_def)
    have none: "cproc s h' \<noteq> Some p" for h' using sched_inv_free [OF inv a(1)] True by auto
    have "\<exists>h'. cproc t h' = Some q" if rq: "pst t q = RUNNING" for q
    proof (cases "q = p")
      case False
      then obtain h' where "cproc s h' = Some q" using inv rq view(2) unfolding sched_inv_def by auto
      then show ?thesis using c view(1) by (intro exI [of _ h']) auto
    qed (use view(1) in auto)
    then show ?thesis using inv none unfolding sched_inv_def view a(4) by (auto split: if_splits)
  next
    case False
    then have rel: "p_release p u = Ok t" using run u state by (auto simp: scheduler_try_def obind_Ok_iff)
    then have sec: "locked_section p (\<lambda>u. u) (on h r s) = Ok t" using u by (simp add: locked_section_def)
    show ?thesis by (rule sched_inv_section [OF inv sec]) (auto intro: exI [of _ UNUSED])
  qed
qed

lemma sched_inv_release:
  assumes inv: "sched_inv s" and c: "cproc s h = Some p" "pst s p = RUNNING" and t: "cproc t = cproc s" "pst t = pst s" "\<And>q. q \<noteq> p \<Longrightarrow> plk t q = plk s q"
  shows "sched_inv t"
  using inv c t unfolding sched_inv_def by metis

lemma set_cpu_view:
  assumes "cpu_proc c = cpu_proc (mycpu s)"
  shows "cproc (set_cpu c s) = cproc s" "pst (set_cpu c s) = pst s" "plk (set_cpu c s) = plk s" "hart (set_cpu c s) = hart s" "curp (set_cpu c s) = curp s"
  using assms by (auto simp: set_cpu_def sview mycpu_def fun_eq_iff)

lemma sched_back_view:
  "cproc (sched_back ena s) = cproc s" "pst (sched_back ena s) = pst s" "plk (sched_back ena s) = plk s" "hart (sched_back ena s) = hart s" "curp (sched_back ena s) = curp s"
  unfolding sched_back_def by (rule set_cpu_view; simp)+

lemma sched_inv_back:
  assumes inv: "sched_inv s" and c: "cproc s h = Some p" "pst s p \<noteq> RUNNING" and run: "scheduler_back p (on h r s) = Ok t"
  shows "sched_inv t"
proof -
  let ?u = "set_cpu ((mycpu (on h r s))\<lparr>cpu_proc := None\<rparr>) (on h r s)"
  have u: "cproc ?u = (cproc s)(h := None)" "pst ?u = pst s" "plk ?u = plk s" by (auto simp: set_cpu_def on_def sview fun_eq_iff)
  note v = p_release_view [OF run [unfolded scheduler_back_def], unfolded u]
  have cp: "\<And>h' q. cproc t h' = Some q \<Longrightarrow> cproc s h' = Some q \<and> q \<noteq> p"
    using v(2) inv c(1) unfolding sched_inv_def by (metis fun_upd_apply option.distinct(1))
  have ex: "\<exists>h'. cproc t h' = Some q" if rq: "pst s q = RUNNING" for q
  proof -
    obtain h' where "cproc s h' = Some q" using inv rq unfolding sched_inv_def by blast
    moreover have "h' \<noteq> h" using calculation c rq by auto
    ultimately show ?thesis using v(2) by auto
  qed
  have "pst t q = RUNNING \<or> holding h' (plk t q)" if "cproc t h' = Some q" for h' q
    using cp [OF that] inv v(3,4) unfolding sched_inv_def by auto
  moreover have "h1 = h2" if "cproc t h1 = Some q" "cproc t h2 = Some q" for h1 h2 q
    using cp [OF that(1)] cp [OF that(2)] inv unfolding sched_inv_def by blast
  ultimately show ?thesis using ex v(3) unfolding sched_inv_def by simp
qed

lemma sched_inv_sleep_back:
  assumes inv: "sched_inv s" and c: "cproc s h = Some p" "pst s p = RUNNING" and run: "sleep_back ena lk (enter p (on h r s)) = Ok (lk', t)"
  shows "sched_inv t"
proof -
  define u where "u = updp p (\<lambda>x. x\<lparr>p_chan := Ch_none\<rparr>) (sched_back ena (enter p (on h r s)))"
  have vu: "cproc u = cproc s" "pst u = pst s" "plk u = plk s" "curp u = p" "hart u = h"
    using sched_back_view [of ena "enter p (on h r s)"] by (auto simp: u_def updp_def sview fun_eq_iff)
  obtain w c' where w: "p_release p u = Ok w" "acquire (hart w) (mycpu w) lk = Ok (c', lk')" "t = set_cpu c' w"
    using run vu(4) sched_back_view(5) [of ena "enter p (on h r s)"] by (auto simp: sleep_back_def Let_def u_def [symmetric] obind_Ok_iff)
  have "cpu_proc c' = cpu_proc (mycpu w)" using w(2) by (auto simp: acquire_def Let_def split: if_splits)
  note vt = set_cpu_view [OF this, folded w(3)] and vw = p_release_view [OF w(1)]
  show ?thesis using vt vw vu by (intro sched_inv_release [OF inv c]) simp_all
qed

text \<open>The four ways a process leaves the CPU have one shape.\<close>

lemma sched_inv_sched:
  assumes inv: "sched_inv s" and c: "cproc s h = Some p" and acq: "p_acquire p (enter p (on h r s)) = Ok u"
    and w: "cproc w = cproc u" "pst w = (pst u)(p := v)" "plk w = plk u" "curp w = p" "hart w = h" and run: "sched w = Ok t"
  shows "sched_inv t"
proof -
  note a = p_acquire_view [OF acq, simplified] and b = sched_view [OF run]
  have "v \<noteq> RUNNING" using b(2) w by simp
  then show ?thesis using a b w by (intro sched_inv_leave [OF inv c, of t v]) simp_all
qed

lemma sched_inv_step:
  assumes "sched_step s t" "sched_inv s"
  shows "sched_inv t"
  using assms(1)
proof cases
  case (pick h p r b)
  then show ?thesis using sched_inv_pick [OF assms(2)] by blast
next
  case (gave_up h p r)
  then show ?thesis using sched_inv_back [OF assms(2)] by blast
next
  case (resume h p ena r)
  have "p_release p (sched_back ena (enter p (on h r s))) = Ok t"
    using resume(3) sched_back_view(5) [of ena "enter p (on h r s)"] by (simp add: yield_back_def)
  from p_release_view [OF this] sched_back_view [of ena "enter p (on h r s)"] show ?thesis
    by (intro sched_inv_release [OF assms(2) resume(1,2)]) simp_all
next
  case (resume_sleep h p ena lk r lk')
  then show ?thesis using sched_inv_sleep_back [OF assms(2)] by blast
next
  case (yield h p r)
  then obtain u where u: "p_acquire p (enter p (on h r s)) = Ok u" "sched (updp (curp u) (\<lambda>x. x\<lparr>p_state := RUNNABLE\<rparr>) u) = Ok t"
    by (auto simp: yield_def obind_Ok_iff)
  show ?thesis
    using p_acquire_view [OF u(1)] u by (intro sched_inv_sched [OF assms(2) yield(1) u(1) _ _ _ _ _ u(2), of RUNNABLE]) (simp_all add: updp_state_view)
next
  case (sleep h p ch lk r lk')
  then obtain u c l where u: "p_acquire p (enter p (on h r s)) = Ok u" "release (hart u) (mycpu u) lk = Ok (c, l)"
      "sched (updp (curp u) (\<lambda>x. x\<lparr>p_chan := ch, p_state := SLEEPING\<rparr>) (set_cpu c u)) = Ok t"
    by (auto simp: sleep_def obind_Ok_iff Let_def set_cpu_def)
  note v = set_cpu_view [OF release_view(3) [OF u(2)]]
  show ?thesis
    using p_acquire_view [OF u(1)] v by (intro sched_inv_sched [OF assms(2) sleep(1) u(1) _ _ _ _ _ u(3), of SLEEPING]) (simp_all add: updp_state_view)
next
  case (exit h p status wl r)
  then obtain u c l where u: "p_acquire p (enter p (on h r s)) = Ok u"
      "release (hart u) (mycpu (updp p (\<lambda>x. x\<lparr>p_xstate := status, p_state := ZOMBIE\<rparr>) u)) wl = Ok (c, l)"
      "sched (set_cpu c (updp p (\<lambda>x. x\<lparr>p_xstate := status, p_state := ZOMBIE\<rparr>) u)) = Ok t"
    using p_acquire_view(6) by (fastforce simp: exit_last_def obind_Ok_iff Let_def updp_def)
  note v = set_cpu_view [OF release_view(3) [OF u(2)]]
  show ?thesis
    using p_acquire_view [OF u(1)] v by (intro sched_inv_sched [OF assms(2) exit(1) u(1) _ _ _ _ _ u(3), of ZOMBIE]) (simp_all add: updp_state_view)
next
  case (wake h i ch r)
  have "cproc (wakeup_one i ch u) = cproc u \<and> plk (wakeup_one i ch u) = plk u \<and> hart (wakeup_one i ch u) = hart u
      \<and> (\<exists>v. v \<noteq> RUNNING \<and> (pst (wakeup_one i ch u) = pst u \<or> pst s i \<noteq> RUNNING \<and> pst (wakeup_one i ch u) = (pst u)(i := v)))" if "pst u = pst s" for u
    using that by (auto simp: wakeup_one_def updp_def sview fun_eq_iff)
  then show ?thesis using sched_inv_section [OF assms(2) wake(2)] by blast
next
  case (kill i h r)
  have "cproc (kill_one i u) = cproc u \<and> plk (kill_one i u) = plk u \<and> hart (kill_one i u) = hart u
      \<and> (\<exists>v. v \<noteq> RUNNING \<and> (pst (kill_one i u) = pst u \<or> pst s i \<noteq> RUNNING \<and> pst (kill_one i u) = (pst u)(i := v)))" if "pst u = pst s" for u
    using that by (auto simp: kill_one_def updp_def sview fun_eq_iff)
  then show ?thesis using sched_inv_section [OF assms(2) kill] by blast
next
  case (alloc i h r)
  then show ?thesis by (intro sched_inv_section [OF assms(2) alloc(2)]) (auto simp: updp_state_view)
next
  case (start i h r)
  then show ?thesis by (intro sched_inv_section [OF assms(2) start(2)]) (auto simp: updp_state_view)
next
  case (reap i h r)
  then show ?thesis by (intro sched_inv_section [OF assms(2) reap(2)]) (auto simp: updp_state_view)
qed

section \<open>Properties\<close>

interpretation sched_sys: invariant_system sched_init sched_step sched_inv
proof unfold_locales
  fix s :: "'a pstate_scheme"
  show "sched_init s \<Longrightarrow> sched_inv s" by (simp add: sched_init_def sched_inv_def)
qed (rule sched_inv_step)

text \<open>
  C7. No process runs on two CPUs: in every state the CPUs can reach by scheduling, yielding, sleeping, waking, killing, creating,
  ending and reaping processes, at most one CPU has a given process as its current one, a running process has such a CPU, and a
  runnable process whose lock is free has none, so that its kernel stack can be switched to.
\<close>

theorem sched_exclusive:
  assumes "sched_init s" "sched_step\<^sup>*\<^sup>* s t"
  shows "(cpu_proc (cpus t h) = Some p \<and> cpu_proc (cpus t h') = Some p \<longrightarrow> h = h')
    \<and> (p_state (procs t p) = RUNNING \<longrightarrow> (\<exists>h. cpu_proc (cpus t h) = Some p))
    \<and> (p_state (procs t p) = RUNNABLE \<and> locked (p_lock (procs t p)) = 0 \<longrightarrow> cpu_proc (cpus t h) \<noteq> Some p)"
proof -
  have inv: "sched_inv t" using sched_sys.reachable_inv [OF assms] .
  have "p_state (procs t p) = RUNNABLE \<and> locked (p_lock (procs t p)) = 0 \<longrightarrow> cpu_proc (cpus t h) \<noteq> Some p"
    using sched_inv_free [OF inv, of p h] by (auto simp: sview)
  then show ?thesis using inv unfolding sched_inv_def sview by blast
qed

text \<open>A boot with one runnable process, and the step by which CPU 1 takes it.\<close>

definition sched_ex :: pstate where
  "sched_ex = proc_boot\<lparr>procs := (\<lambda>_. zero_proc)(0 := zero_proc\<lparr>p_state := RUNNABLE\<rparr>)\<rparr>"

lemma sched_ex_pick:
  "sched_init sched_ex" "\<exists>t. sched_step sched_ex t \<and> cpu_proc (cpus t 1) = Some 0"
proof -
  show "sched_init sched_ex" by (simp add: sched_init_def sched_ex_def sview boot_simps)
  obtain t where t: "scheduler_try 0 (on 1 zero_context sched_ex) = Ok (True, t)" "cpu_proc (cpus t 1) = Some 0"
    by (simp add: scheduler_try_def p_acquire_def acquire_def on_def sched_ex_def boot_simps holding_def updp_def set_cpu_def mycpu_def enter_def swtch_def)
  moreover have "cproc sched_ex 1 = None" by (simp add: sview sched_ex_def boot_simps)
  ultimately show "\<exists>t. sched_step sched_ex t \<and> cpu_proc (cpus t 1) = Some 0" using sched_step.pick by blast
qed

theorem sched_exclusive_witness:
  "\<exists>t. sched_init sched_ex \<and> sched_step\<^sup>*\<^sup>* sched_ex t \<and> cpu_proc (cpus t 1) = Some 0 \<and> cpu_proc (cpus t 2) \<noteq> Some 0"
proof -
  obtain t where t: "sched_step sched_ex t" "cpu_proc (cpus t 1) = Some 0" using sched_ex_pick(2) by blast
  then have run: "sched_step\<^sup>*\<^sup>* sched_ex t" by blast
  then show ?thesis using sched_exclusive [OF sched_ex_pick(1) run, of 1 0 2] sched_ex_pick(1) t(2) by auto
qed


definition sleep_ex :: pstate where
  "sleep_ex = proc_boot\<lparr>procs := (\<lambda>_. zero_proc)(0 := zero_proc\<lparr>p_state := RUNNING\<rparr>),
     cpus := (\<lambda>_. zero_cpu)(0 := zero_cpu\<lparr>cpu_proc := Some 0, noff := 1\<rparr>)\<rparr>"


end
