(* ===== verification/Alloc.thy ===== *)
theory Alloc
  imports Proc Ucopy
begin

text \<open>
  Creating a process: \<^verbatim>\<open>uvmcreate\<close>, \<^verbatim>\<open>proc_pagetable\<close> and \<^verbatim>\<open>allocproc\<close> of \<^verbatim>\<open>kernel/proc.c\<close> over the page-table
  invariant, and what \<^verbatim>\<open>kill\<close> does to a slot of the process table that is not in use.
\<close>

section \<open>A page table with no mappings\<close>

lemma uvmcreate_ok:
  assumes "free_pages s (r # ps)"
  shows "\<exists>s1. uvmcreate s = (r, s1) \<and> vm_inv s1 r ps \<and> (\<forall>va. pte_of (pmem s1) r va = 0) \<and> kmem.more s1 = kmem.more s"
proof -
  let ?m = "memset (memset (pmem s) r 5 4096) r 0 4096"
  define s1 where "s1 = s\<lparr>freelist := load64 (pmem s) r, pmem := ?m\<rparr>"
  note f = free_pagesD [OF assms] and k = kalloc_Cons [OF assms]
  have al: "page_aligned r" using assms by (simp add: free_pages_def page_ok_def)
  have rd0: "i < 512 \<Longrightarrow> rd ?m r i = 0" for i using rd_memset0 [OF al al] by simp
  then have next0: "next_table ?m r i = None" if "i < 512" for i using that by (simp add: next_table_def)
  have tab0: "tab ?m r p = (if p = [] then Some r else None)" if "p \<in> paths" for p
    using that next0 by (cases p) (auto simp: paths_def)
  have tbl: "is_table (pmem s1) r t \<longleftrightarrow> t = r" for t
    using tab0 by (auto simp: is_table_def s1_def paths_def intro!: bexI [of _ "[]"] split: if_splits)
  have "free_pages s1 ps"
    using free_pages_agree_off [OF k(2) agree_off_memset [OF al, of _ 0] al] assms by (simp add: s1_def free_pages_def)
  moreover have "pt_tree (pmem s1) r" using al tab0 by (auto simp: pt_tree_def s1_def split: if_splits)
  moreover have "page_ok s1 r" "r \<notin> set ps" using assms by (auto simp: free_pages_def page_ok_def s1_def)
  ultimately have "vm_inv s1 r ps" by (simp add: vm_inv_def tbl)
  moreover have "uvmcreate s = (r, s1)" using k(1) f by (simp add: uvmcreate_def s1_def)
  moreover have "pte_of (pmem s1) r va = 0" for va
    using tab0 [OF vpath_path, of va] rd0 [OF pxi_less, of 0 va] by (auto simp: pte_of_def s1_def split: if_splits)
  ultimately show ?thesis by (simp add: s1_def)
qed

lemma more_procs:
  assumes "kmem.more t = kmem.more (s :: 'z pstate_scheme)"
  shows "procs t = procs s" "sym_trampoline t = sym_trampoline s" "sym_forkret t = sym_forkret s" "nextpid t = nextpid s"
  using assms by (cases s, cases t; simp)+

lemma proc_pagetable_ok:
  assumes "free_pages s (r # ps)" "4 < length ps"
  shows "\<exists>s' ps'. proc_pagetable p s = Ok (r, s') \<and> vm_inv s' r ps' \<and> suffix ps' ps \<and> kmem.more s' = kmem.more s
    \<and> (\<forall>va. va < MAXVA \<longrightarrow> pte_of (pmem s') r va =
          (if pg va = pg TRAMPOLINE then PA2PTE (sym_trampoline s) OR (PTE_R OR PTE_X) OR PTE_V
           else if pg va = pg TRAPFRAME then PA2PTE (p_trapframe (procs s p)) OR (PTE_R OR PTE_W) OR PTE_V else 0))"
proof -
  obtain s1 where s1: "uvmcreate s = (r, s1)" "vm_inv s1 r ps" "\<forall>va. pte_of (pmem s1) r va = 0" "kmem.more s1 = kmem.more s"
    using uvmcreate_ok [OF assms(1)] by blast
  have r0: "r \<noteq> 0" using free_pagesD [OF assms(1)] by simp
  have al: "page_aligned TRAMPOLINE" "page_aligned TRAPFRAME" "TRAMPOLINE < MAXVA" "TRAPFRAME < MAXVA" "pg TRAMPOLINE \<noteq> pg TRAPFRAME"
    by (simp_all add: konst page_aligned_def pg_def)
  obtain rc s2 ps2 where 2: "mappages r TRAMPOLINE PGSIZE (sym_trampoline s1) (PTE_R OR PTE_X) s1 = Ok (rc, s2)" "vm_ext r s1 ps s2 ps2"
      "rc = 0 \<or> rc = -1" "length ps \<le> length ps2 + 2" "rc \<noteq> 0 \<Longrightarrow> same_map r s1 s2 \<and> ps2 = []"
      "rc = 0 \<Longrightarrow> \<forall>va. va < MAXVA \<longrightarrow> pte_of (pmem s2) r va = (if pg va = pg TRAMPOLINE then PA2PTE (sym_trampoline s1) OR (PTE_R OR PTE_X) OR PTE_V else pte_of (pmem s1) r va)"
    by (rule mappages_one_pages [OF s1(2) al(1,3), of "sym_trampoline s1" "PTE_R OR PTE_X"]) (use s1(3) in simp, rule that)
  have rc: "rc = 0" using 2(4,5) assms(2) by fastforce
  have un: "pte_of (pmem s2) r TRAPFRAME AND PTE_V = 0" using 2(6) [OF rc] s1(3) al by simp
  obtain rc' s3 ps3 where 3: "mappages r TRAPFRAME PGSIZE (p_trapframe (procs s2 p)) (PTE_R OR PTE_W) s2 = Ok (rc', s3)" "vm_ext r s2 ps2 s3 ps3"
      "rc' = 0 \<or> rc' = -1" "length ps2 \<le> length ps3 + 2" "rc' \<noteq> 0 \<Longrightarrow> same_map r s2 s3 \<and> ps3 = []"
      "rc' = 0 \<Longrightarrow> \<forall>va. va < MAXVA \<longrightarrow> pte_of (pmem s3) r va = (if pg va = pg TRAPFRAME then PA2PTE (p_trapframe (procs s2 p)) OR (PTE_R OR PTE_W) OR PTE_V else pte_of (pmem s2) r va)"
    by (rule mappages_one_pages [OF vm_extD [OF 2(2)] al(2,4) un, of "p_trapframe (procs s2 p)" "PTE_R OR PTE_W"]) (rule that)
  have rc': "rc' = 0" using 2(4) 3(4,5) assms(2) by fastforce
  have m: "kmem.more s2 = kmem.more s" "kmem.more s3 = kmem.more s" using s1(4) 2(2) 3(2) by (simp_all add: vm_ext_def)
  have run: "proc_pagetable p s = Ok (r, s3)"
    using s1(1) r0 2(1) 3(1) rc rc' by (simp add: proc_pagetable_def)
  have "suffix ps3 ps" using 2(2) 3(2) by (auto simp: vm_ext_def intro: suffix_order.order_trans)
  moreover have "pte_of (pmem s3) r va =
          (if pg va = pg TRAMPOLINE then PA2PTE (sym_trampoline s) OR (PTE_R OR PTE_X) OR PTE_V
           else if pg va = pg TRAPFRAME then PA2PTE (p_trapframe (procs s p)) OR (PTE_R OR PTE_W) OR PTE_V else 0)" if "va < MAXVA" for va
    using 2(6) [OF rc] 3(6) [OF rc'] s1(3) that al(5) more_procs(1) [OF m(1)] more_procs(2) [OF s1(4)] by simp
  ultimately show ?thesis using run vm_extD [OF 3(2)] m(2) by blast
qed

section \<open>allocproc\<close>

lemma find_first:
  assumes "i < n" "P i" "\<forall>j<i. \<not> P j"
  shows "find P [0..<n] = Some i"
  unfolding find_Some_iff using assms by (intro exI [of _ i]) auto

lemma updp_sym: "sym_forkret (updp i f s) = sym_forkret s"
  by (simp add: updp_def)

definition new_proc :: "nat \<Rightarrow> addr \<Rightarrow> addr \<Rightarrow> 'z pstate_scheme \<Rightarrow> proc" where
  "new_proc i tf pt s = (procs s i)\<lparr>p_pid := nextpid s, p_state := USED, p_trapframe := tf, p_pagetable := pt,
     p_context := zero_context\<lparr>ctx_ra := sym_forkret s, ctx_sp := p_kstack (procs s i) + PGSIZE\<rparr>\<rparr>"

lemma allocproc_ok:
  assumes i: "i < NPROC" "p_state (procs s i) = UNUSED" "\<forall>j<i. p_state (procs s j) \<noteq> UNUSED"
    and free: "free_pages s (tf # r # ps)" "4 < length ps"
  shows "\<exists>s' ps'. allocproc s = Ok (Some i, s') \<and> procs s' = (procs s)(i := new_proc i tf r s) \<and> nextpid s' = nextpid s + 1
    \<and> vm_inv s' r ps' \<and> suffix ps' ps
    \<and> (\<forall>va. va < MAXVA \<longrightarrow> pte_of (pmem s') r va =
          (if pg va = pg TRAMPOLINE then PA2PTE (sym_trampoline s) OR (PTE_R OR PTE_X) OR PTE_V
           else if pg va = pg TRAPFRAME then PA2PTE tf OR (PTE_R OR PTE_W) OR PTE_V else 0))"
proof -
  define s1 where "s1 = updp i (\<lambda>x. x\<lparr>p_pid := nextpid s, p_state := USED\<rparr>) (s\<lparr>nextpid := nextpid s + 1\<rparr>)"
  have k1: "pmem s1 = pmem s" "freelist s1 = freelist s" "kend s1 = kend s" by (simp_all add: s1_def updp_def)
  have f1: "free_pages s1 (tf # r # ps)" using free(1) k1 by (simp add: free_pages_def page_ok_def)
  define s2 where "s2 = updp i (\<lambda>x. x\<lparr>p_trapframe := tf\<rparr>) (s1\<lparr>freelist := load64 (pmem s1) tf, pmem := memset (pmem s1) tf 5 4096\<rparr>)"
  have f2: "free_pages s2 (r # ps)" using kalloc_Cons(2) [OF f1] by (simp add: s2_def updp_def free_pages_def page_ok_def)
  obtain s3 ps' where 3: "proc_pagetable i s2 = Ok (r, s3)" "vm_inv s3 r ps'" "suffix ps' ps" "kmem.more s3 = kmem.more s2"
      "\<forall>va. va < MAXVA \<longrightarrow> pte_of (pmem s3) r va =
          (if pg va = pg TRAMPOLINE then PA2PTE (sym_trampoline s2) OR (PTE_R OR PTE_X) OR PTE_V
           else if pg va = pg TRAPFRAME then PA2PTE (p_trapframe (procs s2 i)) OR (PTE_R OR PTE_W) OR PTE_V else 0)"
    using proc_pagetable_ok [OF f2 free(2), of i] by blast
  note m3 = more_procs [OF 3(4)]
  define s4 where "s4 = updp i (\<lambda>x. x\<lparr>p_context := zero_context\<lparr>ctx_ra := sym_forkret s3, ctx_sp := p_kstack x + PGSIZE\<rparr>\<rparr>) (updp i (\<lambda>x. x\<lparr>p_pagetable := r\<rparr>) s3)"
  have z: "tf \<noteq> 0" "r \<noteq> 0" using free_pagesD [OF f1] free_pagesD [OF f2] by auto
  have run: "allocproc s = Ok (Some i, s4)"
    using find_first [of i NPROC "\<lambda>i. p_state (procs s i) = UNUSED"] i kalloc_Cons(1) [OF f1] z 3(1)
    by (simp add: allocproc_def allocpid_def s1_def [symmetric] s2_def [symmetric] s4_def updp_sym Let_def)
  have p2: "procs s2 i = (procs s i)\<lparr>p_pid := nextpid s, p_state := USED, p_trapframe := tf\<rparr>" "sym_trampoline s2 = sym_trampoline s"
    "sym_forkret s2 = sym_forkret s" "nextpid s2 = nextpid s + 1" "\<And>j. j \<noteq> i \<Longrightarrow> procs s2 j = procs s j"
    by (simp_all add: s2_def s1_def updp_def)
  have "procs s4 = (procs s)(i := new_proc i tf r s)"
    using p2 m3 by (auto simp: s4_def updp_def new_proc_def fun_eq_iff)
  moreover have "vm_inv s4 r ps'" "pmem s4 = pmem s3" "nextpid s4 = nextpid s + 1"
    using 3(2) m3 p2 by (simp_all add: s4_def updp_def vm_inv_def free_pages_def page_ok_def)
  ultimately show ?thesis using run 3(3,5) p2 by (intro exI [of _ s4] exI [of _ ps']) simp
qed

text \<open>
  C30. With enough memory \<^verbatim>\<open>allocproc\<close> succeeds: it takes the first unused slot, gives it the next process id, a trap frame and a page
  table that maps the trampoline and the trap frame for the kernel and nothing for the user, and a context that starts in
  \<^verbatim>\<open>forkret\<close> on the process's kernel stack; no other process changes.
\<close>

theorem allocproc_correct:
  assumes "i < NPROC" "p_state (procs s i) = UNUSED" "\<forall>j<i. p_state (procs s j) \<noteq> UNUSED"
    and "free_pages s (tf # pt # ps)" "4 < length ps"
  shows "\<exists>s' ps'. allocproc s = Ok (Some i, s') \<and> procs s' = (procs s)(i := new_proc i tf pt s) \<and> nextpid s' = nextpid s + 1
    \<and> vm_inv s' pt ps' \<and> suffix ps' ps
    \<and> (\<forall>va. va < MAXVA \<longrightarrow> pte_of (pmem s') pt va =
          (if pg va = pg TRAMPOLINE then PA2PTE (sym_trampoline s) OR (PTE_R OR PTE_X) OR PTE_V
           else if pg va = pg TRAPFRAME then PA2PTE tf OR (PTE_R OR PTE_W) OR PTE_V else 0))"
  by (rule allocproc_ok [OF assms])

text \<open>
  C31. \<^verbatim>\<open>kill(0)\<close> reports success although no process has the id 0: it marks the first unused slot as killed, and since
  \<^verbatim>\<open>allocproc\<close> does not clear the mark the next process created is born killed.
\<close>

theorem kill_zero_unused_slot:
  assumes "i < NPROC" "p_state (procs s i) = UNUSED" "p_pid (procs s i) = 0"
    and "\<forall>j<i. p_state (procs s j) \<noteq> UNUSED \<and> p_pid (procs s j) \<noteq> 0"
    and "free_pages s (tf # pt # ps)" "4 < length ps"
  shows "\<exists>s1 s2. kill 0 s = (0, s1) \<and> allocproc s1 = Ok (Some i, s2) \<and> p_killed (procs s2 i)"
proof -
  define s1 where "s1 = updp i (\<lambda>x. x\<lparr>p_killed := True, p_state := (if p_state x = SLEEPING then RUNNABLE else p_state x)\<rparr>) s"
  have k: "kill 0 s = (0, s1)"
    using find_first [of i NPROC "\<lambda>i. p_pid (procs s i) = 0"] assms(1,3,4) by (simp add: kill_def s1_def)
  have u: "p_state (procs s1 i) = UNUSED" "\<forall>j<i. p_state (procs s1 j) \<noteq> UNUSED" "p_killed (procs s1 i)"
    using assms(2,4) by (auto simp: s1_def updp_def)
  have "free_pages s1 (tf # pt # ps)" using assms(5) by (simp add: s1_def updp_def free_pages_def page_ok_def)
  from allocproc_ok [OF assms(1) u(1,2) this assms(6)] show ?thesis using k u(3) by (auto simp: new_proc_def)
qed

text \<open>A kernel with seven free pages and no process.\<close>

definition alloc_ex :: pstate where
  "alloc_ex = proc_boot\<lparr>pmem := store64 (store64 (store64 (store64 (store64 (store64 (\<lambda>_. 0)
       0x80020000 0x80021000) 0x80021000 0x80022000) 0x80022000 0x80023000) 0x80023000 0x80024000) 0x80024000 0x80025000) 0x80025000 0x80026000,
     freelist := 0x80020000, kend := 0x80010000\<rparr>"

lemma alloc_ex_free: "free_pages alloc_ex (0x80020000 # 0x80021000 # [0x80022000, 0x80023000, 0x80024000, 0x80025000, 0x80026000])"
proof -
  have z: "load64 (\<lambda>_. 0) a = 0" for a by (rule load64_zero)
  show ?thesis
    unfolding free_pages_def
    by (simp add: alloc_ex_def boot_simps page_ok_def page_aligned_def PHYSTOP_num load64_store64_same load64_store64_apart z)
qed

theorem allocproc_correct_witness:
  "\<exists>s'. allocproc alloc_ex = Ok (Some 0, s') \<and> p_pagetable (procs s' 0) = 0x80021000"
  using allocproc_correct [of 0 alloc_ex, OF _ _ _ alloc_ex_free] by (fastforce simp: alloc_ex_def boot_simps new_proc_def)

theorem kill_zero_unused_slot_witness:
  "\<exists>s1 s2. kill 0 alloc_ex = (0, s1) \<and> allocproc s1 = Ok (Some 0, s2) \<and> p_killed (procs s2 0)"
  using kill_zero_unused_slot [of 0 alloc_ex, OF _ _ _ _ alloc_ex_free] by (simp add: alloc_ex_def boot_simps)

end
