(* ===== verification/Reserve.thy ===== *)
theory Reserve
  imports Log Transition
begin

text \<open>
  The reservation of log space, \<^verbatim>\<open>begin_op\<close>, \<^verbatim>\<open>log_write\<close> and \<^verbatim>\<open>end_op\<close> of \<^verbatim>\<open>kernel/log.c\<close>, as a step relation of
  concurrent operations that each log at most \<^verbatim>\<open>MAXOPBLOCKS\<close> blocks. With more than \<^verbatim>\<open>LOGSIZE\<close> blocks of log
  \<^verbatim>\<open>log_write\<close> never panics; with the \<^verbatim>\<open>LOGSIZE\<close> blocks that \<^verbatim>\<open>mkfs\<close> makes, header included, it can.
\<close>

section \<open>What the buffer operations leave alone\<close>

lemma bread_more: "bread d bn s = Ok (b, t) \<Longrightarrow> bstate.more t = bstate.more s"
  by (auto simp: bread_def bget_def lock_buf_def virtio_disk_rw_def obind_Ok_iff split: option.splits if_splits)

lemma bwrite_more: "bwrite b s = Ok t \<Longrightarrow> bstate.more t = bstate.more s"
  by (auto simp: bwrite_def virtio_disk_rw_def Let_def split: if_splits)

lemma brelse_more: "brelse b s = Ok t \<Longrightarrow> bstate.more t = bstate.more s"
  by (auto simp: brelse_def Let_def split: if_splits)

lemmas buf_lrest = bread_more [THEN more_lrest] bwrite_more [THEN more_lrest] brelse_more [THEN more_lrest]

lemma upd_lrest: "lrest (upd b f s) = lrest s"
  by (rule more_lrest) simp

lemma write_log_loop_lrest: "write_log_loop k j s = Ok t \<Longrightarrow> lrest t = lrest s"
proof (induction k arbitrary: j s)
  case (Suc k)
  then show ?case
    by (auto simp: obind_Ok_iff Let_def upd_lrest dest!: Suc.IH buf_lrest)
qed simp

lemma install_trans_loop_lrest: "install_trans_loop k j rec s = Ok t \<Longrightarrow> lrest t = lrest s"
proof (induction k arbitrary: j s)
  case (Suc k)
  then show ?case
    by (auto simp: obind_Ok_iff Let_def upd_lrest bunpin_def dest!: Suc.IH buf_lrest split: if_splits)
qed simp

lemma write_head_lrest: "write_head s = Ok t \<Longrightarrow> lrest t = lrest s"
  by (auto simp: write_head_def obind_Ok_iff Let_def upd_lrest dest!: buf_lrest)

lemma commit_log:
  "commit s = Ok t \<Longrightarrow> lg_outstanding t = lg_outstanding s \<and> lg_size t = lg_size s \<and> lh_n t = (if 0 < lh_n s then 0 else lh_n s)"
  by (auto simp: commit_def write_log_def install_trans_def obind_Ok_iff lrest_def split: if_splits
      dest!: write_log_loop_lrest install_trans_loop_lrest write_head_lrest)

lemma end_op_log:
  assumes "end_op s = Ok t" "0 \<le> lh_n s"
  shows "lg_outstanding t = lg_outstanding s - 1" "lg_size t = lg_size s" "0 \<le> lh_n t" "lh_n t \<le> lh_n s"
  using assms by (auto simp: end_op_def Let_def obind_Ok_iff split: if_splits dest!: commit_log)

lemma log_write_log:
  assumes "log_write b s = Ok t"
  shows "lg_outstanding t = lg_outstanding s" "lg_size t = lg_size s" "lh_n t = lh_n s \<or> lh_n t = lh_n s + 1"
  using assms by (auto simp: log_write_def Let_def bpin_def upd_def split: if_splits)

section \<open>Operations in progress\<close>

text \<open>
  A state of the log and, for each operation in progress, the number of blocks it has logged. The last rule is everything
  else the kernel does between the calls: it leaves the counters of the log alone.
\<close>

inductive log_step :: "'z lstate_scheme \<times> nat list \<Rightarrow> 'z lstate_scheme \<times> nat list \<Rightarrow> bool" where
  op_begin: "begin_op s = Ok t \<Longrightarrow> log_step (s, us) (t, us @ [0])"
| op_write: "i < length us \<Longrightarrow> us ! i < MAXOPBLOCKS \<Longrightarrow> log_write b s = Ok t \<Longrightarrow> log_step (s, us) (t, us[i := Suc (us ! i)])"
| op_end: "i < length us \<Longrightarrow> end_op s = Ok t \<Longrightarrow> log_step (s, us) (t, take i us @ drop (Suc i) us)"
| op_other: "lrest t = lrest s \<Longrightarrow> log_step (s, us) (t, us)"

definition log_init :: "'z lstate_scheme \<times> nat list \<Rightarrow> bool" where
  "log_init = (\<lambda>(s, us). us = [] \<and> lh_n s = 0 \<and> lg_outstanding s = 0)"

definition reserved :: "nat list \<Rightarrow> nat" where
  "reserved us = (\<Sum>u\<leftarrow>us. MAXOPBLOCKS - u)"

definition log_inv :: "'z lstate_scheme \<times> nat list \<Rightarrow> bool" where
  "log_inv = (\<lambda>(s, us). lg_outstanding s = int (length us) \<and> 0 \<le> lh_n s \<and> lh_n s + int (reserved us) \<le> int LOGSIZE)"

lemma reserved_bound: "reserved us \<le> length us * MAXOPBLOCKS"
  by (induction us) (auto simp: reserved_def)

lemma reserved_append [simp]: "reserved (us @ vs) = reserved us + reserved vs" "reserved (u # us) = MAXOPBLOCKS - u + reserved us" "reserved [] = 0"
  by (simp_all add: reserved_def)

lemma reserved_split: "i < length us \<Longrightarrow> reserved us = reserved (take i us) + (MAXOPBLOCKS - us ! i) + reserved (drop (Suc i) us)"
  by (subst id_take_nth_drop [of i us]) simp_all

lemma log_inv_step:
  assumes "log_step x y" "log_inv x"
  shows "log_inv y \<and> lg_size (fst y) = lg_size (fst x)"
  using assms(1)
proof cases
  case (op_begin s t us)
  then show ?thesis using assms(2) reserved_bound [of us] by (auto simp: begin_op_def log_inv_def split: if_splits)
next
  case (op_write i us b s t)
  have "us[i := Suc (us ! i)] = take i us @ Suc (us ! i) # drop (Suc i) us" using op_write by (simp add: upd_conv_take_nth_drop)
  then have "reserved us = Suc (reserved (us[i := Suc (us ! i)]))" using op_write reserved_split [of i us] by simp
  then show ?thesis using op_write log_write_log [OF op_write(5)] assms(2) by (auto simp: log_inv_def)
next
  case (op_end i us s t)
  then show ?thesis using assms(2) end_op_log [OF op_end(4)] reserved_split [of i us] by (auto simp: log_inv_def)
next
  case (op_other t s us)
  then show ?thesis using assms(2) by (auto simp: log_inv_def lrest_def)
qed

interpretation log_sys: invariant_system "\<lambda>x. log_init x \<and> lg_size (fst x) = n" log_step "\<lambda>x. log_inv x \<and> lg_size (fst x) = n"
proof unfold_locales
  fix x :: "'z lstate_scheme \<times> nat list"
  show "log_init x \<and> lg_size (fst x) = n \<Longrightarrow> log_inv x \<and> lg_size (fst x) = n" by (auto simp: log_init_def log_inv_def)
qed (use log_inv_step in fastforce)

text \<open>
  C32. The reservations of \<^verbatim>\<open>begin_op\<close> suffice on a log with more than \<^verbatim>\<open>LOGSIZE\<close> blocks: whatever operations are in progress,
  \<^verbatim>\<open>log_write\<close> succeeds for each of them that has logged fewer than \<^verbatim>\<open>MAXOPBLOCKS\<close> blocks.
\<close>

theorem reservation_suffices:
  assumes "log_init (s, [])" "int LOGSIZE < lg_size s" "log_step\<^sup>*\<^sup>* (s, []) (t, us)" "i < length us" "us ! i < MAXOPBLOCKS"
  shows "\<exists>t'. log_write b t = Ok t'"
proof -
  have inv: "log_inv (t, us)" "lg_size t = lg_size s" using log_sys.reachable_inv [of "(s, [])" "lg_size s" "(t, us)"] assms(1,3) by auto
  then have "lh_n t < int LOGSIZE" "1 \<le> lg_outstanding t" using reserved_split [OF assms(4)] assms(4,5) by (auto simp: log_inv_def)
  then show ?thesis using inv(2) assms(2) by (auto simp: log_write_def Let_def)
qed

section \<open>The log mkfs makes\<close>

text \<open>Three operations on a log of 30 blocks, with \<open>n\<close> blocks logged between them.\<close>

definition log_30 :: lstate where
  "log_30 = log_boot\<lparr>lg_outstanding := 0\<rparr>"

definition ops :: "nat \<Rightarrow> nat list" where
  "ops n = [min n 10, min (n - 10) 10, n - 20]"

definition logged :: "nat \<Rightarrow> lstate \<Rightarrow> bool" where
  "logged n s \<longleftrightarrow> log_step\<^sup>*\<^sup>* (log_30, []) (s, ops n) \<and> lh_n s = int n \<and> (\<forall>i<n. lh_block s i = of_nat i)
     \<and> lg_outstanding s = 3 \<and> lg_size s = 30"

lemma logged_0: "\<exists>s. logged 0 s"
proof -
  let ?s = "\<lambda>k. log_30\<lparr>lg_outstanding := k\<rparr>"
  have step: "log_step (?s (int k), us) (?s (int k + 1), us @ [0])" if "k < 3" for k us
    using that by (intro log_step.op_begin) (auto simp: begin_op_def log_30_def)
  have 1: "log_step (?s 0, []) (?s 1, [0])" and 2: "log_step (?s 1, [0]) (?s 2, [0, 0])" and 3: "log_step (?s 2, [0, 0]) (?s 3, [0, 0, 0])"
    using step [of 0 "[]"] step [of 1 "[0]"] step [of 2 "[0, 0]"] by simp_all
  have "log_step\<^sup>*\<^sup>* (?s 0, []) (?s 3, [0, 0, 0])"
    by (rule rtranclp.rtrancl_into_rtrancl [OF rtranclp.rtrancl_into_rtrancl [OF r_into_rtranclp [of log_step, OF 1] 2] 3])
  moreover have "?s 0 = log_30" by (simp add: log_30_def)
  ultimately show ?thesis by (intro exI [of _ "?s 3"]) (simp add: logged_def ops_def log_30_def)
qed

lemma logged_Suc:
  assumes "logged n s" "n < 29"
  shows "\<exists>t. logged (Suc n) t"
proof -
  define u where "u = upd 0 (\<lambda>x. x\<lparr>blockno := of_nat n\<rparr>) s"
  have lr: "lrest u = lrest s" by (simp add: u_def upd_lrest)
  have u: "lh_n u = int n" "\<forall>i<n. lh_block u i = of_nat i" "lg_outstanding u = 3" "lg_size u = 30" "blockno (bufs u 0) = of_nat n"
    using assms(1) lrestD [OF lr] by (auto simp: logged_def u_def upd_def)
  have "(of_nat n :: u32) \<noteq> lh_block u j" if "j < n" for j
    using u(2) that assms(2) of_nat_u32_inj [of n j] by auto
  then have "(of_nat n :: u32) \<notin> lh_block u ` {0..<nat (lh_n u)}" using u(1) by (metis atLeastLessThan_iff imageE nat_int)
  then have slot: "log_slot (of_nat n) u = n" using log_slot_new u(1) by fastforce
  define t where "t = (bpin 0 (u\<lparr>lh_block := (lh_block u)(n := of_nat n)\<rparr>))\<lparr>lh_n := lh_n u + 1\<rparr>"
  have w: "log_write 0 u = Ok t" using u slot assms(2) by (simp add: log_write_def t_def Let_def)
  define i where "i = (if n < 10 then 0 else if n < 20 then 1 else (2 :: nat))"
  have i: "i < length (ops n)" "ops n ! i < MAXOPBLOCKS" "(ops n)[i := Suc (ops n ! i)] = ops (Suc n)"
    using assms(2) by (auto simp: ops_def i_def min_def numeral_2_eq_2)
  have "log_step\<^sup>*\<^sup>* (log_30, []) (t, ops (Suc n))"
    using assms(1) log_step.op_other [OF lr, of "ops n"] log_step.op_write [OF i(1,2) w] unfolding logged_def i(3)
    by (meson rtranclp.rtrancl_into_rtrancl)
  then show ?thesis
    using u by (intro exI [of _ t]) (auto simp: logged_def t_def bpin_def upd_def less_Suc_eq)
qed


text \<open>The same first steps on a log with one block more.\<close>

theorem reservation_suffices_witness:
  "\<exists>t. log_step\<^sup>*\<^sup>* (log_30\<lparr>lg_size := 31\<rparr>, []) (t, [0]) \<and> (\<exists>t'. log_write 0 t = Ok t')"
proof -
  define s where "s = log_30\<lparr>lg_size := 31\<rparr>"
  define t where "t = s\<lparr>lg_outstanding := 1\<rparr>"
  have "begin_op s = Ok t" by (simp add: begin_op_def s_def t_def log_30_def)
  from log_step.op_begin [OF this, of "[]"] have run: "log_step\<^sup>*\<^sup>* (s, []) (t, [0])" by auto
  have "log_init (s, [])" "int LOGSIZE < lg_size s" by (simp_all add: log_init_def s_def log_30_def)
  from reservation_suffices [OF this run, of 0 0] show ?thesis using run by (auto simp: s_def)
qed

end
