(* ===== verification/Txn.thy ===== *)
theory Txn
  imports Proc
begin

text \<open>
  The file system inside a transaction. \<open>txn s H n\<close> says that the log is open, that the caller holds
  the buffers \<open>H\<close>, each of them unmodified or already logged, and that \<open>n\<close> more blocks fit in the log
  and in the cache. Under it \<^verbatim>\<open>bread\<close>, \<^verbatim>\<open>log_write\<close> and \<^verbatim>\<open>brelse\<close> never panic or block, and all that the
  operations of \<^verbatim>\<open>kernel/fs.c\<close> do is to update \<open>blk\<close>, the contents of the blocks as seen through the
  cache. The lemmas on the block allocator and on inodes are stated over \<open>blk\<close>.
\<close>

section \<open>Transactions\<close>

text \<open>What reading, logging and releasing buffers leaves alone.\<close>

definition tkeep :: "'z lstate_scheme \<Rightarrow> 'z lstate_scheme \<Rightarrow> bool" where
  "tkeep s s' \<longleftrightarrow> disk s' = disk s \<and> dwrites s' = dwrites s \<and> curpid s' = curpid s \<and> pmem s' = pmem s \<and> freelist s' = freelist s
     \<and> kend s' = kend s \<and> lg_start s' = lg_start s \<and> lg_size s' = lg_size s \<and> lg_outstanding s' = lg_outstanding s
     \<and> lg_committing s' = lg_committing s \<and> lg_dev s' = lg_dev s \<and> lstate.more s' = lstate.more s"

definition txn :: "'z lstate_scheme \<Rightarrow> nat set \<Rightarrow> nat \<Rightarrow> bool" where
  "txn s H n \<longleftrightarrow> (\<exists>P. linvh s H P \<and> (\<forall>b\<in>H. b \<in> P \<or> bdata (bufs s b) = disk s (blockno (bufs s b))))
     \<and> 1 \<le> lg_outstanding s \<and> lh_n s + int n \<le> lg_size s - 1 \<and> lh_n s + int n + 2 \<le> int NBUF"

lemma tkeep_refl [simp]: "tkeep s s"
  by (simp add: tkeep_def)

lemma tkeep_trans: "tkeep s t \<Longrightarrow> tkeep t u \<Longrightarrow> tkeep s u"
  by (simp add: tkeep_def)

lemma tkeep_brest: "brest s' = brest s \<Longrightarrow> tkeep s s'"
  using brest_lrest [of s' s] by (simp add: tkeep_def brest_def lrest_def)

lemma tkeepD:
  assumes "tkeep s s'"
  shows "disk s' = disk s" "curpid s' = curpid s" "pmem s' = pmem s" "log_area s' = log_area s" "lg_outstanding s' = lg_outstanding s"
    "lg_size s' = lg_size s" "freelist s' = freelist s" "kend s' = kend s"
  using assms by (simp_all add: tkeep_def log_area_def)

lemma tkeep_fs:
  assumes "tkeep s s'"
  shows "sblk s' = sblk s" "itab s' = itab s" "cur_pt s' = cur_pt s" "cur_cwd s' = cur_cwd s" "kscr s' = kscr s"
    "fstate.more s' = fstate.more s"
proof -
  have "lstate.more s' = lstate.more s" using assms by (simp add: tkeep_def)
  then show "sblk s' = sblk s" "itab s' = itab s" "cur_pt s' = cur_pt s" "cur_cwd s' = cur_cwd s" "kscr s' = kscr s"
    "fstate.more s' = fstate.more s"
    by (cases s; cases s'; simp)+
qed

lemma txn_mono: "txn s H n \<Longrightarrow> m \<le> n \<Longrightarrow> txn s H m"
  by (auto simp: txn_def)

lemma txn_length: "txn s H n \<Longrightarrow> length (blk s bn) = BSIZE"
  unfolding txn_def using length_blk linvD(1) by blast

lemma txn_bread:
  assumes "txn s H n" and H: "\<And>i. i \<in> H \<Longrightarrow> blockno (bufs s i) \<noteq> bn" and "card H \<le> 1"
  obtains b s' where "bread ROOTDEV bn s = Ok (b, s')" and "b \<notin> H" and "txn s' (insert b H) n"
    and "blockno (bufs s' b) = bn" and "bdata (bufs s' b) = blk s bn" and "blk s' = blk s" and "tkeep s s'" and "others b s s'"
proof -
  obtain P where inv: "linvh s H P" and clean: "\<forall>b\<in>H. b \<in> P \<or> bdata (bufs s b) = disk s (blockno (bufs s b))"
    and n: "1 \<le> lg_outstanding s" "lh_n s + int n \<le> lg_size s - 1" "lh_n s + int n + 2 \<le> int NBUF"
    using assms(1) by (auto simp: txn_def)
  note i = linvD [OF inv]
  have "card (H \<union> P) \<le> card H + card P" by (rule card_Un_le)
  then have room: "card (H \<union> P) < NBUF" using assms(3) linv_card [OF inv] i(3) n(3) by linarith
  obtain b s' where r: "bread ROOTDEV bn s = Ok (b, s')" "b < NBUF" "b \<notin> H" "cinv s' (insert b H) P"
    "blockno (bufs s' b) = bn" "bdata (bufs s' b) = blk s bn" "blk s' = blk s" "brest s' = brest s" "others b s s'"
    "\<And>i. i \<in> H \<union> P \<Longrightarrow> blockno (bufs s' i) = blockno (bufs s i)"
    by (rule bread_ok [OF i(1) H disjI1 [OF room]]) (assumption, rule that)
  have inv': "linvh s' (insert b H) P" by (rule linv_cache [OF inv r(4,8)]) (simp add: r(10))
  have "b \<in> P \<or> blk s bn = disk s bn"
  proof (cases "\<exists>j<NBUF. valid (bufs s j) \<and> bdev (bufs s j) = ROOTDEV \<and> blockno (bufs s j) = bn")
    case True
    then obtain j where j: "j < NBUF" "valid (bufs s j)" "bdev (bufs s j) = ROOTDEV" "blockno (bufs s j) = bn" by blast
    have jH: "j \<notin> H" using H j(4) by blast
    have "b \<in> P" if jP: "j \<in> P"
      using cinv_inj [OF r(4), of b j] r(5,10) j(4) jP by auto
    moreover have "blk s bn = disk s bn" if "j \<notin> P"
      using cinvD(1) [OF i(1) j(1)] jH that blk_cached [OF cinvD(2) [OF i(1)] j(1-3)] j by (simp add: buf_ok_def)
    ultimately show ?thesis by blast
  next
    case False
    then show ?thesis using blk_uncached [of s bn] by blast
  qed
  moreover have "bdata (bufs s' j) = bdata (bufs s j)" if "j \<in> H" for j
    using r(3,9) that by (auto simp: others_def core_def)
  ultimately have c': "\<forall>j\<in>insert b H. j \<in> P \<or> bdata (bufs s' j) = disk s' (blockno (bufs s' j))"
    using r(5,6,8,10) clean by (auto simp: brest_def)
  have "txn s' (insert b H) n"
    using inv' c' n lrestD [OF brest_lrest [OF r(8)]] unfolding txn_def by auto
  then show ?thesis
    by (rule that [OF r(1,3)]) (use r tkeep_brest [OF r(8)] in auto)
qed

lemma txn_write:
  assumes "txn s H (Suc n)" and b: "b \<in> H" and d: "length d = BSIZE" and area: "blockno (bufs s b) \<notin> log_area s"
  obtains s' where "log_write b (upd b (\<lambda>x. x\<lparr>bdata := d\<rparr>) s) = Ok s'" and "txn s' H n"
    and "blk s' = (blk s)(blockno (bufs s b) := d)" and "tkeep s s'" and "others b s s'"
    and "blockno (bufs s' b) = blockno (bufs s b)" and "bdata (bufs s' b) = d"
proof -
  obtain P where inv: "linvh s H P" and clean: "\<forall>b\<in>H. b \<in> P \<or> bdata (bufs s b) = disk s (blockno (bufs s b))"
    and n: "1 \<le> lg_outstanding s" "lh_n s + int (Suc n) \<le> lg_size s - 1" "lh_n s + int (Suc n) + 2 \<le> int NBUF"
    using assms(1) by (auto simp: txn_def)
  define t where "t = upd b (\<lambda>x. x\<lparr>bdata := d\<rparr>) s"
  note u = setdata_ok [OF linvD(1) [OF inv] b d t_def]
  have bno: "blockno (bufs t i) = blockno (bufs s i)" for i by (simp add: t_def upd_def)
  have inv1: "linvh t H P" by (rule linv_cache [OF inv u(1,3)]) (rule bno)
  note l = lrestD [OF brest_lrest [OF u(3)]]
  have "blockno (bufs t b) \<notin> log_area t" using area by (simp add: log_area_def l bno)
  then obtain s' where w: "log_write b t = Ok s'" "linvh s' H (insert b P)" "blk s' = blk t" "wrote [] t s'" "others b t s'"
    "blockno (bufs s' b) = blockno (bufs t b)" "bdata (bufs s' b) = bdata (bufs t b)" "lh_n s' = lh_n t + of_bool (b \<notin> P)"
    "lrest (s'\<lparr>lh_n := lh_n t, lh_block := lh_block t\<rparr>) = lrest t"
    using log_write_ok [OF inv1 b, of thesis] n l by auto
  have k: "tkeep t s'" using w(4,9) by (simp add: tkeep_def wrote_def lrest_def)
  have o: "others b s s'" using u(4) w(5) by (auto simp: others_def)
  have "bdata (bufs s' j) = bdata (bufs s j)" "blockno (bufs s' j) = blockno (bufs s j)" if "j \<noteq> b" for j
    using o that by (auto simp: others_def core_def)
  then have "\<forall>j\<in>H. j \<in> insert b P \<or> bdata (bufs s' j) = disk s' (blockno (bufs s' j))"
    using clean tkeepD(1) [OF k] tkeepD(1) [OF tkeep_brest [OF u(3)]] by auto
  then have "txn s' H n"
    using w(2,8) n l tkeepD(5,6) [OF k] unfolding txn_def by auto
  then show ?thesis
    by (rule that [OF w(1) [unfolded t_def]])
      (use w u o tkeep_trans [OF tkeep_brest [OF u(3)] k] in simp_all)
qed

lemma txn_brelse:
  assumes "txn s H n" and b: "b \<in> H"
  obtains s' where "brelse b s = Ok s'" and "txn s' (H - {b}) n" and "blk s' = blk s" and "tkeep s s'" and "others b s s'"
proof -
  obtain P where inv: "linvh s H P" and clean: "\<forall>b\<in>H. b \<in> P \<or> bdata (bufs s b) = disk s (blockno (bufs s b))"
    and n: "1 \<le> lg_outstanding s" "lh_n s + int n \<le> lg_size s - 1" "lh_n s + int n + 2 \<le> int NBUF"
    using assms(1) by (auto simp: txn_def)
  obtain s' where e: "brelse b s = Ok s'" "cinv s' (H - {b}) P" "blk s' = blk s" "brest s' = brest s" "others b s s'"
    "blockno (bufs s' b) = blockno (bufs s b)" "bdata (bufs s' b) = bdata (bufs s b)"
    by (rule brelse_ok [OF linvD(1) [OF inv] b]) (use clean b in blast, rule that)
  have o: "blockno (bufs s' j) = blockno (bufs s j)" "bdata (bufs s' j) = bdata (bufs s j)" for j
    using e(5-7) by (cases "j = b"; simp add: others_def core_def)+
  have "linvh s' (H - {b}) P" by (rule linv_cache [OF inv e(2,4)]) (rule o)
  then have "txn s' (H - {b}) n"
    using clean n o lrestD [OF brest_lrest [OF e(4)]] e(4) unfolding txn_def by (auto simp: brest_def)
  then show ?thesis
    by (rule that [OF e(1)]) (use e tkeep_brest [OF e(4)] in simp_all)
qed

text \<open>The buffers the caller holds keep their block and their contents.\<close>

definition hkeep :: "nat set \<Rightarrow> 'z bstate_scheme \<Rightarrow> 'z bstate_scheme \<Rightarrow> bool" where
  "hkeep H s s' \<longleftrightarrow> (\<forall>i\<in>H. core (bufs s' i) = core (bufs s i))"

lemma hkeep_trans: "hkeep H s t \<Longrightarrow> hkeep H t u \<Longrightarrow> hkeep H s u"
  by (simp add: hkeep_def)

lemma hkeep_empty [simp]: "hkeep {} s s'" and hkeep_refl [simp]: "hkeep H s s"
  by (simp_all add: hkeep_def)

lemma hkeepD: "hkeep H s s' \<Longrightarrow> i \<in> H \<Longrightarrow> blockno (bufs s' i) = blockno (bufs s i) \<and> bdata (bufs s' i) = bdata (bufs s i)"
  by (simp add: hkeep_def core_def)

lemma others_hkeep: "others b s s' \<Longrightarrow> b \<notin> H \<Longrightarrow> hkeep H s s'"
  by (auto simp: hkeep_def others_def)

lemma upd_data: "upd b (\<lambda>x. x\<lparr>bdata := f (bdata x)\<rparr>) s = upd b (\<lambda>x. x\<lparr>bdata := f (bdata (bufs s b))\<rparr>) s"
  by (simp add: upd_def)

text \<open>Reading a block, and reading, changing and logging a block.\<close>

lemma txn_read:
  assumes t: "txn s H n" and H: "\<And>i. i \<in> H \<Longrightarrow> blockno (bufs s i) \<noteq> bn" and c: "card H \<le> 1"
  obtains b s1 s2 where "bread ROOTDEV bn s = Ok (b, s1)" and "bdata (bufs s1 b) = blk s bn" and "brelse b s1 = Ok s2"
    and "tkeep s s1" and "tkeep s s2" and "txn s2 H n" and "blk s2 = blk s" and "hkeep H s s2"
proof -
  obtain b s1 where r: "bread ROOTDEV bn s = Ok (b, s1)" "b \<notin> H" "txn s1 (insert b H) n" "blockno (bufs s1 b) = bn"
    "bdata (bufs s1 b) = blk s bn" "blk s1 = blk s" "tkeep s s1" "others b s s1"
    by (rule txn_bread [OF t H c]) (assumption, rule that)
  obtain s2 where e: "brelse b s1 = Ok s2" "txn s2 (insert b H - {b}) n" "blk s2 = blk s1" "tkeep s1 s2" "others b s1 s2"
    by (rule txn_brelse [OF r(3) insertI1]) (rule that)
  show ?thesis
    by (rule that [OF r(1,5) e(1)])
      (use r e in \<open>auto intro: tkeep_trans hkeep_trans others_hkeep\<close>)
qed

lemma txn_rmw:
  assumes t: "txn s H (Suc n)" and H: "\<And>i. i \<in> H \<Longrightarrow> blockno (bufs s i) \<noteq> bn" and c: "card H \<le> 1"
    and area: "bn \<notin> log_area s" and len: "length (f (blk s bn)) = BSIZE"
  obtains b s1 s2 s3 where "bread ROOTDEV bn s = Ok (b, s1)" and "bdata (bufs s1 b) = blk s bn" and "tkeep s s1"
    and "log_write b (upd b (\<lambda>x. x\<lparr>bdata := f (bdata x)\<rparr>) s1) = Ok s2" and "tkeep s s2" and "brelse b s2 = Ok s3"
    and "tkeep s s3" and "txn s3 H n" and "blk s3 = (blk s)(bn := f (blk s bn))" and "hkeep H s s3"
proof -
  obtain b s1 where r: "bread ROOTDEV bn s = Ok (b, s1)" "b \<notin> H" "txn s1 (insert b H) (Suc n)" "blockno (bufs s1 b) = bn"
    "bdata (bufs s1 b) = blk s bn" "blk s1 = blk s" "tkeep s s1" "others b s s1"
    by (rule txn_bread [OF t H c]) (assumption, rule that)
  have "blockno (bufs s1 b) \<notin> log_area s1" using area r(4) tkeepD(4) [OF r(7)] by simp
  then obtain s2 where w: "log_write b (upd b (\<lambda>x. x\<lparr>bdata := f (blk s bn)\<rparr>) s1) = Ok s2" "txn s2 (insert b H) n"
    "blk s2 = (blk s1)(blockno (bufs s1 b) := f (blk s bn))" "tkeep s1 s2" "others b s1 s2"
    "blockno (bufs s2 b) = blockno (bufs s1 b)" "bdata (bufs s2 b) = f (blk s bn)"
    by (rule txn_write [OF r(3) insertI1 len]) (rule that)
  obtain s3 where e: "brelse b s2 = Ok s3" "txn s3 (insert b H - {b}) n" "blk s3 = blk s2" "tkeep s2 s3" "others b s2 s3"
    by (rule txn_brelse [OF w(2) insertI1]) (rule that)
  have k: "tkeep s s2" "tkeep s s3" using r(7) w(4) e(4) by (blast intro: tkeep_trans)+
  have h: "hkeep H s s3" using r(2,8) w(5) e(5) by (blast intro: hkeep_trans others_hkeep)
  show ?thesis
    by (rule that [OF r(1,5,7) _ k(1) e(1) k(2) _ _ h]) (use r w e upd_data [of b f s1] in simp_all)
qed

section \<open>The block allocator\<close>

text \<open>
  Block \<open>b\<close> is free when its bit is clear. On a well-formed disk the bitmap lies outside the log, and a
  free block is neither a block of the log nor of the bitmap nor block 0, which \<^verbatim>\<open>balloc\<close> returns when
  it fails.
\<close>

definition bfree_bit :: "'z fstate_scheme \<Rightarrow> u32 \<Rightarrow> bool" where
  "bfree_bit s b \<longleftrightarrow> bm_free (blk s (BBLOCK b (sblk s))) (unat (b mod BPB))"

definition free_blocks :: "'z fstate_scheme \<Rightarrow> u32 set" where
  "free_blocks s = {b. b < sbsize (sblk s) \<and> bfree_bit s b}"

definition bitmap_blocks :: "'z fstate_scheme \<Rightarrow> u32 set" where
  "bitmap_blocks s = (\<lambda>b. BBLOCK b (sblk s)) ` {b. b < sbsize (sblk s)}"

definition bitmap_ok :: "'z fstate_scheme \<Rightarrow> bool" where
  "bitmap_ok s \<longleftrightarrow> unat (sbsize (sblk s)) + unat BPB < 2 ^ 32 \<and> bitmap_blocks s \<inter> log_area s = {}
     \<and> free_blocks s \<inter> (log_area s \<union> bitmap_blocks s \<union> {0}) = {}"

lemma bzero_ok:
  assumes t: "txn s H (Suc n)" and H: "\<And>i. i \<in> H \<Longrightarrow> blockno (bufs s i) \<noteq> bn" and c: "card H \<le> 1" and area: "bn \<notin> log_area s"
  obtains s' where "bzero ROOTDEV bn s = Ok s'" and "txn s' H n" and "blk s' = (blk s)(bn := replicate BSIZE 0)" and "tkeep s s'"
    and "hkeep H s s'"
proof -
  obtain b s1 s2 s3 where "bread ROOTDEV bn s = Ok (b, s1)" "log_write b (upd b (\<lambda>x. x\<lparr>bdata := replicate BSIZE 0\<rparr>) s1) = Ok s2"
    "brelse b s2 = Ok s3" "txn s3 H n" "blk s3 = (blk s)(bn := replicate BSIZE 0)" "tkeep s s3" "hkeep H s s3"
    by (rule txn_rmw [OF t H c area, of "\<lambda>_. replicate BSIZE 0"]) (assumption, simp, rule that)
  then show ?thesis by (intro that) (auto simp: bzero_def)
qed

lemma bit_2p: "bit (2 ^ i :: byte) n \<longleftrightarrow> n = i \<and> n < 8"
  using bit_push_bit_iff [of i "1 :: byte" n] by (auto simp: bit_1_iff)

lemma and_mask_zero: "i < 8 \<Longrightarrow> (w :: byte) AND 2 ^ i = 0 \<longleftrightarrow> \<not> bit w i"
  using bit_eq_iff [of "w AND 2 ^ i" 0] by (auto simp: bit_and_iff bit_2p)

lemma bm_free_bit: "bm_free d bi \<longleftrightarrow> \<not> bit (d ! (bi div 8)) (bi mod 8)"
  by (simp add: bm_free_def bit_mask_def and_mask_zero)

lemma div_mod_8: "(i :: nat) div 8 = j div 8 \<Longrightarrow> i mod 8 = j mod 8 \<Longrightarrow> i = j"
  by (metis div_mult_mod_eq)

lemma bm_free_set: "bi div 8 < length d \<Longrightarrow> bm_free (bm_set d bi) bj \<longleftrightarrow> bm_free d bj \<and> bj \<noteq> bi"
  using div_mod_8 [of bj bi]
  by (cases "bj div 8 = bi div 8") (auto simp: bm_free_bit bm_set_def bit_or_iff bit_mask_def bit_push_bit_iff bit_1_iff bit_2p)

lemma bm_free_clear: "bi div 8 < length d \<Longrightarrow> bm_free (bm_clear d bi) bj \<longleftrightarrow> bm_free d bj \<or> bj = bi"
  using div_mod_8 [of bj bi]
  by (cases "bj div 8 = bi div 8")
    (auto simp: bm_free_bit bm_clear_def bit_and_iff bit_not_iff bit_mask_def bit_push_bit_iff bit_1_iff bit_2p)

lemma length_bm [simp]: "length (bm_set d bi) = length d" "length (bm_clear d bi) = length d"
  by (simp_all add: bm_set_def bm_clear_def)

lemma balloc_scan_Some:
  "balloc_scan k bi b sz d = Some j \<Longrightarrow>
     bi \<le> j \<and> j < bi + k \<and> b + of_nat j < sz \<and> bm_free d j \<and> (\<forall>i. bi \<le> i \<longrightarrow> i < j \<longrightarrow> \<not> bm_free d i)"
  by (induction k arbitrary: bi) (force split: if_splits simp: not_less_eq_eq dest: le_neq_implies_less)+

lemma balloc_scan_None:
  "balloc_scan k bi b sz d = None \<Longrightarrow> unat b + bi + k < 2 ^ 32 \<Longrightarrow>
     bi \<le> i \<Longrightarrow> i < bi + k \<Longrightarrow> b + of_nat i < sz \<Longrightarrow> \<not> bm_free d i"
proof (induction k arbitrary: bi)
  case (Suc k)
  have "unat (b + of_nat m :: u32) = unat b + m" if "m < bi + Suc k" for m
    using Suc.prems(2) that by (subst unat_add_lem [THEN iffD1]) (simp_all add: unat_of_nat take_bit_nat_eq_self)
  then have "b + of_nat bi \<le> b + of_nat i" using Suc.prems(3,4) by (simp add: word_le_nat_alt)
  then have "b + of_nat bi < sz" using Suc.prems(5) by (rule order.strict_trans1)
  then show ?case using Suc.IH [of "Suc bi"] Suc.prems by (cases "i = bi") (auto split: if_splits)
qed simp

lemma unat_add_small: "unat (b :: u32) + i < 2 ^ 32 \<Longrightarrow> unat (b + of_nat i) = unat b + i"
  by (subst unat_add_lem [THEN iffD1]) (simp_all add: unat_of_nat take_bit_nat_eq_self)

lemma BBLOCK_add:
  assumes "unat b mod 8192 = 0" and "i < 8192" and "unat b + i < 2 ^ 32"
  shows "BBLOCK (b + of_nat i) sb = BBLOCK b sb" and "unat ((b + of_nat i) mod BPB) = i"
proof -
  have u: "unat (b + of_nat i) = unat b + i" using assms(3) by (rule unat_add_small)
  obtain q where q: "unat b = 8192 * q" using assms(1) by (auto simp: mod_eq_0_iff_dvd)
  have "unat ((b + of_nat i) div 8192) = unat (b div 8192)"
    using assms(2) by (simp add: unat_div_distrib u q)
  then have "(b + of_nat i) div 8192 = b div 8192" by (simp add: word_unat_eq_iff)
  then show "BBLOCK (b + of_nat i) sb = BBLOCK b sb" by (simp add: BBLOCK_def)
  show "unat ((b + of_nat i) mod BPB) = i" using assms(2) by (simp add: unat_mod_distrib u q)
qed

text \<open>What a successful and a failing call of \<^verbatim>\<open>balloc\<close> do to the blocks.\<close>

definition balloc_post :: "'z fstate_scheme \<Rightarrow> nat set \<Rightarrow> nat \<Rightarrow> u32 \<Rightarrow> 'z fstate_scheme \<Rightarrow> bool" where
  "balloc_post s H n r s' \<longleftrightarrow> txn s' H n \<and> tkeep s s' \<and> hkeep H s s'
     \<and> (if free_blocks s = {} then r = 0 \<and> blk s' = blk s
        else r = Min (free_blocks s)
          \<and> blk s' = (blk s)(BBLOCK r (sblk s) := bm_set (blk s (BBLOCK r (sblk s))) (unat (r mod BPB)), r := replicate BSIZE 0))"

lemma balloc_post_trans:
  "tkeep s t \<Longrightarrow> hkeep H s t \<Longrightarrow> blk t = blk s \<Longrightarrow> balloc_post t H n r s' \<Longrightarrow> balloc_post s H n r s'"
  using tkeep_trans [of s t s'] hkeep_trans [of H s t s'] tkeep_fs [of s t]
  by (simp add: balloc_post_def free_blocks_def bfree_bit_def)

text \<open>The blocks of one bitmap block, from the aligned block \<open>b\<close> on.\<close>

definition aligned :: "u32 \<Rightarrow> bool" where
  "aligned b \<longleftrightarrow> unat b mod 8192 = 0 \<and> unat b + 8192 < 2 ^ 32"

lemma aligned_add:
  assumes "aligned b" and "i < 8192"
  shows "BBLOCK (b + of_nat i) sb = BBLOCK b sb" and "unat ((b + of_nat i) mod BPB) = i" and "unat (b + of_nat i) = unat b + i"
  using BBLOCK_add [of b i] unat_add_small [of b i] assms by (simp_all add: aligned_def)

lemma aligned_index:
  assumes "aligned b" and "b \<le> c" and "unat c < unat b + m" and "m \<le> 8192"
  obtains i where "i < m" and "c = b + of_nat i"
proof
  show "unat c - unat b < m" using assms(2,3) by (auto simp: word_le_nat_alt)
  then show "c = b + of_nat (unat c - unat b)"
    using aligned_add(3) [OF assms(1), of "unat c - unat b"] assms(2,4) by (simp add: word_unat_eq_iff word_le_nat_alt)
qed

lemma aligned_bit:
  assumes "aligned b" and "i < 8192"
  shows "b + of_nat i \<in> free_blocks s \<longleftrightarrow> b + of_nat i < sbsize (sblk s) \<and> bm_free (blk s (BBLOCK b (sblk s))) i"
  using aligned_add [OF assms] by (simp add: free_blocks_def bfree_bit_def)

lemma scan_miss:
  assumes "aligned b" and "\<forall>c\<in>free_blocks s. b \<le> c"
    and "balloc_scan (unat BPB) 0 b (sbsize (sblk s)) (blk s (BBLOCK b (sblk s))) = None" and "c \<in> free_blocks s"
  shows "b + 8192 \<le> c"
proof (rule ccontr)
  assume "\<not> b + 8192 \<le> c"
  then have "unat c < unat b + 8192"
    using unat_add_small [of b 8192] assms(1) by (simp add: word_le_nat_alt aligned_def)
  then obtain i where i: "i < 8192" "c = b + of_nat i"
    using aligned_index [OF assms(1), of c 8192] assms(2,4) by auto
  then show False
    using balloc_scan_None [OF assms(3), of i] assms(1,4) aligned_bit [OF assms(1) i(1), of s] by (simp add: aligned_def)
qed

lemma scan_hit:
  assumes "aligned b" and "\<forall>c\<in>free_blocks s. b \<le> c"
    and "balloc_scan (unat BPB) 0 b (sbsize (sblk s)) (blk s (BBLOCK b (sblk s))) = Some j"
  shows "j < 8192" and "b + of_nat j \<in> free_blocks s" and "Min (free_blocks s) = b + of_nat j"
proof -
  note sc = balloc_scan_Some [OF assms(3)]
  show j: "j < 8192" using sc by simp
  show fr: "b + of_nat j \<in> free_blocks s" using sc aligned_bit [OF assms(1) j, of s] by simp
  show "Min (free_blocks s) = b + of_nat j"
  proof (rule Min_eqI [OF finite _ fr])
    fix c assume c: "c \<in> free_blocks s"
    show "b + of_nat j \<le> c"
    proof (rule ccontr)
      assume "\<not> b + of_nat j \<le> c"
      then have "unat c < unat b + j" by (simp add: word_le_nat_alt aligned_add [OF assms(1) j])
      then obtain i where i: "i < j" "c = b + of_nat i"
        using aligned_index [OF assms(1), of c j] assms(2) c j by auto
      then show False using sc c j aligned_bit [OF assms(1), of i s] by auto
    qed
  qed
qed

lemma bitmap_cong:
  assumes "tkeep s t"
  shows "bitmap_blocks t = bitmap_blocks s" and "blk t = blk s \<Longrightarrow> free_blocks t = free_blocks s"
    and "blk t = blk s \<Longrightarrow> bitmap_ok t = bitmap_ok s"
  using tkeep_fs [OF assms] tkeepD [OF assms] by (simp_all add: bitmap_ok_def bitmap_blocks_def free_blocks_def bfree_bit_def)

text \<open>One iteration of the outer loop, with and without a free block.\<close>

lemma balloc_miss:
  assumes t: "txn s H n" and H: "\<And>i. i \<in> H \<Longrightarrow> blockno (bufs s i) \<noteq> BBLOCK b (sblk s)" and c: "card H \<le> 1"
    and b: "b < sbsize (sblk s)"
    and none: "balloc_scan (unat BPB) 0 b (sbsize (sblk s)) (blk s (BBLOCK b (sblk s))) = None"
  obtains s' where "balloc_loop (Suc k) b ROOTDEV s = balloc_loop k (b + 8192) ROOTDEV s'"
    and "txn s' H n" and "blk s' = blk s" and "tkeep s s'" and "hkeep H s s'"
proof -
  obtain p s1 s2 where r: "bread ROOTDEV (BBLOCK b (sblk s)) s = Ok (p, s1)" "bdata (bufs s1 p) = blk s (BBLOCK b (sblk s))"
    "brelse p s1 = Ok s2" "tkeep s s1" "tkeep s s2" "txn s2 H n" "blk s2 = blk s" "hkeep H s s2"
    by (rule txn_read [OF t H c]) (assumption, rule that)
  show ?thesis by (rule that [OF _ r(6,7,5,8)]) (use r none b in \<open>simp add: tkeep_fs [OF r(4)]\<close>)
qed

lemma balloc_hit:
  assumes t: "txn s H (Suc (Suc n))" and c: "card H \<le> 1" and ok: "bitmap_ok s"
    and H: "\<forall>i\<in>H. blockno (bufs s i) \<notin> bitmap_blocks s \<union> free_blocks s" and b: "b < sbsize (sblk s)" "aligned b"
    and le: "\<forall>c\<in>free_blocks s. b \<le> c"
    and some: "balloc_scan (unat BPB) 0 b (sbsize (sblk s)) (blk s (BBLOCK b (sblk s))) = Some j"
  shows "\<exists>r s'. balloc_loop (Suc k) b ROOTDEV s = Ok (r, s') \<and> balloc_post s H n r s'"
proof -
  let ?bb = "BBLOCK b (sblk s)" let ?r = "b + of_nat j"
  note h = scan_hit [OF b(2) le some] and aj = aligned_add [OF b(2) scan_hit(1) [OF b(2) le some]]
  have bm: "?bb \<in> bitmap_blocks s" using b(1) by (auto simp: bitmap_blocks_def)
  have ar: "?bb \<notin> log_area s" "?r \<notin> log_area s" using ok bm h(2) unfolding bitmap_ok_def by blast+
  have nH: "blockno (bufs s i) \<noteq> ?bb" "blockno (bufs s i) \<noteq> ?r" if "i \<in> H" for i using H bm h(2) that by auto
  have len: "length (bm_set (blk s ?bb) j) = BSIZE" using txn_length [OF t] by simp
  obtain p s1 s2 s3 where r: "bread ROOTDEV ?bb s = Ok (p, s1)" "bdata (bufs s1 p) = blk s ?bb" "tkeep s s1"
    "log_write p (upd p (\<lambda>x. x\<lparr>bdata := bm_set (bdata x) j\<rparr>) s1) = Ok s2" "tkeep s s2" "brelse p s2 = Ok s3"
    "tkeep s s3" "txn s3 H (Suc n)" "blk s3 = (blk s)(?bb := bm_set (blk s ?bb) j)" "hkeep H s s3"
    by (rule txn_rmw [OF t nH(1) c ar(1), of "\<lambda>d. bm_set d j"]) (assumption, rule len, rule that)
  have nH3: "blockno (bufs s3 i) \<noteq> ?r" if "i \<in> H" for i using nH(2) that hkeepD [OF r(10)] by simp
  have ar3: "?r \<notin> log_area s3" using ar(2) tkeepD(4) [OF r(7)] by simp
  obtain s4 where z: "bzero ROOTDEV ?r s3 = Ok s4" "txn s4 H n" "blk s4 = (blk s3)(?r := replicate BSIZE 0)" "tkeep s3 s4" "hkeep H s3 s4"
    by (rule bzero_ok [OF r(8) nH3 c ar3]) (assumption, rule that)
  have run: "balloc_loop (Suc k) b ROOTDEV s = Ok (?r, s4)" using r z some b(1) by (simp add: tkeep_fs [OF r(3)])
  have ne: "free_blocks s \<noteq> {}" using h(2) by blast
  have "balloc_post s H n ?r s4"
    using z r(9) aj(1) [of "sblk s"] aj(2) h(3) ne tkeep_trans [OF r(7) z(4)] hkeep_trans [OF r(10) z(5)]
    unfolding balloc_post_def by simp
  then show ?thesis using run by blast
qed

lemma balloc_loop_ok:
  assumes "txn s H (Suc (Suc n))" and "card H \<le> 1" and "bitmap_ok s"
    and "\<forall>i\<in>H. blockno (bufs s i) \<notin> bitmap_blocks s \<union> free_blocks s"
    and "unat b mod 8192 = 0" and "\<forall>c\<in>free_blocks s. b \<le> c" and "unat (sbsize (sblk s)) \<le> unat b + 8192 * k"
  shows "\<exists>r s'. balloc_loop (Suc k) b ROOTDEV s = Ok (r, s') \<and> balloc_post s H n r s'"
  using assms
proof (induction k arbitrary: b s)
  case 0
  then have "\<not> b < sbsize (sblk s)" by (simp add: word_less_nat_alt)
  moreover have "free_blocks s = {}" using 0 by (force simp: free_blocks_def word_less_nat_alt word_le_nat_alt)
  ultimately show ?case using 0 txn_mono [of s H "Suc (Suc n)" n] by (simp add: balloc_post_def)
next
  case (Suc k)
  show ?case
  proof (cases "b < sbsize (sblk s)")
    case False
    then have "free_blocks s = {}" using Suc.prems(6) by (force simp: free_blocks_def)
    then show ?thesis using False Suc.prems txn_mono [of s H "Suc (Suc n)" n] by (simp add: balloc_post_def)
  next
    case True
    then have al: "aligned b" using Suc.prems(3,5) by (simp add: aligned_def bitmap_ok_def word_less_nat_alt)
    show ?thesis
    proof (cases "balloc_scan (unat BPB) 0 b (sbsize (sblk s)) (blk s (BBLOCK b (sblk s)))")
      case (Some j)
      then show ?thesis using balloc_hit [OF Suc.prems(1-4) True al Suc.prems(6)] by blast
    next
      case None
      have nH: "blockno (bufs s i) \<noteq> BBLOCK b (sblk s)" if "i \<in> H" for i
        using Suc.prems(4) True that by (auto simp: bitmap_blocks_def)
      obtain s' where m: "balloc_loop (Suc (Suc k)) b ROOTDEV s = balloc_loop (Suc k) (b + 8192) ROOTDEV s'"
        "txn s' H (Suc (Suc n))" "blk s' = blk s" "tkeep s s'" "hkeep H s s'"
        by (rule balloc_miss [OF Suc.prems(1) nH Suc.prems(2) True None]) (assumption, rule that)
      note cg = bitmap_cong [OF m(4)] and u = unat_add_small [of b 8192]
      have "\<exists>r t. balloc_loop (Suc k) (b + 8192) ROOTDEV s' = Ok (r, t) \<and> balloc_post s' H n r t"
        using Suc.prems cg m(3) hkeepD [OF m(5)] scan_miss [OF al Suc.prems(6) None] u al
        by (intro Suc.IH m(2)) (simp_all add: aligned_def tkeep_fs [OF m(4)])
      then show ?thesis unfolding m(1) using balloc_post_trans [OF m(4,5,3)] by blast
    qed
  qed
qed

lemma balloc_ok:
  assumes "txn s H (Suc (Suc n))" and "card H \<le> 1" and "bitmap_ok s"
    and "\<forall>i\<in>H. blockno (bufs s i) \<notin> bitmap_blocks s \<union> free_blocks s"
  obtains r s' where "balloc ROOTDEV s = Ok (r, s')" and "balloc_post s H n r s'"
  using balloc_loop_ok [OF assms, of 0 "Suc (unat (sbsize (sblk s)) div 8192)"] unfolding balloc_def by fastforce

text \<open>The bitmap after one of its bits has changed.\<close>

lemma bit_of_block: "BBLOCK b sb = BBLOCK c sb \<Longrightarrow> unat (b mod BPB) = unat (c mod BPB) \<Longrightarrow> b = c"
proof -
  assume a: "BBLOCK b sb = BBLOCK c sb" "unat (b mod BPB) = unat (c mod BPB)"
  then have "b div 8192 = c div 8192" by (simp add: BBLOCK_def)
  moreover have "b mod 8192 = c mod 8192" using a(2) by (simp add: word_unat_eq_iff)
  ultimately show "b = c" using word_mod_div_equality [of b 8192] word_mod_div_equality [of c 8192] by metis
qed

lemma mod_BPB_div: "unat (b mod BPB) div 8 < BSIZE"
proof -
  have "unat (b mod 8192) < 8192" by (simp add: unat_mod_distrib)
  then show ?thesis by simp
qed

lemma free_blocks_set:
  assumes "tkeep s s'" and len: "\<And>bn. length (blk s bn) = BSIZE"
    and "\<And>bn. bn \<in> bitmap_blocks s \<Longrightarrow> blk s' bn = ((blk s)(BBLOCK r (sblk s) := bm_set (blk s (BBLOCK r (sblk s))) (unat (r mod BPB)))) bn"
  shows "free_blocks s' = free_blocks s - {r}"
proof -
  have "bfree_bit s' b \<longleftrightarrow> bfree_bit s b \<and> b \<noteq> r" if "b < sbsize (sblk s)" for b
    using assms(3) [of "BBLOCK b (sblk s)"] that bit_of_block [of b "sblk s" r] bm_free_set [of "unat (r mod BPB)"] mod_BPB_div [of r] len
    by (auto simp: bfree_bit_def tkeep_fs [OF assms(1)] bitmap_blocks_def)
  then show ?thesis by (auto simp: free_blocks_def tkeep_fs [OF assms(1)])
qed

lemma free_blocks_clear:
  assumes "tkeep s s'" and len: "\<And>bn. length (blk s bn) = BSIZE" and r: "r < sbsize (sblk s)"
    and "blk s' = (blk s)(BBLOCK r (sblk s) := bm_clear (blk s (BBLOCK r (sblk s))) (unat (r mod BPB)))"
  shows "free_blocks s' = insert r (free_blocks s)"
proof -
  have "bfree_bit s' b \<longleftrightarrow> bfree_bit s b \<or> b = r" for b
    using bit_of_block [of b "sblk s" r] bm_free_clear [of "unat (r mod BPB)"] mod_BPB_div [of r] len
    by (auto simp: bfree_bit_def tkeep_fs [OF assms(1)] assms(4))
  then show ?thesis using r by (auto simp: free_blocks_def tkeep_fs [OF assms(1)])
qed

lemma balloc_post_free:
  assumes p: "balloc_post s H n r s'" and ok: "bitmap_ok s" and ne: "free_blocks s \<noteq> {}" and len: "\<And>bn. length (blk s bn) = BSIZE"
  shows "r \<in> free_blocks s" and "free_blocks s' = free_blocks s - {r}" and "blk s' r = replicate BSIZE 0"
    and "\<And>b. b \<notin> bitmap_blocks s \<Longrightarrow> b \<noteq> r \<Longrightarrow> blk s' b = blk s b" and "bitmap_ok s'"
proof -
  have k: "tkeep s s'" and r: "r = Min (free_blocks s)"
    and b: "blk s' = (blk s)(BBLOCK r (sblk s) := bm_set (blk s (BBLOCK r (sblk s))) (unat (r mod BPB)), r := replicate BSIZE 0)"
    using p ne by (simp_all add: balloc_post_def)
  show fr: "r \<in> free_blocks s" unfolding r using Min_in [OF finite ne] .
  then have nb: "r \<notin> bitmap_blocks s" using ok unfolding bitmap_ok_def by blast
  show f: "free_blocks s' = free_blocks s - {r}"
    by (rule free_blocks_set [OF k len]) (use nb b in auto)
  show "blk s' r = replicate BSIZE 0" by (simp add: b)
  show "blk s' c = blk s c" if "c \<notin> bitmap_blocks s" "c \<noteq> r" for c
    using that fr by (auto simp: b bitmap_blocks_def free_blocks_def)
  show "bitmap_ok s'"
    using ok unfolding bitmap_ok_def f bitmap_cong(1) [OF k] tkeepD(4) [OF k] tkeep_fs [OF k] by blast
qed

lemma bfree_ok:
  assumes t: "txn s H (Suc n)" and H: "\<And>i. i \<in> H \<Longrightarrow> blockno (bufs s i) \<noteq> BBLOCK b (sblk s)" and c: "card H \<le> 1"
    and ok: "bitmap_ok s" and b: "b < sbsize (sblk s)" "b \<notin> free_blocks s"
  obtains s' where "bfree ROOTDEV b s = Ok s'" and "txn s' H n" and "tkeep s s'" and "hkeep H s s'"
    and "blk s' = (blk s)(BBLOCK b (sblk s) := bm_clear (blk s (BBLOCK b (sblk s))) (unat (b mod BPB)))"
proof -
  let ?bb = "BBLOCK b (sblk s)" let ?i = "unat (b mod BPB)"
  have ar: "?bb \<notin> log_area s" using ok b(1) unfolding bitmap_ok_def bitmap_blocks_def by blast
  obtain p s1 s2 s3 where r: "bread ROOTDEV ?bb s = Ok (p, s1)" "bdata (bufs s1 p) = blk s ?bb" "tkeep s s1"
    "log_write p (upd p (\<lambda>x. x\<lparr>bdata := bm_clear (bdata x) ?i\<rparr>) s1) = Ok s2" "tkeep s s2" "brelse p s2 = Ok s3"
    "tkeep s s3" "txn s3 H n" "blk s3 = (blk s)(?bb := bm_clear (blk s ?bb) ?i)" "hkeep H s s3"
    by (rule txn_rmw [OF t H c ar, of "\<lambda>d. bm_clear d ?i"]) (assumption, simp add: txn_length [OF t, simplified], rule that)
  show ?thesis
    by (rule that [OF _ r(8,7,10,9)]) (use r b in \<open>simp add: bfree_def free_blocks_def bfree_bit_def Let_def\<close>)
qed

lemma bfree_twice:
  assumes t: "txn s H n" and H: "\<And>i. i \<in> H \<Longrightarrow> blockno (bufs s i) \<noteq> BBLOCK b (sblk s)" and c: "card H \<le> 1"
    and b: "b \<in> free_blocks s"
  shows "bfree ROOTDEV b s = Panic ''freeing free block''"
proof -
  obtain p s1 s2 where r: "bread ROOTDEV (BBLOCK b (sblk s)) s = Ok (p, s1)" "bdata (bufs s1 p) = blk s (BBLOCK b (sblk s))"
    "brelse p s1 = Ok s2" "tkeep s s1" "tkeep s s2" "txn s2 H n" "blk s2 = blk s" "hkeep H s s2"
    by (rule txn_read [OF t H c]) (assumption, rule that)
  then show ?thesis using b by (simp add: bfree_def free_blocks_def bfree_bit_def Let_def)
qed

section \<open>A disk with a file system\<close>

text \<open>
  The layout \<^verbatim>\<open>mkfs\<close> gives a disk of 2000 blocks: boot block, superblock, 30 blocks of log, 13 of
  inodes, one of bitmap, and data from block 46 on. The states below are those of a kernel that has
  just booted from the image \<open>img\<close> and opened a transaction.
\<close>

definition mkfs_sb :: superblock where
  "mkfs_sb = \<lparr>magic = FSMAGIC, sbsize = 2000, nblocks = 1954, ninodes = 200, nlog = 30, logstart = 2, inodestart = 32, bmapstart = 45\<rparr>"

definition fs_on :: "(u32 \<Rightarrow> block) \<Rightarrow> (nat \<Rightarrow> inode) \<Rightarrow> fstate" where
  "fs_on img it = binit (lstate.extend (log_boot\<lparr>disk := img\<rparr>) (fstate.fields mkfs_sb it 0 0 0))"

definition ex_bitmap :: block where
  "ex_bitmap = [255, 255, 255, 255, 255, 63] @ replicate 1018 0"

definition ex_img :: "u32 \<Rightarrow> block" where
  "ex_img = (\<lambda>_. replicate 1024 0)(45 := ex_bitmap)"

lemma fs_on_ok:
  assumes "\<And>bn. length (img bn) = BSIZE" and "get32 (img 2) 0 = 0"
  shows "txn (fs_on img it) {} 10" and "blk (fs_on img it) = img" and "sblk (fs_on img it) = mkfs_sb" and "itab (fs_on img it) = it"
    and "log_area (fs_on img it) = (\<lambda>i. 2 + of_nat i) ` {0..<30}" and "curpid (fs_on img it) = 1"
proof -
  define s where "s = lstate.extend (log_boot\<lparr>disk := img\<rparr>) (fstate.fields mkfs_sb it 0 0 0)"
  have f: "disk s = img" "lg_start s = 2" "lg_size s = 30" "lg_outstanding s = 1" "lg_dev s = ROOTDEV" "lh_n s = 0" "sblk s = mkfs_sb"
    "itab s = it" "curpid s = 1"
    by (simp_all add: s_def log_boot_def lstate.defs fstate.defs)
  have "cinv (binit s) {} {}" "blk (binit s) = disk s" "brest (binit s) = brest s"
    by (rule binit_ok; simp add: assms(1) [simplified] f; simp add: s_def log_boot_def lstate.defs fstate.defs fresh_buf_def)+
  note b = this and k = tkeep_brest [OF this(3)]
  note l = lrestD [OF brest_lrest [OF b(3)]]
  have "linvh (binit s) {} {}" by (rule linvI [OF b(1)]) (use assms(2) in \<open>simp_all add: l f tkeepD [OF k]\<close>)
  then show "txn (fs_on img it) {} 10"
    by (auto simp: txn_def fs_on_def s_def [symmetric] l f NBUF_def MAXOPBLOCKS_def)
  show "blk (fs_on img it) = img" "sblk (fs_on img it) = mkfs_sb" "itab (fs_on img it) = it" "curpid (fs_on img it) = 1"
    using b(2) tkeep_fs [OF k] tkeepD [OF k] by (simp_all add: fs_on_def s_def [symmetric] f)
  show "log_area (fs_on img it) = (\<lambda>i. 2 + of_nat i) ` {0..<30}"
    by (simp add: fs_on_def s_def [symmetric] log_area_def l f)
qed

lemma fs_ex_bitmap:
  assumes "\<And>bn. length (img bn) = BSIZE" and "get32 (img 2) 0 = 0" and "img 45 = ex_bitmap"
  shows "bitmap_ok (fs_on img it)" and "46 \<in> free_blocks (fs_on img it)" and "45 \<notin> free_blocks (fs_on img it)"
proof -
  note f = fs_on_ok [of img it, OF assms(1,2)]
  have bb: "BBLOCK b mkfs_sb = 45" if "b < 2000" for b
  proof -
    have "b div 8192 = 0" using that by (simp add: word_unat_eq_iff unat_div_distrib word_less_nat_alt)
    then show ?thesis by (simp add: BBLOCK_def mkfs_sb_def)
  qed
  have bit: "b \<in> free_blocks (fs_on img it) \<longleftrightarrow> b < 2000 \<and> bm_free ex_bitmap (unat b)" for b
  proof -
    have "b mod 8192 = b" if "b < 2000" using that by (simp add: word_unat_eq_iff unat_mod_distrib word_less_nat_alt)
    then show ?thesis using bb [of b] by (auto simp: free_blocks_def bfree_bit_def f(2,3) assms(3)) (simp_all add: mkfs_sb_def assms(3))
  qed
  show "46 \<in> free_blocks (fs_on img it)" "45 \<notin> free_blocks (fs_on img it)"
    by (simp_all add: bit bm_free_bit ex_bitmap_def bit_2p)
  have used: "\<not> bm_free ex_bitmap (unat b)" if "b \<in> log_area (fs_on img it) \<union> {45} \<union> {0}" for b
    using that by (auto simp: f(5) atLeast0LessThan lessThan_nat_numeral lessThan_Suc bm_free_bit ex_bitmap_def)
  have bm: "bitmap_blocks (fs_on img it) = {45}"
    using bb by (auto simp: bitmap_blocks_def f(3)) (auto simp: mkfs_sb_def image_iff intro!: exI [of _ 0])
  have "45 \<notin> log_area (fs_on img it)"
    by (simp add: f(5) image_iff atLeast0LessThan lessThan_nat_numeral lessThan_Suc)
  then show "bitmap_ok (fs_on img it)"
    using used used [of 0] used [of 45] by (auto simp: bitmap_ok_def bm bit f(3) mkfs_sb_def)
qed

lemma ex_img_ok: "length (ex_img bn) = BSIZE" "get32 (ex_img 2) 0 = 0" "ex_img 45 = ex_bitmap"
  using get32_zeros by (simp_all add: ex_img_def ex_bitmap_def)

lemmas fs_ex_ok = fs_on_ok [of ex_img "\<lambda>_. zero_inode", OF ex_img_ok(1,2)] fs_ex_bitmap [of ex_img "\<lambda>_. zero_inode", OF ex_img_ok]

section \<open>Properties of the allocator\<close>



text \<open>
  C34. \<^verbatim>\<open>bfree\<close> of a block that is in use, inside a transaction with room for one more block, returns with
  exactly that block added to the free ones and no other block outside the bitmap changed; \<^verbatim>\<open>bfree\<close> of a
  block that is free already panics.
\<close>

theorem bfree_correct:
  assumes "txn s {} (Suc n)" and "bitmap_ok s" and "b < sbsize (sblk s)"
  shows "if b \<in> free_blocks s then bfree ROOTDEV b s = Panic ''freeing free block''
    else \<exists>s'. bfree ROOTDEV b s = Ok s' \<and> txn s' {} n \<and> itab s' = itab s \<and> free_blocks s' = insert b (free_blocks s)
      \<and> (\<forall>c. c \<notin> bitmap_blocks s \<longrightarrow> blk s' c = blk s c)"
proof (cases "b \<in> free_blocks s")
  case True
  then show ?thesis using bfree_twice [OF assms(1)] by simp
next
  case False
  obtain s' where f: "bfree ROOTDEV b s = Ok s'" "txn s' {} n" "tkeep s s'" "hkeep {} s s'"
    "blk s' = (blk s)(BBLOCK b (sblk s) := bm_clear (blk s (BBLOCK b (sblk s))) (unat (b mod BPB)))"
    by (rule bfree_ok [OF assms(1) _ _ assms(2,3) False]) (simp, simp, rule that)
  have "free_blocks s' = insert b (free_blocks s)"
    by (rule free_blocks_clear [OF f(3) txn_length [OF assms(1)] assms(3) f(5)])
  moreover have "BBLOCK b (sblk s) \<in> bitmap_blocks s" using assms(3) by (auto simp: bitmap_blocks_def)
  ultimately show ?thesis using False f tkeep_fs [OF f(3)] by auto
qed

theorem bfree_correct_witness:
  "bfree ROOTDEV 46 (fs_on ex_img (\<lambda>_. zero_inode)) = Panic ''freeing free block'' \<and>
   (\<exists>s'. bfree ROOTDEV 45 (fs_on ex_img (\<lambda>_. zero_inode)) = Ok s' \<and> 45 \<in> free_blocks s')"
proof -
  have t: "txn (fs_on ex_img (\<lambda>_. zero_inode)) {} (Suc 9)" using fs_ex_ok(1) by (simp add: numeral_eq_Suc)
  note c = bfree_correct [OF t fs_ex_ok(7)]
  show ?thesis using c [of 46] c [of 45] fs_ex_ok(3,8,9) by (auto simp: mkfs_sb_def)
qed

end
