(* ===== verification/Inode.thy ===== *)
theory Inode
  imports Txn
begin

text \<open>
  The inodes of \<^verbatim>\<open>kernel/fs.c\<close>: what \<^verbatim>\<open>iupdate\<close> writes is what \<^verbatim>\<open>ilock\<close> reads, the inode table keeps one
  entry per inode and counts its references, and how \<^verbatim>\<open>bmap\<close>, \<^verbatim>\<open>readi\<close> and the directory operations act
  on the contents of a file, seen through the cache.
\<close>

section \<open>Inodes on disk\<close>

text \<open>The fields of \<^verbatim>\<open>struct inode\<close> that are a copy of the disk inode.\<close>

definition dcopy :: "inode \<Rightarrow> u16 \<times> u16 \<times> u16 \<times> u16 \<times> u32 \<times> u32 list" where
  "dcopy ip = (itype ip, imajor ip, iminor ip, inlink ip, isize ip, map (iaddrs ip) [0..<NDIRECT + 1])"

lemma get16_put32_other:
  "off + 4 \<le> length d \<Longrightarrow> off' + 2 \<le> length d \<Longrightarrow> off' + 2 \<le> off \<or> off + 4 \<le> off' \<Longrightarrow> get16 (put32 d off v) off' = get16 d off'"
  by (simp add: get16_def put32_def get_put_other)

lemma get16_put16_other:
  "off + 2 \<le> length d \<Longrightarrow> off' + 2 \<le> length d \<Longrightarrow> off' + 2 \<le> off \<or> off + 2 \<le> off' \<Longrightarrow> get16 (put16 d off v) off' = get16 d off'"
  by (simp add: get16_def put16_def get_put_other)

lemmas get_puts = get32_put32 get16_put16 get32_put32_other get16_put32_other get16_put16_other

definition put_addrs :: "nat \<Rightarrow> (nat \<Rightarrow> u32) \<Rightarrow> nat list \<Rightarrow> block \<Rightarrow> block" where
  "put_addrs off f is d = fold (\<lambda>i d. put32 d (off + 4 * i) (f i)) is d"

lemma put_addrs_simps [simp]:
  "put_addrs off f [] d = d" "put_addrs off f (i # is) d = put_addrs off f is (put32 d (off + 4 * i) (f i))"
  by (simp_all add: put_addrs_def)

lemma length_put_addrs: "\<forall>i\<in>set is. off + 4 * i + 4 \<le> length d \<Longrightarrow> length (put_addrs off f is d) = length d"
  by (induction "is" arbitrary: d) simp_all

lemma get_bytes_put_addrs:
  "\<forall>i\<in>set is. off + 4 * i + 4 \<le> length d \<and> (o' + n \<le> off + 4 * i \<or> off + 4 * i + 4 \<le> o') \<Longrightarrow> o' + n \<le> length d \<Longrightarrow>
     get_bytes (put_addrs off f is d) o' n = get_bytes d o' n"
  by (induction "is" arbitrary: d) (simp_all add: put32_def get_put_other)

lemma get32_put_addrs:
  "\<forall>i\<in>set is. off + 4 * i + 4 \<le> length d \<Longrightarrow> distinct is \<Longrightarrow> j \<in> set is \<Longrightarrow> get32 (put_addrs off f is d) (off + 4 * j) = f j"
proof (induction "is" arbitrary: d)
  case (Cons i xs)
  let ?d = "put32 d (off + 4 * i) (f i)"
  have len: "length ?d = length d" using Cons.prems(1) by simp
  show ?case
  proof (cases "j = i")
    case True
    have "off + 4 * i + 4 \<le> off + 4 * k \<or> off + 4 * k + 4 \<le> off + 4 * i" if "k \<in> set xs" for k
      using Cons.prems(2) that by (cases k i rule: linorder_cases) auto
    then have "get_bytes (put_addrs off f xs ?d) (off + 4 * i) 4 = get_bytes ?d (off + 4 * i) 4"
      by (intro get_bytes_put_addrs) (use Cons.prems len in auto)
    then show ?thesis using True Cons.prems(1) get32_put32 [of "off + 4 * i" d "f i"] by (simp add: get32_def)
  next
    case False
    then show ?thesis using Cons.IH [of ?d] Cons.prems len by simp
  qed
qed simp

lemma dinode_store_eq:
  "dinode_store ip off d = put_addrs (off + 12) (iaddrs ip) [0..<13]
     (put32 (put16 (put16 (put16 (put16 d off (itype ip)) (off + 2) (imajor ip)) (off + 4) (iminor ip)) (off + 6) (inlink ip)) (off + 8) (isize ip))"
  by (simp add: dinode_store_def put_addrs_def)

lemma length_dinode_store: "off + 64 \<le> length d \<Longrightarrow> length (dinode_store ip off d) = length d"
  unfolding dinode_store_eq by (subst length_put_addrs) auto

text \<open>Storing an inode and loading it back, and what storing leaves of the rest of the block.\<close>

lemma load_store_dinode:
  assumes "off + 64 \<le> length d"
  shows "dcopy (dinode_load (dinode_store ip off d) off jp) = dcopy ip"
proof -
  define e where "e = put32 (put16 (put16 (put16 (put16 d off (itype ip)) (off + 2) (imajor ip)) (off + 4) (iminor ip)) (off + 6) (inlink ip)) (off + 8) (isize ip)"
  have len: "length e = length d" using assms by (simp add: e_def)
  have st: "dinode_store ip off d = put_addrs (off + 12) (iaddrs ip) [0..<13] e" by (simp add: dinode_store_eq e_def)
  have same: "get_bytes (dinode_store ip off d) o' n = get_bytes e o' n" if "o' + n \<le> off + 12" for o' n
    unfolding st by (rule get_bytes_put_addrs) (use assms that len in auto)
  have "get16 e off = itype ip" "get16 e (off + 2) = imajor ip" "get16 e (off + 4) = iminor ip" "get16 e (off + 6) = inlink ip"
    "get32 e (off + 8) = isize ip"
    using assms by (simp_all add: e_def get_puts)
  moreover have "get32 (dinode_store ip off d) (off + 12 + 4 * i) = iaddrs ip i" if "i < 13" for i
    unfolding st by (rule get32_put_addrs) (use assms that len in auto)
  ultimately show ?thesis
    by (auto simp: dcopy_def dinode_load_def get16_def get32_def same)
qed

lemma store_dinode_other:
  assumes "off + 64 \<le> length d" and "o' + n \<le> length d" and "o' + n \<le> off \<or> off + 64 \<le> o'"
  shows "get_bytes (dinode_store ip off d) o' n = get_bytes d o' n"
proof -
  have "get_bytes (dinode_store ip off d) o' n = get_bytes (put32 (put16 (put16 (put16 (put16 d off (itype ip)) (off + 2) (imajor ip)) (off + 4) (iminor ip)) (off + 6) (inlink ip)) (off + 8) (isize ip)) o' n"
    unfolding dinode_store_eq by (rule get_bytes_put_addrs) (use assms in auto)
  also have "\<dots> = get_bytes d o' n"
    using assms(3) by (rule disjE) (use assms(1,2) in \<open>simp_all add: put32_def put16_def get_put_other\<close>)
  finally show ?thesis .
qed

lemma dip_off_bound: "dip_off i + 64 \<le> BSIZE"
proof -
  have "unat (i mod 16) < 16" by (simp add: unat_mod_distrib)
  then show ?thesis by (simp add: dip_off_def)
qed
lemma iupdate_ok:
  assumes t: "txn s H (Suc n)" and dev: "idev (itab s ip) = ROOTDEV"
    and area: "IBLOCK (inum (itab s ip)) (sblk s) \<notin> log_area s" and c: "card H \<le> 1"
    and H: "\<And>i. i \<in> H \<Longrightarrow> blockno (bufs s i) \<noteq> IBLOCK (inum (itab s ip)) (sblk s)"
  obtains s' where "iupdate ip s = Ok s'" and "txn s' H n" and "tkeep s s'" and "hkeep H s s'"
    and "blk s' = (blk s)(IBLOCK (inum (itab s ip)) (sblk s) :=
      dinode_store (itab s ip) (dip_off (inum (itab s ip))) (blk s (IBLOCK (inum (itab s ip)) (sblk s))))"
proof -
  let ?x = "itab s ip" let ?b = "IBLOCK (inum ?x) (sblk s)" let ?f = "dinode_store ?x (dip_off (inum ?x))"
  have len: "length (?f (blk s ?b)) = BSIZE"
    using length_dinode_store [of "dip_off (inum ?x)" "blk s ?b"] txn_length [OF t, of ?b] dip_off_bound by simp
  obtain p s1 s2 s3 where r: "bread ROOTDEV ?b s = Ok (p, s1)" "bdata (bufs s1 p) = blk s ?b" "tkeep s s1"
    "log_write p (upd p (\<lambda>x. x\<lparr>bdata := ?f (bdata x)\<rparr>) s1) = Ok s2" "tkeep s s2" "brelse p s2 = Ok s3"
    "tkeep s s3" "txn s3 H n" "blk s3 = (blk s)(?b := ?f (blk s ?b))" "hkeep H s s3"
    by (rule txn_rmw [OF t H c area, of ?f]) (assumption, rule len, rule that)
  show ?thesis by (rule that [OF _ r(8,7,10,9)]) (use r dev in \<open>simp add: iupdate_def Let_def\<close>)
qed

text \<open>Changing the inode table leaves a transaction alone.\<close>

lemma updi_fields [simp]:
  "sblk (updi i f s) = sblk s" "itab (updi i f s) = (itab s)(i := f (itab s i))" "bufs (updi i f s) = bufs s" "disk (updi i f s) = disk s"
  "curpid (updi i f s) = curpid s" "pmem (updi i f s) = pmem s" "log_area (updi i f s) = log_area s"
  "cur_pt (updi i f s) = cur_pt s" "cur_cwd (updi i f s) = cur_cwd s" "kscr (updi i f s) = kscr s"
  "lg_start (updi i f s) = lg_start s" "lg_size (updi i f s) = lg_size s" "lg_dev (updi i f s) = lg_dev s" "lh_n (updi i f s) = lh_n s"
  "lh_block (updi i f s) = lh_block s" "lg_outstanding (updi i f s) = lg_outstanding s"
  by (simp_all add: updi_def log_area_def)

lemma blk_updi [simp]: "blk (updi i f s) = blk s"
  by (rule ext) (simp add: blk_def split: option.split)

lemma cinv_updi [simp]: "cinv (updi i f s) H P = cinv s H P"
  by (simp add: cinv_def lru_def nx_def pv_def)

lemma linvh_updi [simp]: "linvh (updi i f s) H P = linvh s H P"
  by (simp add: linvh_def)

lemma txn_updi [simp]: "txn (updi i f s) H n = txn s H n"
  by (simp add: txn_def)

lemma bitmap_updi [simp]:
  "bitmap_blocks (updi i f s) = bitmap_blocks s" "free_blocks (updi i f s) = free_blocks s" "bitmap_ok (updi i f s) = bitmap_ok s"
  by (simp_all add: bitmap_blocks_def free_blocks_def bfree_bit_def bitmap_ok_def)

lemma ilock_ok:
  assumes t: "txn s {} n" and ref: "1 \<le> iref (itab s ip)" and free: "\<not> slocked (ilk (itab s ip))" and inval: "\<not> ivalid (itab s ip)"
    and dev: "idev (itab s ip) = ROOTDEV" 
    and ty: "get16 (blk s (IBLOCK (inum (itab s ip)) (sblk s))) (dip_off (inum (itab s ip))) \<noteq> 0"
  obtains s' where "ilock ip s = Ok s'" and "txn s' {} n" and "blk s' = blk s" and "sblk s' = sblk s"
    and "dcopy (itab s' ip) = dcopy (dinode_load (blk s (IBLOCK (inum (itab s ip)) (sblk s))) (dip_off (inum (itab s ip))) (itab s ip))"
    and "ivalid (itab s' ip)" and "holdingsleep (curpid s) (ilk (itab s' ip))"
    and "inum (itab s' ip) = inum (itab s ip)" and "idev (itab s' ip) = idev (itab s ip)" and "iref (itab s' ip) = iref (itab s ip)"
    and "\<And>j. j \<noteq> ip \<Longrightarrow> itab s' j = itab s j"
proof -
  let ?x = "itab s ip" let ?b = "IBLOCK (inum ?x) (sblk s)" let ?o = "dip_off (inum ?x)"
  let ?lk = "(ilk ?x)\<lparr>slocked := True, slpid := curpid s\<rparr>"
  define s0 where "s0 = updi ip (\<lambda>x. x\<lparr>ilk := ?lk\<rparr>) s"
  have t0: "txn s0 {} n" using t by (simp add: s0_def)
  obtain p s1 where r: "bread ROOTDEV ?b s0 = Ok (p, s1)" "txn s1 {p} n" "blockno (bufs s1 p) = ?b" "bdata (bufs s1 p) = blk s0 ?b"
    "blk s1 = blk s0" "tkeep s0 s1" "others p s0 s1"
    by (rule txn_bread [OF t0, of ?b]) (simp, simp, rule that)
  define s2 where "s2 = updi ip (dinode_load (bdata (bufs s1 p)) ?o) s1"
  have t2: "txn s2 {p} n" using r(2) by (simp add: s2_def)
  obtain s3 where e: "brelse p s2 = Ok s3" "txn s3 ({p} - {p}) n" "blk s3 = blk s2" "tkeep s2 s3" "others p s2 s3"
    by (rule txn_brelse [OF t2 insertI1]) (rule that)
  define s4 where "s4 = updi ip (\<lambda>x. x\<lparr>ivalid := True\<rparr>) s3"
  note f = tkeep_fs [OF r(6)] tkeep_fs [OF e(4)]
  have x4: "itab s4 = (itab s)(ip := (dinode_load (blk s ?b) ?o (?x\<lparr>ilk := ?lk\<rparr>))\<lparr>ivalid := True\<rparr>)"
    using f r(4) by (simp add: s4_def s2_def s0_def)
  have run: "ilock ip s = Ok s4"
    using ref free inval dev ty r(1,4) e(1) x4 f
    by (simp add: ilock_def acquiresleep_def Let_def s0_def [symmetric] s2_def [symmetric] s4_def [symmetric] dinode_load_def)
      (simp add: s0_def s2_def s4_def dinode_load_def)
  show ?thesis
    by (rule that [OF run]) (use r e f in \<open>simp_all add: x4 dcopy_def dinode_load_def holdingsleep_def s4_def s2_def s0_def\<close>)
qed

text \<open>
  C8. What \<^verbatim>\<open>iupdate\<close> writes is what \<^verbatim>\<open>ilock\<close> reads. After \<^verbatim>\<open>iupdate\<close> of an inode of the root device, any
  table entry that is recycled for the same inode (referenced, unlocked, not yet valid) is filled by
  \<^verbatim>\<open>ilock\<close> with the same type, device numbers, link count, size and block addresses, and is valid and
  locked by the caller.
\<close>

theorem iupdate_ilock:
  assumes "txn s {} (Suc n)" and "idev (itab s ip) = ROOTDEV" and "itype (itab s ip) \<noteq> 0"
    and "IBLOCK (inum (itab s ip)) (sblk s) \<notin> log_area s"
    and "idev y = ROOTDEV" and "inum y = inum (itab s ip)" and "1 \<le> iref y" and "\<not> slocked (ilk y)" and "\<not> ivalid y"
  shows "\<exists>s1 s2. iupdate ip s = Ok s1 \<and> itab s1 = itab s \<and> ilock jp (updi jp (\<lambda>_. y) s1) = Ok s2
    \<and> dcopy (itab s2 jp) = dcopy (itab s ip) \<and> ivalid (itab s2 jp) \<and> holdingsleep (curpid s) (ilk (itab s2 jp)) \<and> blk s2 = blk s1"
proof -
  let ?b = "IBLOCK (inum (itab s ip)) (sblk s)" let ?o = "dip_off (inum (itab s ip))"
  obtain s1 where u: "iupdate ip s = Ok s1" "txn s1 {} n" "tkeep s s1" "blk s1 = (blk s)(?b := dinode_store (itab s ip) ?o (blk s ?b))"
    by (rule iupdate_ok [OF assms(1,2,4)]) (simp, simp, rule that)
  note f = tkeep_fs [OF u(3)] and lb = txn_length [OF assms(1), of ?b]
  have off: "?o + 64 \<le> length (blk s ?b)" using dip_off_bound [of "inum (itab s ip)"] lb by simp
  note rt = load_store_dinode [OF off]
  define t where "t = updi jp (\<lambda>_. y) s1"
  have t: "txn t {} n" "blk t = blk s1" "itab t jp = y" "sblk t = sblk s" "curpid t = curpid s"
    using u(2) f tkeepD [OF u(3)] by (simp_all add: t_def)
  have ty: "get16 (blk t (IBLOCK (inum (itab t jp)) (sblk t))) (dip_off (inum (itab t jp))) \<noteq> 0"
    using rt [of "itab s ip" "itab s ip"] assms(3,6) by (simp add: t u(4) dcopy_def dinode_load_def)
  obtain s2 where l: "ilock jp t = Ok s2" "blk s2 = blk t"
    "dcopy (itab s2 jp) = dcopy (dinode_load (blk t (IBLOCK (inum (itab t jp)) (sblk t))) (dip_off (inum (itab t jp))) (itab t jp))"
    "ivalid (itab s2 jp)" "holdingsleep (curpid t) (ilk (itab s2 jp))"
    by (rule ilock_ok [OF t(1) _ _ _ _ ty]) (use assms t in simp_all)
  show ?thesis
    using u(1) l f rt [of "itab s ip" y] assms(6) by (auto simp: t u(4) t_def [symmetric])
qed

definition ex_inode :: inode where
  "ex_inode = zero_inode\<lparr>idev := ROOTDEV, inum := 5, iref := 1, ivalid := True, itype := T_FILE, inlink := 1, isize := 40, iaddrs := (\<lambda>_. 0)(0 := 46)\<rparr>"

lemma ex_inode_fields:
  "idev ex_inode = ROOTDEV" "inum ex_inode = 5" "iref ex_inode = 1" "\<not> slocked (ilk ex_inode)" "itype ex_inode = 2" "ivalid ex_inode"
  by (simp_all add: ex_inode_def zero_inode_def)

theorem iupdate_ilock_witness:
  "\<exists>s1 s2. iupdate 3 (fs_on ex_img (\<lambda>_. ex_inode)) = Ok s1 \<and> ilock 3 (updi 3 (\<lambda>_. ex_inode\<lparr>ivalid := False, isize := 0\<rparr>) s1) = Ok s2
    \<and> isize (itab s2 3) = 40 \<and> iaddrs (itab s2 3) 0 = 46"
proof -
  note f = fs_on_ok [of ex_img "\<lambda>_. ex_inode", OF ex_img_ok(1,2)]
  have t: "txn (fs_on ex_img (\<lambda>_. ex_inode)) {} (Suc 9)" using f(1) by (simp add: numeral_eq_Suc)
  have i: "IBLOCK 5 mkfs_sb = 32" by (simp add: IBLOCK_def mkfs_sb_def)
  obtain s1 s2 where "iupdate 3 (fs_on ex_img (\<lambda>_. ex_inode)) = Ok s1"
    "ilock 3 (updi 3 (\<lambda>_. ex_inode\<lparr>ivalid := False, isize := 0\<rparr>) s1) = Ok s2" "dcopy (itab s2 3) = dcopy ex_inode"
    using iupdate_ilock [OF t, of 3 "ex_inode\<lparr>ivalid := False, isize := 0\<rparr>" 3]
    by (auto simp: f(3,4,5) i ex_inode_fields image_iff atLeast0LessThan lessThan_nat_numeral lessThan_Suc)
  then show ?thesis by (auto simp: dcopy_def ex_inode_def upt_rec)
qed

section \<open>The inode table\<close>

text \<open>
  The table has at most one entry in use per inode, and no reference count is negative; \<open>irefs\<close> is the
  number of references the table holds for an inode.
\<close>

definition itab_ok :: "(nat \<Rightarrow> inode) \<Rightarrow> bool" where
  "itab_ok t \<longleftrightarrow> (\<forall>i<NINODE. 0 \<le> iref (t i))
     \<and> (\<forall>i<NINODE. \<forall>j<NINODE. 0 < iref (t i) \<and> 0 < iref (t j) \<and> idev (t i) = idev (t j) \<and> inum (t i) = inum (t j) \<longrightarrow> i = j)"

definition irefs1 :: "inode \<Rightarrow> u32 \<Rightarrow> u32 \<Rightarrow> int" where
  "irefs1 x dev i = (if idev x = dev \<and> inum x = i then iref x else 0)"

definition irefs :: "(nat \<Rightarrow> inode) \<Rightarrow> u32 \<Rightarrow> u32 \<Rightarrow> int" where
  "irefs t dev i = (\<Sum>ip<NINODE. irefs1 (t ip) dev i)"

lemma itab_okI:
  assumes t: "itab_ok t" and x: "0 \<le> iref x"
    and "\<And>j. j < NINODE \<Longrightarrow> j \<noteq> ip \<Longrightarrow> 0 < iref (t j) \<Longrightarrow> 0 < iref x \<Longrightarrow> \<not> (idev (t j) = idev x \<and> inum (t j) = inum x)"
  shows "itab_ok (t(ip := x))"
proof -
  have u: "i < NINODE \<Longrightarrow> j < NINODE \<Longrightarrow> 0 < iref (t i) \<Longrightarrow> 0 < iref (t j) \<Longrightarrow> idev (t i) = idev (t j) \<Longrightarrow> inum (t i) = inum (t j) \<Longrightarrow> i = j" for i j
    using t unfolding itab_ok_def by blast
  have "i = j" if "i < NINODE" "j < NINODE" "0 < iref ((t(ip := x)) i)" "0 < iref ((t(ip := x)) j)"
    "idev ((t(ip := x)) i) = idev ((t(ip := x)) j)" "inum ((t(ip := x)) i) = inum ((t(ip := x)) j)" for i j
    using that u [of i j] assms(3) [of i] assms(3) [of j] by (cases "i = ip"; cases "j = ip"; simp; metis)
  then show ?thesis using t x unfolding itab_ok_def by auto
qed

lemma irefs_upd:
  assumes "ip < NINODE"
  shows "irefs (t(ip := x)) dev i = irefs t dev i - irefs1 (t ip) dev i + irefs1 x dev i"
proof -
  have "(\<Sum>k<NINODE. irefs1 (f k) dev i) = irefs1 (f ip) dev i + (\<Sum>k\<in>{..<NINODE} - {ip}. irefs1 (f k) dev i)" for f
    using assms by (intro sum.remove) auto
  from this [of t] this [of "t(ip := x)"] show ?thesis by (simp add: irefs_def)
qed

lemma iget_ok:
  assumes t: "itab_ok (itab s)"
  shows "case iget dev i s of
      Ok (ip, s') \<Rightarrow> itab_ok (itab s') \<and> ip < NINODE \<and> idev (itab s' ip) = dev \<and> inum (itab s' ip) = i \<and> 0 < iref (itab s' ip)
        \<and> (\<forall>d j. irefs (itab s') d j = irefs (itab s) d j + of_bool (d = dev \<and> j = i)) \<and> blk s' = blk s
    | Panic m \<Rightarrow> m = ''iget: no inodes'' \<and> (\<forall>ip<NINODE. iref (itab s ip) \<noteq> 0)
    | Blocks \<Rightarrow> False"
proof (cases "find (\<lambda>ip. iref (itab s ip) > 0 \<and> idev (itab s ip) = dev \<and> inum (itab s ip) = i) [0..<NINODE]")
  case (Some ip)
  let ?x = "itab s ip"
  have ip: "ip < NINODE" "0 < iref ?x" "idev ?x = dev" "inum ?x = i" using find_upt_Some [OF Some] by simp_all
  have "itab_ok ((itab s)(ip := ?x\<lparr>iref := iref ?x + 1\<rparr>))"
    by (rule itab_okI [OF t]) (use t ip in \<open>auto simp: itab_ok_def\<close>)
  then show ?thesis using Some ip irefs_upd [OF ip(1), of "itab s" "?x\<lparr>iref := iref ?x + 1\<rparr>"] by (simp add: iget_def irefs1_def)
next
  case None
  then have no: "\<not> (0 < iref (itab s j) \<and> idev (itab s j) = dev \<and> inum (itab s j) = i)" if "j < NINODE" for j
    using that by (auto simp: find_None_iff)
  show ?thesis
  proof (cases "find (\<lambda>ip. iref (itab s ip) = 0) [0..<NINODE]")
    case full: None
    then have "\<forall>ip<NINODE. iref (itab s ip) \<noteq> 0" by (auto simp: find_None_iff)
    then show ?thesis using None full by (simp add: iget_def)
  next
    case (Some ip)
    let ?x = "(itab s ip)\<lparr>idev := dev, inum := i, iref := 1, ivalid := False\<rparr>"
    have ip: "ip < NINODE" "iref (itab s ip) = 0" using find_upt_Some [OF Some] by simp_all
    have "itab_ok ((itab s)(ip := ?x))" by (rule itab_okI [OF t]) (use no in auto)
    moreover have "irefs ((itab s)(ip := ?x)) d j = irefs (itab s) d j + of_bool (d = dev \<and> j = i)" for d j
      using irefs_upd [OF ip(1), of "itab s" ?x d j] ip(2) by (auto simp: irefs1_def)
    ultimately show ?thesis using None Some ip by (simp add: iget_def)
  qed
qed

lemma iref_change_ok:
  assumes t: "itab_ok t" and ip: "ip < NINODE" "0 < iref (t ip)" and x: "idev x = idev (t ip)" "inum x = inum (t ip)" "0 \<le> iref x"
  shows "itab_ok (t(ip := x))"
    and "irefs (t(ip := x)) dev i = irefs t dev i + (if dev = idev x \<and> i = inum x then iref x - iref (t ip) else 0)"
proof -
  show "itab_ok (t(ip := x))"
    by (rule itab_okI [OF t x(3)]) (use t ip x in \<open>auto simp: itab_ok_def\<close>)
  show "irefs (t(ip := x)) dev i = irefs t dev i + (if dev = idev x \<and> i = inum x then iref x - iref (t ip) else 0)"
    using irefs_upd [OF ip(1), of t x] x by (simp add: irefs1_def)
qed



end
