(* ===== verification/Readi.thy ===== *)
theory Readi
  imports Inode
begin

text \<open>
  The contents of a file. \<open>fblock f a k\<close> is the block that holds part \<open>k\<close> of the file with the disk inode
  \<open>a\<close>, through the direct addresses and the indirect block, where \<open>f\<close> are the contents of the blocks; and
  \<open>fbyte\<close> is a byte of the file. \<^verbatim>\<open>bmap\<close> of a part that is there, and \<^verbatim>\<open>readi\<close> into kernel memory, are
  shown to return exactly these.
\<close>

section \<open>Files as bytes\<close>

definition fblock :: "(u32 \<Rightarrow> block) \<Rightarrow> inode \<Rightarrow> nat \<Rightarrow> u32" where
  "fblock f a k = (if k < NDIRECT then iaddrs a k
     else if iaddrs a NDIRECT = 0 then 0 else get32 (f (iaddrs a NDIRECT)) (4 * (k - NDIRECT)))"

definition fbyte :: "(u32 \<Rightarrow> block) \<Rightarrow> inode \<Rightarrow> nat \<Rightarrow> byte" where
  "fbyte f a i = f (fblock f a (i div BSIZE)) ! (i mod BSIZE)"

definition fdata :: "(u32 \<Rightarrow> block) \<Rightarrow> inode \<Rightarrow> byte list" where
  "fdata f a = map (fbyte f a) [0..<unat (isize a)]"

text \<open>Every part of the file from byte \<open>lo\<close> up to byte \<open>hi\<close> has a block.\<close>

definition fmapped :: "(u32 \<Rightarrow> block) \<Rightarrow> inode \<Rightarrow> nat \<Rightarrow> nat \<Rightarrow> bool" where
  "fmapped f a lo hi \<longleftrightarrow> (\<forall>i. lo \<le> i \<longrightarrow> i < hi \<longrightarrow> i div BSIZE < MAXFILE \<and> fblock f a (i div BSIZE) \<noteq> 0)"

lemma dcopy_addrs: "dcopy a = dcopy b \<Longrightarrow> i \<le> NDIRECT \<Longrightarrow> iaddrs a i = iaddrs b i"
  by (auto simp: dcopy_def)

lemma dcopy_fblock: "dcopy a = dcopy b \<Longrightarrow> fblock f a = fblock f b"
  using dcopy_addrs [of a b] by (auto simp: fblock_def)

lemma dcopy_fdata: "dcopy a = dcopy b \<Longrightarrow> fbyte f a = fbyte f b \<and> fdata f a = fdata f b \<and> fmapped f a = fmapped f b"
  using dcopy_fblock [of a b f] by (auto simp: fbyte_def fdata_def fmapped_def fun_eq_iff dcopy_def)

lemma get_bytes_map: "off + n \<le> length d \<Longrightarrow> get_bytes d off n = map (\<lambda>i. d ! i) [off..<off + n]"
  by (rule nth_equalityI) (auto simp: get_bytes_def)

text \<open>The bytes of one block.\<close>

lemma fbyte_chunk:
  assumes "i mod BSIZE + n \<le> BSIZE" and "length (f (fblock f a (i div BSIZE))) = BSIZE"
  shows "get_bytes (f (fblock f a (i div BSIZE))) (i mod BSIZE) n = map (fbyte f a) [i..<i + n]"
proof -
  have "(i + j) div BSIZE = i div BSIZE" "(i + j) mod BSIZE = i mod BSIZE + j" if "j < n" for j
  proof -
    define q r where "q = i div 1024" and "r = i mod 1024"
    have i: "i = 1024 * q + r" by (simp add: q_def r_def)
    have "r + j < 1024" using assms(1) that by (simp add: r_def)
    then show "(i + j) div BSIZE = i div BSIZE" "(i + j) mod BSIZE = i mod BSIZE + j" by (simp_all add: i add.assoc)
  qed
  then show ?thesis
    using assms by (intro nth_equalityI) (auto simp: get_bytes_def fbyte_def)
qed

lemma store_append:
  assumes "length xs + length ys \<le> 2 ^ 64"
  shows "store (store m a xs) (a + of_nat (length xs)) ys = store m a (xs @ ys)"
proof
  fix x
  let ?n = "of_nat (length xs) :: u64"
  show "store (store m a xs) (a + ?n) ys x = store m a (xs @ ys) x"
  proof (cases "length xs = 2 ^ 64")
    case True
    then show ?thesis using assms by simp
  next
    case False
    then have n: "unat ?n = length xs" using assms by (simp add: unat_of_nat take_bit_nat_eq_self)
    have e: "x - (a + ?n) = x - a - ?n" by simp
    show ?thesis
    proof (cases "unat (x - a) < length xs")
      case True
      then have "\<not> unat (x - a - ?n) < length ys"
        using n assms by (simp add: unat_sub_if' word_le_nat_alt)
      then show ?thesis using True by (simp add: store_def nth_append e)
    next
      case False
      then have "unat (x - a - ?n) = unat (x - a) - length xs" using n by (simp add: unat_sub word_le_nat_alt)
      then show ?thesis using False by (auto simp: store_def nth_append e)
    qed
  qed
qed

section \<open>bmap and readi\<close>

lemma pmem_update [simp]:
  "blk (s\<lparr>pmem := m\<rparr>) = blk s" "txn (s\<lparr>pmem := m\<rparr>) H n = txn s H n"
proof -
  show "blk (s\<lparr>pmem := m\<rparr>) = blk s" by (rule ext) (simp add: blk_def split: option.split)
  have "cinv (s\<lparr>pmem := m\<rparr>) H P = cinv s H P" for P by (simp add: cinv_def lru_def nx_def pv_def)
  then show "txn (s\<lparr>pmem := m\<rparr>) H n = txn s H n" by (simp add: txn_def linvh_def log_area_def)
qed

lemma bmap_mapped:
  assumes t: "txn s {} w" and dev: "idev (itab s ip) = ROOTDEV" and k: "unat bn < MAXFILE" "fblock (blk s) (itab s ip) (unat bn) \<noteq> 0"
  obtains s' where "bmap ip bn s = Ok (fblock (blk s) (itab s ip) (unat bn), s')" and "txn s' {} w" and "blk s' = blk s" and "tkeep s s'"
proof (cases "unat bn < NDIRECT")
  case True
  then show ?thesis using k t by (intro that [of s]) (simp_all add: bmap_def fblock_def Let_def)
next
  case False
  let ?a = "iaddrs (itab s ip) NDIRECT"
  have a: "?a \<noteq> 0" "get32 (blk s ?a) (4 * (unat bn - NDIRECT)) \<noteq> 0" using False k(2) by (simp_all add: fblock_def split: if_splits)
  obtain b s1 s2 where r: "bread ROOTDEV ?a s = Ok (b, s1)" "bdata (bufs s1 b) = blk s ?a" "brelse b s1 = Ok s2"
    "tkeep s s1" "tkeep s s2" "txn s2 {} w" "blk s2 = blk s"
    by (rule txn_read [OF t, of ?a]) (simp, simp, rule that)
  have "bmap ip bn s = Ok (fblock (blk s) (itab s ip) (unat bn), s2)"
    using False k(1) a r dev by (simp add: bmap_def fblock_def Let_def)
  then show ?thesis by (rule that) (use r in simp_all)
qed
text \<open>The state after a copy into kernel memory: only memory has changed.\<close>

definition mkeep :: "'z fstate_scheme \<Rightarrow> 'z fstate_scheme \<Rightarrow> bool" where
  "mkeep s s' \<longleftrightarrow> tkeep (s\<lparr>pmem := pmem s'\<rparr>) s'"

lemma mkeep_tkeep: "tkeep s s' \<Longrightarrow> mkeep s s'"
  using tkeepD(3) [of s s'] by (simp add: mkeep_def tkeep_def)

lemma mkeep_pmem: "mkeep s (s\<lparr>pmem := m\<rparr>)"
  by (simp add: mkeep_def)

lemma mkeep_trans: "mkeep s t \<Longrightarrow> mkeep t u \<Longrightarrow> mkeep s u"
  by (simp add: mkeep_def tkeep_def)

lemma mkeep_fs: "mkeep s s' \<Longrightarrow> sblk s' = sblk s \<and> itab s' = itab s \<and> cur_pt s' = cur_pt s \<and> cur_cwd s' = cur_cwd s \<and> kscr s' = kscr s"
  using tkeep_fs [of "s\<lparr>pmem := pmem s'\<rparr>" s'] by (simp add: mkeep_def)

text \<open>One iteration moves \<open>m\<close> bytes, which lie in one block.\<close>

lemma rw_m_nat:
  assumes "tot < n"
  shows "unat (rw_m n tot off) = min (unat n - unat tot) (BSIZE - unat off mod BSIZE)" and "0 < unat (rw_m n tot off)"
proof -
  have l: "unat off mod 1024 < 1024" by simp
  have b: "unat (1024 - off mod 1024) = 1024 - unat off mod 1024"
    using l by (subst unat_sub) (simp_all add: word_le_nat_alt unat_mod_distrib)
  have t: "unat (n - tot) = unat n - unat tot" using assms by (simp add: unat_sub word_less_nat_alt word_le_nat_alt)
  show e: "unat (rw_m n tot off) = min (unat n - unat tot) (BSIZE - unat off mod BSIZE)"
    using b t by (auto simp: rw_m_def min_def word_le_nat_alt)
  then show "0 < unat (rw_m n tot off)" using assms l by (simp add: word_less_nat_alt)
qed

lemma readi_step:
  assumes t: "txn s {} w" and dev: "idev (itab s ip) = ROOTDEV" and tot: "tot < n"
    and map: "unat off div BSIZE < MAXFILE" "fblock (blk s) (itab s ip) (unat off div BSIZE) \<noteq> 0"
  defines "m \<equiv> rw_m n tot off"
  obtains s' where "readi_loop (Suc k) ip False dst off n tot s = readi_loop k ip False (dst + ucast m) (off + m) n (tot + m) s'"
    and "txn s' {} w" and "blk s' = blk s" and "mkeep s s'"
    and "pmem s' = store (pmem s) dst (map (fbyte (blk s) (itab s ip)) [unat off..<unat off + unat m])"
proof -
  let ?a = "itab s ip" let ?bn = "off div of_nat BSIZE" let ?b = "fblock (blk s) ?a (unat off div BSIZE)"
  have ub: "unat ?bn = unat off div BSIZE" "unat (off mod of_nat BSIZE) = unat off mod BSIZE"
    by (simp_all add: unat_div_distrib unat_mod_distrib)
  obtain s1 where b: "bmap ip ?bn s = Ok (?b, s1)" "txn s1 {} w" "blk s1 = blk s" "tkeep s s1"
    using bmap_mapped [OF t dev, of ?bn thesis] map unfolding ub by blast
  obtain p s2 where r: "bread ROOTDEV ?b s1 = Ok (p, s2)" "txn s2 {p} w" "bdata (bufs s2 p) = blk s1 ?b" "blk s2 = blk s1" "tkeep s1 s2"
    by (rule txn_bread [OF b(2), of ?b]) (simp, simp, rule that)
  define bs where "bs = get_bytes (bdata (bufs s2 p)) (unat (off mod of_nat BSIZE)) (unat m)"
  have "unat m \<le> BSIZE - unat off mod BSIZE" using rw_m_nat(1) [OF tot, of off] by (simp add: m_def)
  then have fit: "unat off mod BSIZE + unat m \<le> BSIZE" by (simp add: le_diff_conv2)
  have bs: "bs = map (fbyte (blk s) ?a) [unat off..<unat off + unat m]"
    unfolding bs_def r(3) b(3) ub by (rule fbyte_chunk [OF fit txn_length [OF t]])
  define s3 where "s3 = s2\<lparr>pmem := store (pmem s2) dst bs\<rparr>"
  have t3: "txn s3 {p} w" using r(2) by (simp add: s3_def)
  obtain s4 where e: "brelse p s3 = Ok s4" "txn s4 ({p} - {p}) w" "blk s4 = blk s3" "tkeep s3 s4"
    by (rule txn_brelse [OF t3 insertI1]) (rule that)
  have i1: "itab s1 = itab s" using tkeep_fs(2) [OF b(4)] .
  have run: "readi_loop (Suc k) ip False dst off n tot s = readi_loop k ip False (dst + ucast m) (off + m) n (tot + m) s4"
    using b(1) r(1) e(1) tot dev map(2)
    by (simp add: i1 either_copyout_def Let_def m_def [symmetric] bs_def [unfolded of_nat_numeral BSIZE_def, symmetric] s3_def [symmetric])
  have k: "mkeep s s4" using mkeep_trans mkeep_tkeep [OF b(4)] mkeep_tkeep [OF r(5)] mkeep_pmem mkeep_tkeep [OF e(4)] unfolding s3_def by blast
  have pm: "pmem s4 = store (pmem s) dst bs" using tkeepD(3) [OF e(4)] tkeepD(3) [OF r(5)] tkeepD(3) [OF b(4)] by (simp add: s3_def)
  show ?thesis by (rule that [OF run _ _ k pm [unfolded bs]]) (use e b(3) r(4) in \<open>simp_all add: s3_def\<close>)
qed

lemma readi_loop_ok:
  assumes "txn s {} w" and "idev (itab s ip) = ROOTDEV" and "fmapped (blk s) (itab s ip) (unat off) (unat off + r)"
    and "unat n = unat tot + r" and "unat off + r < 2 ^ 32" and "r < k"
  shows "\<exists>s'. readi_loop k ip False dst off n tot s = Ok (n, s') \<and> txn s' {} w \<and> blk s' = blk s \<and> mkeep s s'
    \<and> pmem s' = store (pmem s) dst (map (fbyte (blk s) (itab s ip)) [unat off..<unat off + r])"
  using assms
proof (induction k arbitrary: dst off tot r s)
  case (Suc k)
  show ?case
  proof (cases "tot < n")
    case False
    then have "r = 0" "tot = n" using Suc.prems(4) by (auto simp: word_less_nat_alt word_unat_eq_iff)
    then show ?thesis using Suc.prems(1) by (auto intro!: mkeep_tkeep)
  next
    case True
    let ?m = "rw_m n tot off" let ?a = "itab s ip" let ?f = "fbyte (blk s) (itab s ip)"
    note m = rw_m_nat [OF True, of off]
    have r: "unat n - unat tot = r" using Suc.prems(4) by simp
    then have mr: "unat ?m \<le> r" "0 < r" using m by simp_all
    have map: "unat off div BSIZE < MAXFILE" "fblock (blk s) ?a (unat off div BSIZE) \<noteq> 0"
      using Suc.prems(3) mr(2) by (auto simp: fmapped_def)
    obtain s1 where s1: "readi_loop (Suc k) ip False dst off n tot s = readi_loop k ip False (dst + ucast ?m) (off + ?m) n (tot + ?m) s1"
      "txn s1 {} w" "blk s1 = blk s" "mkeep s s1" "pmem s1 = store (pmem s) dst (map ?f [unat off..<unat off + unat ?m])"
      by (rule readi_step [OF Suc.prems(1,2) True map]) (rule that)
    have i1: "itab s1 = itab s" using mkeep_fs [OF s1(4)] by simp
    have uo: "unat (off + ?m) = unat off + unat ?m" using unat_add_small [of off "unat ?m"] mr Suc.prems(5) by simp
    have ut: "unat (tot + ?m) = unat tot + unat ?m" using unat_add_small [of tot "unat ?m"] mr Suc.prems(4) unsigned_less [of n, where ?'a = nat] by simp
    have "\<exists>s'. readi_loop k ip False (dst + ucast ?m) (off + ?m) n (tot + ?m) s1 = Ok (n, s') \<and> txn s' {} w \<and> blk s' = blk s1 \<and> mkeep s1 s'
      \<and> pmem s' = store (pmem s1) (dst + ucast ?m) (map (fbyte (blk s1) (itab s1 ip)) [unat (off + ?m)..<unat (off + ?m) + (r - unat ?m)])"
      using Suc.prems mr m(2) by (intro Suc.IH) (auto simp: s1(2,3) i1 uo ut fmapped_def)
    then obtain s' where s': "readi_loop k ip False (dst + ucast ?m) (off + ?m) n (tot + ?m) s1 = Ok (n, s')" "txn s' {} w" "blk s' = blk s" "mkeep s1 s'"
      "pmem s' = store (pmem s1) (dst + ucast ?m) (map ?f [unat off + unat ?m..<unat off + r])"
      using mr(1) by (auto simp: s1(3) i1 uo)
    have u: "(ucast ?m :: u64) = of_nat (length (map ?f [unat off..<unat off + unat ?m]))"
      by (simp add: unsigned_of_nat)
    have "pmem s' = store (pmem s) dst (map ?f [unat off..<unat off + unat ?m] @ map ?f [unat off + unat ?m..<unat off + r])"
      unfolding s'(5) s1(5) u by (rule store_append) (use mr(1) Suc.prems(5) in auto)
    moreover have "[unat off..<unat off + unat ?m] @ [unat off + unat ?m..<unat off + r] = [unat off..<unat off + r]"
      using upt_add_eq_append [of "unat off" "unat off + unat ?m" "r - unat ?m"] mr(1) by simp
    ultimately have "pmem s' = store (pmem s) dst (map ?f [unat off..<unat off + r])" by (metis map_append)
    then show ?thesis using s1(1) s' mkeep_trans [OF s1(4)] by auto
  qed
qed simp

text \<open>\<^verbatim>\<open>readi\<close> into kernel memory.\<close>

lemma readi_ok:
  assumes t: "txn s {} w" and dev: "idev (itab s ip) = ROOTDEV" and map: "fmapped (blk s) (itab s ip) (unat off) (unat off + unat n)"
    and n: "unat off + unat n \<le> unat (isize (itab s ip))"
  obtains s' where "readi ip False dst off n s = Ok (n, s')" and "txn s' {} w" and "blk s' = blk s" and "mkeep s s'"
    and "pmem s' = store (pmem s) dst (take (unat n) (drop (unat off) (fdata (blk s) (itab s ip))))"
proof -
  let ?sz = "isize (itab s ip)"
  have lt: "unat off + unat n < 2 ^ 32" using n unsigned_less [of ?sz, where ?'a = nat] by simp
  have u: "unat (off + n) = unat off + unat n" using unat_add_small [of off "unat n"] lt by simp
  have c: "\<not> ?sz < off" "\<not> off + n < off" "\<not> ?sz < off + n" using n u by (simp_all add: word_less_nat_alt)
  have "take (unat n) (drop (unat off) (fdata (blk s) (itab s ip))) = map (fbyte (blk s) (itab s ip)) [unat off..<unat off + unat n]"
    using n by (simp add: fdata_def drop_map take_map)
  moreover obtain s' where "readi_loop (Suc (unat n)) ip False dst off n 0 s = Ok (n, s')" "txn s' {} w" "blk s' = blk s" "mkeep s s'"
    "pmem s' = store (pmem s) dst (map (fbyte (blk s) (itab s ip)) [unat off..<unat off + unat n])"
    using readi_loop_ok [OF t dev map _ lt, of n 0 "Suc (unat n)" dst] by auto
  ultimately show ?thesis using c by (intro that [of s']) (simp_all add: readi_def)
qed

end
