(* ===== verification/Mkfs.thy ===== *)
theory Mkfs
  imports Readi
begin

text \<open>
  The program that makes the first file-system image, \<^verbatim>\<open>mkfs/mkfs.c\<close>, on a little-endian host, where
  \<^verbatim>\<open>xint\<close> and \<^verbatim>\<open>xshort\<close> are the identity. The image file is a function from sectors to blocks; \<^verbatim>\<open>main\<close> first
  writes all \<open>FSSIZE\<close> sectors, and reading a sector behind them is the failing \<^verbatim>\<open>read\<close> that ends the
  program. A disk inode in a local variable is a value of the kernel's \<open>inode\<close> type, of which only the
  fields of \<^verbatim>\<open>struct dinode\<close> are used. \<open>Panic\<close> is the end of the program by \<^verbatim>\<open>die\<close> or a failed assertion.
\<close>

section \<open>The program\<close>

record mkfs_state =
  img :: "u32 \<Rightarrow> block"
  freeinode :: u32
  freeblock :: u32

definition NINODES :: nat where [simp]: "NINODES = 200"
definition nbitmap :: nat where [simp]: "nbitmap = FSSIZE div (BSIZE * 8) + 1"
definition ninodeblocks :: nat where [simp]: "ninodeblocks = NINODES div 16 + 1"
definition mk_nlog :: nat where [simp]: "mk_nlog = LOGSIZE"
definition nmeta :: nat where [simp]: "nmeta = 2 + mk_nlog + ninodeblocks + nbitmap"

definition mk_sb :: superblock where
  "mk_sb = \<lparr>magic = FSMAGIC, sbsize = of_nat FSSIZE, nblocks = of_nat (FSSIZE - nmeta), ninodes = of_nat NINODES, nlog = of_nat mk_nlog,
     logstart = 2, inodestart = of_nat (2 + mk_nlog), bmapstart = of_nat (2 + mk_nlog + ninodeblocks)\<rparr>"

definition sb_bytes :: "superblock \<Rightarrow> byte list" where
  "sb_bytes sb = concat (map (le_bytes 4) [magic sb, sbsize sb, nblocks sb, ninodes sb, nlog sb, logstart sb, inodestart sb, bmapstart sb])"

definition wsect :: "u32 \<Rightarrow> block \<Rightarrow> mkfs_state \<Rightarrow> mkfs_state" where
  "wsect sec buf s = s\<lparr>img := (img s)(sec := buf)\<rparr>"

definition rsect :: "u32 \<Rightarrow> mkfs_state \<Rightarrow> block outcome" where
  "rsect sec s = (if unat sec < FSSIZE then Ok (img s sec) else Panic ''read'')"

definition winode :: "u32 \<Rightarrow> inode \<Rightarrow> mkfs_state \<Rightarrow> mkfs_state outcome" where
  "winode ino ip s =
     (let bn = IBLOCK ino mk_sb in
      obind (rsect bn s) (\<lambda>buf. Ok (wsect bn (dinode_store ip (dip_off ino) buf) s)))"

definition rinode :: "u32 \<Rightarrow> mkfs_state \<Rightarrow> inode outcome" where
  "rinode ino s =
     (let bn = IBLOCK ino mk_sb in
      obind (rsect bn s) (\<lambda>buf. Ok (dinode_load buf (dip_off ino) zero_inode)))"

definition mk_ialloc :: "u16 \<Rightarrow> mkfs_state \<Rightarrow> (u32 \<times> mkfs_state) outcome" where
  "mk_ialloc ty s =
     (let ino = freeinode s; s = s\<lparr>freeinode := freeinode s + 1\<rparr> in
      obind (winode ino (zero_inode\<lparr>itype := ty, inlink := 1, isize := 0\<rparr>) s) (\<lambda>s. Ok (ino, s)))"

text \<open>The bitmap in which the first \<open>used\<close> blocks are in use.\<close>

definition mk_bitmap :: "nat \<Rightarrow> block" where
  "mk_bitmap used = fold (\<lambda>i d. bm_set d i) [0..<used] (replicate BSIZE 0)"

definition mk_balloc :: "u32 \<Rightarrow> mkfs_state \<Rightarrow> mkfs_state outcome" where
  "mk_balloc used s =
     (if \<not> sint used < int (BSIZE * 8) then Panic ''assert''
      else Ok (wsect (bmapstart mk_sb) (mk_bitmap (nat (sint used))) s))"

text \<open>The indirect block of a file, allocated when there is none.\<close>

definition iappend_indirect :: "inode \<Rightarrow> mkfs_state \<Rightarrow> inode \<times> mkfs_state" where
  "iappend_indirect din s =
     (if iaddrs din NDIRECT = 0
      then (din\<lparr>iaddrs := (iaddrs din)(NDIRECT := freeblock s)\<rparr>, s\<lparr>freeblock := freeblock s + 1\<rparr>)
      else (din, s))"

text \<open>The first half of the loop of \<^verbatim>\<open>iappend\<close>: the sector of block \<open>fbn\<close> of the file, allocated when there is none.\<close>

definition iappend_block :: "nat \<Rightarrow> inode \<Rightarrow> mkfs_state \<Rightarrow> (u32 \<times> inode \<times> mkfs_state) outcome" where
  "iappend_block fbn din s =
     (if fbn < NDIRECT then
        (if iaddrs din fbn = 0
         then Ok (freeblock s, din\<lparr>iaddrs := (iaddrs din)(fbn := freeblock s)\<rparr>, s\<lparr>freeblock := freeblock s + 1\<rparr>)
         else Ok (iaddrs din fbn, din, s))
      else
        let (din, s) = iappend_indirect din s in
        obind (rsect (iaddrs din NDIRECT) s) (\<lambda>indirect.
        if get32 indirect (4 * (fbn - NDIRECT)) = 0
        then let x = freeblock s; s = s\<lparr>freeblock := freeblock s + 1\<rparr> in
             Ok (x, din, wsect (iaddrs din NDIRECT) (put32 indirect (4 * (fbn - NDIRECT)) x) s)
        else Ok (get32 indirect (4 * (fbn - NDIRECT)), din, s)))"

text \<open>\<^verbatim>\<open>n1\<close>, the bytes that fit in the block of \<open>off\<close>.\<close>

definition iappend_n1 :: "u32 \<Rightarrow> byte list \<Rightarrow> nat" where
  "iappend_n1 off p = min (length p) (unat ((off div of_nat BSIZE + 1) * of_nat BSIZE - off))"

lemma round_up_diff: "(n div 1024 + 1) * 1024 - n = 1024 - n mod 1024" for n :: nat
proof -
  have "(q + 1) * 1024 - (q * 1024 + r) = 1024 - r" for q r :: nat by (simp add: algebra_simps)
  from this [of "n div 1024" "n mod 1024"] show ?thesis by (simp only: div_mult_mod_eq)
qed

lemma room_in_block: "unat (off div 1024) < 2 ^ 21 \<Longrightarrow> unat ((off div 1024 + 1) * 1024 - off) = 1024 - unat off mod 1024" for off :: u32
proof -
  assume a: "unat (off div 1024) < 2 ^ 21"
  have d: "unat (off div 1024) = unat off div 1024" by (simp add: unat_div_distrib)
  have "unat (off div 1024 + 1) = unat off div 1024 + 1" using a d by (simp add: unat_word_ariths)
  then have e: "unat ((off div 1024 + 1) * 1024) = (unat off div 1024 + 1) * 1024" using a d by (simp add: unat_word_ariths)
  have le: "unat off < (unat off div 1024 + 1) * 1024" by (simp add: dividend_less_times_div)
  then have "off \<le> (off div 1024 + 1) * 1024" unfolding word_le_nat_alt e by simp
  then have "unat ((off div 1024 + 1) * 1024 - off) = (unat off div 1024 + 1) * 1024 - unat off" unfolding e [symmetric] by (rule unat_sub)
  also have "\<dots> = 1024 - unat off mod 1024" by (rule round_up_diff)
  finally show ?thesis .
qed

function iappend_loop :: "inode \<Rightarrow> u32 \<Rightarrow> byte list \<Rightarrow> mkfs_state \<Rightarrow> (inode \<times> u32 \<times> mkfs_state) outcome" where
  "iappend_loop din off p s =
     (if p = [] then Ok (din, off, s)
      else let fbn = unat (off div of_nat BSIZE) in
        if \<not> fbn < MAXFILE then Panic ''assert''
        else obind (iappend_block fbn din s) (\<lambda>(x, din, s).
          let n1 = iappend_n1 off p in
          obind (rsect x s) (\<lambda>buf.
          iappend_loop din (off + of_nat n1) (drop n1 p)
            (wsect x (put_bytes buf (unat (off - of_nat fbn * of_nat BSIZE)) (take n1 p)) s))))"
  by pat_completeness auto
termination
proof (relation "measure (\<lambda>(din, off, p, s). length p)", goal_cases)
  case (2 din off p s fbn y x w din' t n1 buf)
  have "unat (off div 1024) < 2 ^ 21" using 2(2,3) by simp
  then have "0 < n1" using 2(1) room_in_block [of off] unfolding 2 iappend_n1_def by simp
  then show ?case using 2(1) by simp
qed simp

declare iappend_loop.simps [simp del]
definition iappend :: "u32 \<Rightarrow> byte list \<Rightarrow> mkfs_state \<Rightarrow> mkfs_state outcome" where
  "iappend ino xp s =
     obind (rinode ino s) (\<lambda>din.
     obind (iappend_loop din (isize din) xp s) (\<lambda>(din, off, s).
     winode ino (din\<lparr>isize := off\<rparr>) s))"

text \<open>\<^verbatim>\<open>struct dirent\<close> with the name cut at and filled up to \<^verbatim>\<open>DIRSIZ\<close> bytes.\<close>

definition mk_dirent :: "u32 \<Rightarrow> byte list \<Rightarrow> byte list" where
  "mk_dirent ino name = le_bytes 2 (ucast ino :: u16) @ take DIRSIZ (name @ replicate DIRSIZ 0)"

definition user_slash :: "byte list" where
  "user_slash = [117, 115, 101, 114, 47]"

text \<open>
  One iteration of the loop over the arguments: a file is its argument and the buffers that \<^verbatim>\<open>read\<close>
  returns for it.
\<close>

definition mk_shortname :: "byte list \<Rightarrow> byte list" where
  "mk_shortname arg = (if take 5 arg = user_slash then drop 5 arg else arg)"

text \<open>The leading underscore of the name of a binary is dropped.\<close>

definition mk_strip :: "byte list \<Rightarrow> byte list" where
  "mk_strip shortname = (if shortname \<noteq> [] \<and> hd shortname = 95 then tl shortname else shortname)"

definition mk_file :: "u32 \<Rightarrow> byte list \<times> byte list list \<Rightarrow> mkfs_state \<Rightarrow> mkfs_state outcome" where
  "mk_file rootino f s =
     (let (arg, bufs) = f; shortname = mk_shortname arg in
      if 47 \<in> set shortname then Panic ''assert''
      else obind (mk_ialloc T_FILE s) (\<lambda>(ino, s).
        obind (iappend rootino (mk_dirent ino (mk_strip shortname)) s) (\<lambda>s.
        foldl (\<lambda>r buf. obind r (iappend ino buf)) (Ok s) bufs)))"

definition mkfs_init :: mkfs_state where
  "mkfs_init = wsect 1 (put_bytes (replicate BSIZE 0) 0 (sb_bytes mk_sb))
     \<lparr>img = (\<lambda>_. replicate BSIZE 0), freeinode = 1, freeblock = of_nat nmeta\<rparr>"

definition mkfs_main :: "(byte list \<times> byte list list) list \<Rightarrow> mkfs_state outcome" where
  "mkfs_main files =
     obind (mk_ialloc T_DIR mkfs_init) (\<lambda>(rootino, s).
     if rootino \<noteq> ROOTINO then Panic ''assert''
     else obind (iappend rootino (mk_dirent rootino [46]) s) (\<lambda>s.
       obind (iappend rootino (mk_dirent rootino [46, 46]) s) (\<lambda>s.
       obind (foldl (\<lambda>r f. obind r (mk_file rootino f)) (Ok s) files) (\<lambda>s.
       obind (rinode rootino s) (\<lambda>din.
       obind (winode rootino (din\<lparr>isize := (isize din div of_nat BSIZE + 1) * of_nat BSIZE\<rparr>) s) (\<lambda>s.
       mk_balloc (freeblock s) s))))))"

section \<open>The addresses in an image\<close>

text \<open>
  The places that hold a block address: \<open>(i, Some k)\<close> is block \<open>k\<close> of inode \<open>i\<close> and \<open>(i, None)\<close> is its
  indirect block. In a consistent image all of them are different, in the data area and below
  \<^verbatim>\<open>freeblock\<close>, and the blocks from \<^verbatim>\<open>freeblock\<close> on are still zero.
\<close>

definition saddr :: "(u32 \<Rightarrow> block) \<Rightarrow> (u32 \<Rightarrow> inode) \<Rightarrow> u32 \<times> nat option \<Rightarrow> u32" where
  "saddr f A x = (case snd x of None \<Rightarrow> iaddrs (A (fst x)) NDIRECT | Some k \<Rightarrow> if k < MAXFILE then fblock f (A (fst x)) k else 0)"

definition mk_inv :: "(u32 \<Rightarrow> block) \<Rightarrow> (u32 \<Rightarrow> inode) \<Rightarrow> nat \<Rightarrow> bool" where
  "mk_inv f A fb \<longleftrightarrow> (\<forall>b. length (f b) = BSIZE) \<and> (\<forall>b. fb \<le> unat b \<longrightarrow> f b = replicate BSIZE 0) \<and> nmeta \<le> fb \<and> fb \<le> FSSIZE
     \<and> (\<forall>x. saddr f A x \<noteq> 0 \<longrightarrow> nmeta \<le> unat (saddr f A x) \<and> unat (saddr f A x) < fb)
     \<and> (\<forall>x y. saddr f A x = saddr f A y \<longrightarrow> saddr f A x \<noteq> 0 \<longrightarrow> x = y)"

lemma nmeta_46: "nmeta = 46"
  by (simp add: LOGSIZE_def MAXOPBLOCKS_def)

lemma mk_invD:
  assumes "mk_inv f A fb"
  shows "\<And>b. length (f b) = 1024" "\<And>b. fb \<le> unat b \<Longrightarrow> f b = replicate 1024 0" "46 \<le> fb" "fb \<le> 2000"
    "\<And>x. saddr f A x \<noteq> 0 \<Longrightarrow> 46 \<le> unat (saddr f A x)" "\<And>x. saddr f A x \<noteq> 0 \<Longrightarrow> unat (saddr f A x) < fb"
    "\<And>x y. saddr f A x = saddr f A y \<Longrightarrow> saddr f A x \<noteq> 0 \<Longrightarrow> x = y"
  using assms unfolding mk_inv_def nmeta_46 BSIZE_def FSSIZE_def by blast+

lemma unat_fresh: "fb < 2000 \<Longrightarrow> unat (of_nat fb :: u32) = fb"
  by (simp add: unat_of_nat_u32)

text \<open>Taking the block \<open>fb\<close> for one of the places, and writing to a block that holds file data.\<close>

lemma mk_inv_fresh:
  assumes inv: "mk_inv f A fb" and x: "saddr f A x = 0" and fb: "fb < 2000" and s': "saddr f' A' = (saddr f A)(x := of_nat fb)"
    and len: "\<And>b. length (f' b) = 1024" and z: "\<And>b. Suc fb \<le> unat b \<Longrightarrow> f' b = replicate 1024 0"
  shows "mk_inv f' A' (Suc fb)"
proof -
  note i = mk_invD [OF inv] and u = unat_fresh [OF fb]
  have ne: "saddr f A y \<noteq> of_nat fb" if "saddr f A y \<noteq> 0" for y using i(6) [OF that] u by auto
  have n0: "(of_nat fb :: u32) \<noteq> 0" using u i(3) by auto
  have "y = z" if "saddr f' A' y = saddr f' A' z" "saddr f' A' y \<noteq> 0" for y z
    using that n0 i(7) [of y z] ne [of y] ne [of z] by (auto simp: s' fun_upd_def split: if_splits)
  moreover have "46 \<le> unat (saddr f' A' y) \<and> unat (saddr f' A' y) < Suc fb" if "saddr f' A' y \<noteq> 0" for y
    using that i(3) i(5,6) [of y] u by (auto simp: s' less_Suc_eq split: if_splits)
  ultimately show ?thesis
    unfolding mk_inv_def nmeta_46 BSIZE_def FSSIZE_def using len z i(3) fb by (auto simp del: split_paired_All)
qed

lemma saddr_write:
  assumes inv: "mk_inv f A fb" and b: "\<And>j. b \<noteq> iaddrs (A j) NDIRECT"
  shows "saddr (f(b := d)) A = saddr f A"
  using b by (auto simp: saddr_def fblock_def fun_eq_iff split: option.split)

lemma mk_inv_write:
  assumes inv: "mk_inv f A fb" and b: "\<And>j. b \<noteq> iaddrs (A j) NDIRECT" and d: "length d = 1024" "unat b < fb"
  shows "mk_inv (f(b := d)) A fb"
  using inv d unfolding mk_inv_def saddr_write [OF inv b] by (auto simp del: split_paired_All)

lemma get32_zeros_at: "i + 4 \<le> 1024 \<Longrightarrow> get32 (replicate 1024 0) i = 0"
proof -
  assume "i + 4 \<le> 1024"
  then have "get_bytes (replicate 1024 0) i 4 = replicate 4 0" by (simp add: get_bytes_def)
  then show ?thesis by (simp add: get32_def numeral_eq_Suc)
qed

lemma saddr_direct:
  "k < NDIRECT \<Longrightarrow> saddr f (A(i := (A i)\<lparr>iaddrs := (iaddrs (A i))(k := v)\<rparr>)) = (saddr f A)((i, Some k) := v)"
  by (auto simp: saddr_def fblock_def fun_eq_iff split: option.split)

lemma saddr_indirect:
  assumes "iaddrs (A i) NDIRECT = 0" and "f v = replicate 1024 0"
  shows "saddr f (A(i := (A i)\<lparr>iaddrs := (iaddrs (A i))(NDIRECT := v)\<rparr>)) = (saddr f A)((i, None) := v)"
proof
  fix x
  have "get32 (f v) (4 * (k - 12)) = 0" if "k < 268" for k using get32_zeros_at [of "4 * (k - 12)"] that assms(2) by simp
  then show "saddr f (A(i := (A i)\<lparr>iaddrs := (iaddrs (A i))(NDIRECT := v)\<rparr>)) x = ((saddr f A)((i, None) := v)) x"
    using assms(1) by (cases x) (auto simp: saddr_def fblock_def split: option.split)
qed

lemma saddr_entry:
  assumes inv: "mk_inv f A fb" and k: "NDIRECT \<le> k" "k < MAXFILE" and ind: "iaddrs (A i) NDIRECT \<noteq> 0"
  shows "saddr (f(iaddrs (A i) NDIRECT := put32 (f (iaddrs (A i) NDIRECT)) (4 * (k - NDIRECT)) v)) A = (saddr f A)((i, Some k) := v)"
proof
  fix x
  let ?b = "iaddrs (A i) NDIRECT" let ?f = "f(?b := put32 (f ?b) (4 * (k - NDIRECT)) v)"
  have other: "iaddrs (A j) NDIRECT \<noteq> ?b" if "j \<noteq> i" for j
    using mk_invD(7) [OF inv, of "(i, None)" "(j, None)"] ind that by (auto simp: saddr_def)
  have len: "length (f ?b) = 1024" by (rule mk_invD(1) [OF inv])
  have get: "get32 (put32 (f ?b) (4 * (k - 12)) v) (4 * (m - 12)) = (if m = k then v else get32 (f ?b) (4 * (m - 12)))"
    if "12 \<le> m" "m < 268" for m
  proof (cases "m = k")
    case True
    then show ?thesis using get32_put32 [of "4 * (k - 12)" "f ?b" v] k len by simp
  next
    case False
    then have "4 * (m - 12) + 4 \<le> 4 * (k - 12) \<or> 4 * (k - 12) + 4 \<le> 4 * (m - 12)" using that k by (cases m k rule: linorder_cases) auto
    then have "get32 (put32 (f ?b) (4 * (k - 12)) v) (4 * (m - 12)) = get32 (f ?b) (4 * (m - 12))"
      using k that len by (intro get32_put32_other) auto
    then show ?thesis using False by simp
  qed
  show "saddr ?f A x = ((saddr f A)((i, Some k) := v)) x"
    using other get k ind by (cases x; cases "fst x = i") (auto simp: saddr_def fblock_def split: option.split)
qed

text \<open>What finding the sector of a block does: the place of that block now has an address, and nothing else has changed.\<close>

lemma fresh_word: "unat (freeblock s) < 2000 \<Longrightarrow> unat (freeblock s + 1) = Suc (unat (freeblock s))"
  using unat_add_small [of "freeblock s" 1] by simp

lemma indirect_ok:
  assumes inv: "mk_inv (img s) A (unat (freeblock s))" and run: "iappend_indirect (A i) s = (din, s')" and b: "unat (iaddrs din NDIRECT) < 2000"
  shows "mk_inv (img s') (A(i := din)) (unat (freeblock s'))" and "iaddrs din NDIRECT \<noteq> 0"
    and "\<And>y. snd y \<noteq> None \<Longrightarrow> saddr (img s') (A(i := din)) y = saddr (img s) A y"
    and "img s' = img s" and "freeinode s' = freeinode s" and "din\<lparr>iaddrs := iaddrs (A i)\<rparr> = A i"
proof -
  note d = mk_invD [OF inv]
  have "mk_inv (img s') (A(i := din)) (unat (freeblock s')) \<and> iaddrs din NDIRECT \<noteq> 0
    \<and> (\<forall>y. snd y \<noteq> None \<longrightarrow> saddr (img s') (A(i := din)) y = saddr (img s) A y) \<and> img s' = img s \<and> freeinode s' = freeinode s
    \<and> din\<lparr>iaddrs := iaddrs (A i)\<rparr> = A i"
  proof (cases "iaddrs (A i) NDIRECT = 0")
    case True
    let ?v = "freeblock s"
    have r: "din = (A i)\<lparr>iaddrs := (iaddrs (A i))(NDIRECT := ?v)\<rparr>" "s' = s\<lparr>freeblock := ?v + 1\<rparr>"
      using run True by (auto simp: iappend_indirect_def)
    have v: "unat ?v < 2000" using b r by simp
    have z: "img s ?v = replicate 1024 0" by (rule d(2)) simp
    have sa: "saddr (img s') (A(i := din)) = (saddr (img s) A)((i, None) := of_nat (unat ?v))"
      using saddr_indirect [of A i "img s" ?v] True z r by simp
    have "mk_inv (img s') (A(i := din)) (Suc (unat ?v))"
      by (rule mk_inv_fresh [OF inv _ v sa]) (use True d(1,2) r in \<open>auto simp: saddr_def\<close>)
    moreover have "?v \<noteq> 0" using d(3) by auto
    ultimately show ?thesis using r sa fresh_word [OF v] by (auto simp del: split_paired_All)
  next
    case False
    then have "din = A i" "s' = s" using run by (auto simp: iappend_indirect_def)
    then show ?thesis using False inv by simp
  qed
  then show "mk_inv (img s') (A(i := din)) (unat (freeblock s'))" "iaddrs din NDIRECT \<noteq> 0"
    "\<And>y. snd y \<noteq> None \<Longrightarrow> saddr (img s') (A(i := din)) y = saddr (img s) A y"
    "img s' = img s" "freeinode s' = freeinode s" "din\<lparr>iaddrs := iaddrs (A i)\<rparr> = A i"
    by blast+
qed

text \<open>What finding the sector \<open>x\<close> of block \<open>k\<close> does: its place now has that address, and no other place has changed but perhaps the one of the indirect block.\<close>

definition block_step :: "mkfs_state \<Rightarrow> (u32 \<Rightarrow> inode) \<Rightarrow> u32 \<Rightarrow> nat \<Rightarrow> u32 \<Rightarrow> inode \<Rightarrow> mkfs_state \<Rightarrow> bool" where
  "block_step s A i k x din s' \<longleftrightarrow> mk_inv (img s') (A(i := din)) (unat (freeblock s')) \<and> fblock (img s') din k = x \<and> x \<noteq> 0
     \<and> (\<forall>y. y \<noteq> (i, Some k) \<or> saddr (img s) A y \<noteq> 0 \<longrightarrow> snd y \<noteq> None \<longrightarrow> saddr (img s') (A(i := din)) y = saddr (img s) A y)
     \<and> (\<forall>b. b \<noteq> iaddrs din NDIRECT \<or> unat b < nmeta \<longrightarrow> img s' b = img s b) \<and> freeinode s' = freeinode s \<and> din\<lparr>iaddrs := iaddrs (A i)\<rparr> = A i"

lemma direct_ok:
  assumes inv: "mk_inv (img s) A (unat (freeblock s))" and run: "iappend_block k (A i) s = Ok (x, din, s')" and k: "k < NDIRECT" and x: "unat x < 2000"
  shows "block_step s A i k x din s'"
proof (cases "iaddrs (A i) k = 0")
  case True
  note d = mk_invD [OF inv]
  have r: "x = freeblock s" "din = (A i)\<lparr>iaddrs := (iaddrs (A i))(k := x)\<rparr>" "s' = s\<lparr>freeblock := x + 1\<rparr>"
    using run True k by (auto simp: iappend_block_def)
  have sa: "saddr (img s') (A(i := din)) = (saddr (img s) A)((i, Some k) := of_nat (unat x))"
    using saddr_direct [OF k, of "img s" A i x] r by simp
  have a0: "saddr (img s) A (i, Some k) = 0" using True k by (simp add: saddr_def fblock_def)
  have "mk_inv (img s') (A(i := din)) (Suc (unat x))"
    unfolding r(1) by (rule mk_inv_fresh [OF inv a0]) (use x d(1,2) r sa in auto)
  moreover have "x \<noteq> 0" using d(3) r(1) by auto
  ultimately show ?thesis
    unfolding block_step_def using sa a0 k fresh_word [of s] r x by (auto simp: fblock_def simp del: split_paired_All)
next
  case False
  then have "x = iaddrs (A i) k" "din = A i" "s' = s" using run k by (auto simp: iappend_block_def)
  then show ?thesis using False inv k by (simp add: block_step_def fblock_def)
qed

lemma entry_ok:
  assumes inv: "mk_inv (img s) A (unat (freeblock s))" and k: "NDIRECT \<le> k" "k < MAXFILE" and ind: "iaddrs (A i) NDIRECT \<noteq> 0"
    and e0: "get32 (img s (iaddrs (A i) NDIRECT)) (4 * (k - NDIRECT)) = 0" and x: "x = freeblock s" "unat x < 2000"
    and s': "s' = wsect (iaddrs (A i) NDIRECT) (put32 (img s (iaddrs (A i) NDIRECT)) (4 * (k - NDIRECT)) x) (s\<lparr>freeblock := x + 1\<rparr>)"
  shows "block_step s A i k x (A i) s'"
proof -
  let ?b = "iaddrs (A i) NDIRECT"
  note d = mk_invD [OF inv]
  have im: "img s' = (img s)(?b := put32 (img s ?b) (4 * (k - NDIRECT)) x)" "freeblock s' = x + 1" "freeinode s' = freeinode s"
    by (simp_all add: s' wsect_def)
  have sa: "saddr (img s') A = (saddr (img s) A)((i, Some k) := x)" unfolding im by (rule saddr_entry [OF inv k ind])
  have b: "unat ?b < unat (freeblock s)" "46 \<le> unat ?b" using d(5,6) [of "(i, None)"] ind by (simp_all add: saddr_def)
  have a0: "saddr (img s) A (i, Some k) = 0" using e0 k ind by (simp add: saddr_def fblock_def)
  have "mk_inv (img s') A (Suc (unat x))"
    unfolding x(1)
  proof (rule mk_inv_fresh [OF inv a0])
    show "length (img s' c) = 1024" for c using d(1) [of ?b] d(1) [of c] k by (auto simp: im)
    show "img s' c = replicate 1024 0" if "Suc (unat (freeblock s)) \<le> unat c" for c using d(2) [of c] that b(1) by (auto simp: im)
  qed (use x sa in auto)
  moreover have "x \<noteq> 0" using d(3) x(1) by auto
  moreover have "fblock (img s') (A i) k = x" using fun_cong [OF sa, of "(i, Some k)"] k by (simp add: saddr_def)
  ultimately show ?thesis
    unfolding block_step_def nmeta_46 using sa a0 fresh_word [of s] x im b(2) by (auto simp del: split_paired_All)
qed

lemma iappend_block_ok:
  assumes inv: "mk_inv (img s) A (unat (freeblock s))" and run: "iappend_block k (A i) s = Ok (x, din, s')" and k: "k < MAXFILE" and x: "unat x < 2000"
  shows "block_step s A i k x din s'"
proof (cases "k < NDIRECT")
  case True
  then show ?thesis by (rule direct_ok [OF inv run _ x])
next
  case False
  then have k12: "NDIRECT \<le> k" by simp
  obtain d1 s1 where i1: "iappend_indirect (A i) s = (d1, s1)" by fastforce
  let ?b = "iaddrs d1 NDIRECT" let ?e = "get32 (img s1 ?b) (4 * (k - NDIRECT))" let ?A = "A(i := d1)"
  have b: "unat ?b < 2000" using run False i1 by (auto simp: iappend_block_def rsect_def split: if_splits)
  note j = indirect_ok [OF inv i1 b]
  have r: "if ?e = 0 then x = freeblock s1 \<and> din = d1 \<and> s' = wsect ?b (put32 (img s1 ?b) (4 * (k - NDIRECT)) (freeblock s1)) (s1\<lparr>freeblock := freeblock s1 + 1\<rparr>)
    else x = ?e \<and> din = d1 \<and> s' = s1"
    using run False i1 b by (auto simp: iappend_block_def rsect_def Let_def split: if_splits)
  have "block_step s1 ?A i k x din s'"
  proof (cases "?e = 0")
    case True
    then have "x = freeblock s1" "din = ?A i" "s' = wsect ?b (put32 (img s1 ?b) (4 * (k - NDIRECT)) x) (s1\<lparr>freeblock := x + 1\<rparr>)" using r by simp_all
    then show ?thesis using entry_ok [OF j(1) k12 k, of i x s'] j(2) True x by simp
  next
    case False
    then show ?thesis using r j(1,2) k12 by (simp add: block_step_def fblock_def)
  qed
  moreover have "din = d1" using r by (simp split: if_splits)
  ultimately show ?thesis
    using j(3-6) unfolding block_step_def by (auto simp del: split_paired_All)
qed

section \<open>Appending to a file\<close>

definition fbytes :: "(u32 \<Rightarrow> block) \<Rightarrow> inode \<Rightarrow> nat \<Rightarrow> byte list" where
  "fbytes f a n = map (fbyte f a) [0..<n]"

text \<open>Writing \<open>c\<close> into the block of byte \<open>o'\<close> of file \<open>i\<close>, where it fits.\<close>

lemma chunk_fbyte:
  assumes inv: "mk_inv f A fb" and k: "o' div 1024 < 268" and x: "x = fblock f (A i) (o' div 1024)" "x \<noteq> 0" and c: "o' mod 1024 + length c \<le> 1024"
    and f': "f' = f(x := put_bytes (f x) (o' mod 1024) c)" and n: "n div 1024 < 268"
  shows "fbyte f' (A j) n = (if j = i \<and> o' \<le> n \<and> n < o' + length c then c ! (n - o') else fbyte f (A j) n)"
    and "saddr f' A = saddr f A" and "mk_inv f' A fb"
proof -
  note d = mk_invD [OF inv]
  have sx: "saddr f A (i, Some (o' div 1024)) = x" using k x by (simp add: saddr_def)
  have ni: "x \<noteq> iaddrs (A m) NDIRECT" for m using d(7) [of "(i, Some (o' div 1024))" "(m, None)"] sx x(2) by (auto simp: saddr_def)
  have lx: "length (f x) = 1024" by (rule d(1))
  show sa: "saddr f' A = saddr f A" unfolding f' by (rule saddr_write [OF inv ni])
  show "mk_inv f' A fb" unfolding f'
    by (rule mk_inv_write [OF inv ni]) (use d(6) [of "(i, Some (o' div 1024))"] sx x(2) c lx in auto)
  have fb: "fblock f' (A j) (n div 1024) = fblock f (A j) (n div 1024)"
    using fun_cong [OF sa, of "(j, Some (n div 1024))"] n by (simp add: saddr_def)
  show "fbyte f' (A j) n = (if j = i \<and> o' \<le> n \<and> n < o' + length c then c ! (n - o') else fbyte f (A j) n)"
  proof (cases "j = i \<and> n div 1024 = o' div 1024")
    case True
    define q where "q = o' div 1024"
    have nq: "n = 1024 * q + n mod 1024" "o' = 1024 * q + o' mod 1024" using True q_def mult_div_mod_eq [of 1024 n] mult_div_mod_eq [of 1024 o'] by auto
    have "put_bytes (f x) (o' mod 1024) c ! (n mod 1024) =
      (if o' mod 1024 \<le> n mod 1024 \<and> n mod 1024 < o' mod 1024 + length c then c ! (n mod 1024 - o' mod 1024) else f x ! (n mod 1024))"
      using c lx by (intro nth_put_bytes) auto
    moreover have "o' \<le> n \<longleftrightarrow> o' mod 1024 \<le> n mod 1024" "n < o' + length c \<longleftrightarrow> n mod 1024 < o' mod 1024 + length c"
      "n - o' = n mod 1024 - o' mod 1024" using nq by linarith+
    ultimately show ?thesis using True fb x(1) by (auto simp: fbyte_def f')
  next
    case False
    have "fblock f (A j) (n div 1024) \<noteq> x"
      using d(7) [of "(i, Some (o' div 1024))" "(j, Some (n div 1024))"] sx x(2) n False by (auto simp: saddr_def)
    moreover have "\<not> (j = i \<and> o' \<le> n \<and> n < o' + length c)"
    proof
      assume a: "j = i \<and> o' \<le> n \<and> n < o' + length c"
      have "n < 1024 * (o' div 1024) + 1024" using a c mult_div_mod_eq [of 1024 o'] by linarith
      moreover have "1024 * (o' div 1024) \<le> n" using a mult_div_mod_eq [of 1024 o'] by linarith
      ultimately have "n div 1024 = o' div 1024" by (intro div_nat_eqI) auto
      then show False using a False by simp
    qed
    ultimately show ?thesis using fb by (auto simp: fbyte_def f')
  qed
qed

definition append_post :: "mkfs_state \<Rightarrow> (u32 \<Rightarrow> inode) \<Rightarrow> u32 \<Rightarrow> nat \<Rightarrow> byte list \<Rightarrow> inode \<Rightarrow> nat \<Rightarrow> mkfs_state \<Rightarrow> bool" where
  "append_post s A i off p din off' s' \<longleftrightarrow> mk_inv (img s') (A(i := din)) (unat (freeblock s')) \<and> off' = off + length p \<and> off' \<le> MAXFILE * BSIZE
     \<and> fmapped (img s') din 0 off' \<and> fbytes (img s') din off' = fbytes (img s) (A i) off @ p
     \<and> (\<forall>j k. j \<noteq> i \<longrightarrow> k < MAXFILE \<longrightarrow> fblock (img s') (A j) k = fblock (img s) (A j) k)
     \<and> (\<forall>j n. j \<noteq> i \<longrightarrow> n < MAXFILE * BSIZE \<longrightarrow> fbyte (img s') (A j) n = fbyte (img s) (A j) n)
     \<and> (\<forall>b. unat b < nmeta \<longrightarrow> img s' b = img s b) \<and> freeinode s' = freeinode s \<and> din\<lparr>iaddrs := iaddrs (A i)\<rparr> = A i"

lemma same_but_addrs: "d2\<lparr>iaddrs := iaddrs d1\<rparr> = d1 \<Longrightarrow> d1\<lparr>iaddrs := a\<rparr> = c \<Longrightarrow> d2\<lparr>iaddrs := a\<rparr> = (c :: inode)"
  by (cases d1; cases d2; cases c) simp

lemma append_post_trans:
  "append_post s A i o1 p d1 o2 s1 \<Longrightarrow> append_post s1 (A(i := d1)) i o2 q d2 o3 s2 \<Longrightarrow> append_post s A i o1 (p @ q) d2 o3 s2"
  unfolding append_post_def by (auto intro: same_but_addrs)

lemma block_step_fbyte:
  assumes inv: "mk_inv (img s) A (unat (freeblock s))" and st: "block_step s A i k x din s'" and n: "n div BSIZE < MAXFILE"
    and "j \<noteq> i \<or> n div BSIZE \<noteq> k \<or> fblock (img s) (A j) (n div BSIZE) \<noteq> 0"
  shows "fbyte (img s') ((A(i := din)) j) n = fbyte (img s) (A j) n"
    and "fblock (img s') ((A(i := din)) j) (n div BSIZE) = fblock (img s) (A j) (n div BSIZE)"
proof -
  let ?A = "A(i := din)" let ?y = "(j, Some (n div BSIZE))"
  have s: "mk_inv (img s') ?A (unat (freeblock s'))" "\<And>y. y \<noteq> (i, Some k) \<or> saddr (img s) A y \<noteq> 0 \<Longrightarrow> snd y \<noteq> None \<Longrightarrow> saddr (img s') ?A y = saddr (img s) A y"
    "\<And>b. b \<noteq> iaddrs din NDIRECT \<or> unat b < 46 \<Longrightarrow> img s' b = img s b"
    using st unfolding block_step_def nmeta_46 by blast+
  have e: "saddr (img s') ?A ?y = saddr (img s) A ?y" by (rule s(2)) (use assms(4) n in \<open>auto simp: saddr_def\<close>)
  then show fb: "fblock (img s') (?A j) (n div BSIZE) = fblock (img s) (A j) (n div BSIZE)" using n by (simp add: saddr_def)
  let ?b = "fblock (img s) (A j) (n div BSIZE)"
  have "img s' ?b = img s ?b"
  proof (cases "?b = iaddrs din NDIRECT")
    case True
    then have "saddr (img s') ?A ?y = saddr (img s') ?A (i, None)" using e n by (simp add: saddr_def)
    then have z: "?b = 0" using mk_invD(7) [OF s(1), of ?y "(i, None)"] e n by (auto simp: saddr_def)
    then show ?thesis using s(3) [of 0] by simp
  next
    case False
    then show ?thesis using s(3) by blast
  qed
  then show "fbyte (img s') (?A j) n = fbyte (img s) (A j) n" using fb by (simp add: fbyte_def)
qed

lemma append_step:
  assumes inv: "mk_inv (img s) A (unat (freeblock s))" and st: "block_step s A i (off div 1024) x din s1" and off: "off div 1024 < 268"
    and map: "fmapped (img s) (A i) 0 off" and x: "x \<noteq> 0" and c: "off mod 1024 + length c \<le> 1024" "c \<noteq> []"
    and s2: "s2 = wsect x (put_bytes (img s1 x) (off mod 1024) c) s1"
  shows "append_post s A i off c din (off + length c) s2"
proof -
  let ?A = "A(i := din)" let ?k = "off div 1024"
  have s: "mk_inv (img s1) ?A (unat (freeblock s1))" "fblock (img s1) din ?k = x" "freeinode s1 = freeinode s" "din\<lparr>iaddrs := iaddrs (A i)\<rparr> = A i"
    "\<And>b. b \<noteq> iaddrs din NDIRECT \<or> unat b < 46 \<Longrightarrow> img s1 b = img s b"
    using st unfolding block_step_def nmeta_46 by blast+
  have im: "img s2 = (img s1)(x := put_bytes (img s1 x) (off mod 1024) c)" "freeblock s2 = freeblock s1" "freeinode s2 = freeinode s1"
    by (simp_all add: s2 wsect_def)
  note ch = chunk_fbyte [OF s(1) off _ x c(1) im(1), of i] 
  have end_off: "off + length c \<le> 1024 * ?k + 1024" using c(1) mult_div_mod_eq [of 1024 off] by linarith
  have lek: "n div 1024 \<le> ?k" if "n < off + length c" for n
  proof -
    have "n < 1024 * ?k + 1024" using that end_off by linarith
    then show ?thesis by (simp add: less_mult_imp_div_less mult.commute flip: less_Suc_eq_le)
  qed
  then have lo: "n div 1024 < 268" if "n < off + length c" for n using off that by (meson le_less_trans)
  have sa: "saddr (img s2) ?A = saddr (img s1) ?A" by (rule ch(2)) (use s(2) off in auto)
  have fb: "fblock (img s2) (?A j) k = fblock (img s1) (?A j) k" if "k < 268" for j k
    using fun_cong [OF sa, of "(j, Some k)"] that by (simp add: saddr_def)
  have wr: "fbyte (img s2) (?A j) n = (if j = i \<and> off \<le> n \<and> n < off + length c then c ! (n - off) else fbyte (img s1) (?A j) n)"
    if "n div 1024 < 268" for j n by (rule ch(1)) (use s(2) that in auto)
  have old: "fbyte (img s1) (?A j) n = fbyte (img s) (A j) n \<and> fblock (img s1) (?A j) (n div 1024) = fblock (img s) (A j) (n div 1024)"
    if "n div 1024 < 268" "j \<noteq> i \<or> n < off" for j n
  proof -
    have b: "n div BSIZE < MAXFILE" "j \<noteq> i \<or> n div BSIZE \<noteq> ?k \<or> fblock (img s) (A j) (n div BSIZE) \<noteq> 0"
      using that map by (auto simp: fmapped_def)
    show ?thesis using block_step_fbyte [OF inv st b] by simp
  qed
  have bytes: "fbytes (img s2) din (off + length c) = fbytes (img s) (A i) off @ c"
  proof (rule nth_equalityI)
    fix n assume "n < length (fbytes (img s2) din (off + length c))"
    then have n: "n < off + length c" by (simp add: fbytes_def)
    then show "fbytes (img s2) din (off + length c) ! n = (fbytes (img s) (A i) off @ c) ! n"
      using wr [OF lo [OF n], of i] old [OF lo [OF n], of i] by (cases "n < off") (auto simp: fbytes_def nth_append)
  qed (simp add: fbytes_def)
  have mapd: "fblock (img s2) din (n div 1024) \<noteq> 0" if n: "n < off + length c" for n
  proof (cases "n div 1024 = ?k")
    case True
    then show ?thesis using fb [OF off, of i] s(2) x by simp
  next
    case False
    then have "Suc (n div 1024) \<le> ?k" using lek [OF n] by simp
    then have "n < off" using mult_div_mod_eq [of 1024 n] mult_div_mod_eq [of 1024 off] mod_less_divisor [of 1024 n] by linarith
    then show ?thesis using fb [OF lo [OF n], of i] old [OF lo [OF n], of i] map by (auto simp: fmapped_def)
  qed
  show ?thesis
    unfolding append_post_def nmeta_46
  proof (intro conjI allI impI)
    show "mk_inv (img s2) ?A (unat (freeblock s2))" unfolding im(2) by (rule ch(3)) (use s(2) off in auto)
    show "off + length c \<le> MAXFILE * BSIZE" using end_off off by simp
    show "fmapped (img s2) din 0 (off + length c)" using lo mapd by (simp add: fmapped_def)
    show "fblock (img s2) (A j) k = fblock (img s) (A j) k" if "j \<noteq> i" "k < MAXFILE" for j k
      using fb [of k j] old [of "1024 * k" j] that by simp
    show "fbyte (img s2) (A j) n = fbyte (img s) (A j) n" if "j \<noteq> i" "n < MAXFILE * BSIZE" for j n
      using wr [of n j] old [of n j] that by (simp add: less_mult_imp_div_less)
    have "46 \<le> unat x" using mk_invD(5) [OF s(1), of "(i, Some ?k)"] s(2) x off by (simp add: saddr_def)
    then show "img s2 b = img s b" if "unat b < 46" for b using that s(5) [of b] by (auto simp: im)
  qed (use s im bytes in simp_all)
qed

lemma append_post_refl:
  assumes "mk_inv (img s) A (unat (freeblock s))" and "fmapped (img s) (A i) 0 off" and "off \<le> MAXFILE * BSIZE"
  shows "append_post s A i off [] (A i) off s"
  using assms by (simp add: append_post_def)

lemma iappend_loop_ok:
  assumes "iappend_loop din off p s = Ok (din', off', s')" and "mk_inv (img s) A (unat (freeblock s))" and "A i = din"
    and "fmapped (img s) din 0 (unat off)" and "unat off \<le> MAXFILE * BSIZE"
  shows "append_post s A i (unat off) p din' (unat off') s'"
  using assms
proof (induction din off p s arbitrary: A rule: iappend_loop.induct)
  case (1 din off p s)
  show ?case
  proof (cases "p = []")
    case True
    then have "din' = A i" "off' = off" "s' = s" using "1.prems"(1,3) by (auto simp: iappend_loop.simps)
    then show ?thesis using append_post_refl [OF "1.prems"(2), of i "unat off"] "1.prems"(3-5) True by simp
  next
    case False
    let ?fbn = "unat (off div of_nat BSIZE)" let ?n = "iappend_n1 off p"
    have f: "?fbn = unat off div 1024" by (simp add: unat_div_distrib)
    have ok: "iappend_loop din off p s = Ok (din', off', s')" by (rule "1.prems"(1))
    have lt: "?fbn < MAXFILE" using ok False by (auto simp: iappend_loop.simps Let_def split: if_splits)
    obtain x d1 s1 where b: "iappend_block ?fbn din s = Ok (x, d1, s1)"
      using ok False lt by (auto simp: iappend_loop.simps Let_def obind_Ok_iff)
    have xr: "rsect x s1 = Ok (img s1 x)" "unat x < 2000" using ok False lt b by (auto simp: iappend_loop.simps Let_def rsect_def split: if_splits)
    define c where "c = take ?n p"
    define s2 where "s2 = wsect x (put_bytes (img s1 x) (unat (off - of_nat ?fbn * of_nat BSIZE)) c) s1"
    have rest: "iappend_loop d1 (off + of_nat ?n) (drop ?n p) s2 = Ok (din', off', s')"
      using ok False lt b xr by (subst (asm) iappend_loop.simps) (simp add: Let_def s2_def c_def)
    have n: "?n = min (length p) (1024 - unat off mod 1024)" using room_in_block [of off] lt by (simp add: iappend_n1_def)
    have om: "unat (off - of_nat ?fbn * of_nat BSIZE) = unat off mod 1024"
    proof -
      have "off - of_nat ?fbn * of_nat BSIZE = off mod 1024" by (simp add: minus_div_mult_eq_mod)
      then show ?thesis by (simp add: unat_mod_distrib)
    qed
    have c: "unat off mod 1024 + length c \<le> 1024" "c \<noteq> []" "length c = ?n" using n False mod_less_divisor [of 1024 "unat off"] by (auto simp: c_def)
    have st: "block_step s A i (unat off div 1024) x d1 s1"
      using iappend_block_ok [OF "1.prems"(2), of ?fbn i x d1 s1] b "1.prems"(3) lt xr(2) unfolding f by simp
    have ap: "append_post s A i (unat off) c d1 (unat off + length c) s2"
      by (rule append_step [OF "1.prems"(2) st]) (use lt f "1.prems"(3,4) st c om in \<open>simp_all add: s2_def block_step_def\<close>)
    have uo: "unat (off + of_nat ?n) = unat off + length c" unfolding c(3) by (rule unat_add_small) (use ap c(3) in \<open>simp add: append_post_def\<close>)
    have h: "mk_inv (img s2) (A(i := d1)) (unat (freeblock s2))" "fmapped (img s2) d1 0 (unat off + length c)" "unat off + length c \<le> MAXFILE * BSIZE"
      using ap unfolding append_post_def by blast+
    have nn: "\<not> \<not> ?fbn < MAXFILE" using lt by simp
    note IH = "1.IH" [OF False refl nn b refl refl refl xr(1), folded c_def, folded s2_def]
    have "append_post s2 (A(i := d1)) i (unat (off + of_nat ?n)) (drop ?n p) din' (unat off') s'"
      by (rule IH [OF rest h(1)]) (use h uo in simp_all)
    then have "append_post s A i (unat off) (c @ drop ?n p) din' (unat off') s'" unfolding uo by (rule append_post_trans [OF ap])
    then show ?thesis by (simp add: c_def)
  qed
qed

section \<open>The inodes of an image\<close>

definition dinodes :: "(u32 \<Rightarrow> block) \<Rightarrow> u32 \<Rightarrow> inode" where
  "dinodes f i = (if unat i < 208 then dinode_load (f (IBLOCK i mk_sb)) (dip_off i) zero_inode else zero_inode)"

lemma IBLOCK_range: "unat i < 208 \<Longrightarrow> unat (IBLOCK i mk_sb) = unat i div 16 + 32"
proof -
  assume a: "unat i < 208"
  have "unat (i div 16) = unat i div 16" by (simp add: unat_div_distrib)
  then show ?thesis using a by (simp add: IBLOCK_def mk_sb_def LOGSIZE_def MAXOPBLOCKS_def unat_word_ariths)
qed

lemma IBLOCK_bounds: "unat i < 208 \<Longrightarrow> 32 \<le> unat (IBLOCK i mk_sb) \<and> unat (IBLOCK i mk_sb) < 45"
  using IBLOCK_range [of i] by simp

lemma dinode_load_other:
  assumes "off + 64 \<le> length d" and "o' + 64 \<le> length d" and "o' + 64 \<le> off \<or> off + 64 \<le> o'"
  shows "dinode_load (dinode_store ip off d) o' z = dinode_load d o' z"
proof -
  have g: "get_bytes (dinode_store ip off d) q n = get_bytes d q n" if "o' \<le> q" "q + n \<le> o' + 64" for q n
    using store_dinode_other [OF assms(1), of q n ip] assms(2,3) that by auto
  show ?thesis by (simp add: dinode_load_def get16_def get32_def g fun_eq_iff cong: if_cong)
qed

lemma same_slot: "IBLOCK i mk_sb = IBLOCK j mk_sb \<Longrightarrow> dip_off i = dip_off j \<Longrightarrow> i = j"
proof -
  assume a: "IBLOCK i mk_sb = IBLOCK j mk_sb" "dip_off i = dip_off j"
  then have "i div 16 = j div 16" by (simp add: IBLOCK_def)
  moreover have "i mod 16 = j mod 16" using a(2) by (simp add: dip_off_def word_unat_eq_iff)
  ultimately show "i = j" using word_mod_div_equality [of i 16] word_mod_div_equality [of j 16] by metis
qed

lemma winode_ok:
  assumes i: "unat i < 208" and len: "\<And>b. length (img s b) = 1024"
  obtains s' where "winode i a s = Ok s'" and "freeblock s' = freeblock s" and "freeinode s' = freeinode s"
    and "\<And>b. b \<noteq> IBLOCK i mk_sb \<Longrightarrow> img s' b = img s b" and "\<And>b. length (img s' b) = 1024"
    and "dcopy (dinodes (img s') i) = dcopy a" and "\<And>j. j \<noteq> i \<Longrightarrow> dinodes (img s') j = dinodes (img s) j"
proof -
  let ?b = "IBLOCK i mk_sb" let ?d = "dinode_store a (dip_off i) (img s ?b)"
  define s' where "s' = wsect ?b ?d s"
  have off: "dip_off j + 64 \<le> length (img s b)" for j b using dip_off_bound [of j] len by simp
  have im: "img s' = (img s)(?b := ?d)" by (simp add: s'_def wsect_def)
  have run: "winode i a s = Ok s'" using IBLOCK_bounds [OF i] by (simp add: winode_def rsect_def s'_def Let_def)
  have "dinodes (img s') j = dinodes (img s) j" if j: "j \<noteq> i" for j
  proof (cases "IBLOCK j mk_sb = ?b")
    case True
    then have "dip_off i \<noteq> dip_off j" using same_slot [of i j] j by auto
    then have "dip_off j + 64 \<le> dip_off i \<or> dip_off i + 64 \<le> dip_off j" by (auto simp: dip_off_def)
    then show ?thesis using dinode_load_other [of "dip_off i" "img s ?b" "dip_off j" a zero_inode] off True by (simp add: dinodes_def im)
  qed (simp add: dinodes_def im)
  moreover have "dcopy (dinodes (img s') i) = dcopy a" using load_store_dinode [of "dip_off i" "img s ?b" a zero_inode] off i by (simp add: dinodes_def im)
  ultimately show ?thesis
    by (intro that [OF run]) (use length_dinode_store [of "dip_off i" "img s ?b" a] off len in \<open>auto simp: im\<close>, simp_all add: s'_def wsect_def)
qed

end
