(* ===== verification/Dir.thy ===== *)
theory Dir
  imports Readi
begin

text \<open>
  Directories. \<^verbatim>\<open>dirlookup\<close> reads the entries of a directory one after the other through \<^verbatim>\<open>readi\<close>; the
  property says that it finds the first entry of the given name and that it returns 0 when there is none.
\<close>

section \<open>Entries\<close>

definition dirent_at :: "(u32 \<Rightarrow> block) \<Rightarrow> inode \<Rightarrow> nat \<Rightarrow> byte list" where
  "dirent_at f a j = map (fbyte f a) [16 * j..<16 * j + 16]"

text \<open>The entry is in use and has the name \<open>nm\<close>, cut at \<^verbatim>\<open>DIRSIZ\<close> bytes.\<close>

definition dirent_is :: "byte list \<Rightarrow> byte list \<Rightarrow> bool" where
  "dirent_is nm de \<longleftrightarrow> de_inum de \<noteq> 0 \<and> strncpy_l DIRSIZ (de_name de) = strncpy_l DIRSIZ nm"

lemma dirent_is_namecmp: "de_inum de \<noteq> 0 \<and> namecmp nm (de_name de) = 0 \<longleftrightarrow> dirent_is nm de"
  by (auto simp: dirent_is_def namecmp_def strncmp_l_eq_0_iff)

lemma fmapped_mono: "fmapped f a lo hi \<Longrightarrow> lo \<le> lo' \<Longrightarrow> hi' \<le> hi \<Longrightarrow> fmapped f a lo' hi'"
  by (auto simp: fmapped_def)

lemma read_de_ok:
  assumes t: "txn s {} w" and dev: "idev (itab s dp) = ROOTDEV" and map: "fmapped (blk s) (itab s dp) 0 (16 * j + 16)"
    and n: "16 * j + 16 \<le> unat (isize (itab s dp))"
  obtains s' where "read_de msg dp (of_nat (16 * j)) s = Ok (dirent_at (blk s) (itab s dp) j, s')" and "txn s' {} w" and "blk s' = blk s" and "mkeep s s'"
proof -
  let ?off = "of_nat (16 * j) :: u32"
  have u: "unat ?off = 16 * j" by (rule unat_of_nat_u32) (use n unsigned_less [of "isize (itab s dp)", where ?'a = nat] in simp)
  have e: "unat (16 :: u32) = 16" by simp
  have m: "fmapped (blk s) (itab s dp) (unat ?off) (unat ?off + unat (16 :: u32))" unfolding u e by (rule fmapped_mono [OF map]) simp_all
  obtain s' where r: "readi dp False (kscr s) ?off 16 s = Ok (16, s')" "txn s' {} w" "blk s' = blk s" "mkeep s s'"
      "pmem s' = store (pmem s) (kscr s) (take (unat (16 :: u32)) (drop (unat ?off) (fdata (blk s) (itab s dp))))"
    by (rule readi_ok [OF t dev m]) (use n u in simp, rule that)
  have d: "take 16 (drop (16 * j) (fdata (blk s) (itab s dp))) = dirent_at (blk s) (itab s dp) j"
    using n by (simp add: fdata_def dirent_at_def drop_map take_map)
  have "load (pmem s') (kscr s) 16 = dirent_at (blk s) (itab s dp) j"
    unfolding r(5) u e d by (rule load_store_same) (simp_all add: dirent_at_def)
  then have "read_de msg dp ?off s = Ok (dirent_at (blk s) (itab s dp) j, s')" using r(1) mkeep_fs [OF r(4)] by (simp add: read_de_def)
  then show ?thesis by (rule that) (use r in auto)
qed

section \<open>The search\<close>

lemma dirlookup_step:
  assumes t: "txn s {} w" and dev: "idev (itab s dp) = ROOTDEV" and map: "fmapped (blk s) (itab s dp) 0 (16 * j + 16)"
    and n: "16 * j + 16 \<le> unat (isize (itab s dp))"
  obtains s1 where "dirlookup_loop (Suc fuel) (of_nat (16 * j)) dp nm s =
      (if dirent_is nm (dirent_at (blk s) (itab s dp) j)
       then obind (iget ROOTDEV (ucast (de_inum (dirent_at (blk s) (itab s dp) j))) s1) (\<lambda>(ip, s). Ok (Some (ip, of_nat (16 * j)), s))
       else dirlookup_loop fuel (of_nat (16 * Suc j)) dp nm s1)"
    and "txn s1 {} w" and "blk s1 = blk s" and "mkeep s s1" and "itab s1 = itab s"
proof -
  let ?a = "itab s dp"
  have u: "unat (of_nat (16 * j) :: u32) = 16 * j" by (rule unat_of_nat_u32) (use n unsigned_less [of "isize ?a", where ?'a = nat] in simp)
  have lt: "of_nat (16 * j) < isize ?a" unfolding word_less_nat_alt u using n by simp
  obtain s1 where r: "read_de ''dirlookup read'' dp (of_nat (16 * j)) s = Ok (dirent_at (blk s) ?a j, s1)" "txn s1 {} w" "blk s1 = blk s" "mkeep s s1"
    by (rule read_de_ok [OF t dev map n]) (rule that)
  have it: "itab s1 = itab s" using mkeep_fs [OF r(4)] by simp
  show ?thesis
    by (rule that [OF _ r(2-4) it]) (use r(1) lt dirent_is_namecmp [of "dirent_at (blk s) ?a j" nm] dev in \<open>auto simp: it add.commute\<close>)
qed

text \<open>From entry \<open>j\<close> on: the search stops at the first match, and runs to the end of the directory when there is none.\<close>

lemma dirlookup_loop_found:
  assumes "txn s {} w" and "idev (itab s dp) = ROOTDEV" and "fmapped (blk s) (itab s dp) 0 (16 * k + 16)" and "16 * k + 16 \<le> unat (isize (itab s dp))"
    and "\<And>i. i < k \<Longrightarrow> j \<le> i \<Longrightarrow> \<not> dirent_is nm (dirent_at (blk s) (itab s dp) i)" and "dirent_is nm (dirent_at (blk s) (itab s dp) k)"
    and "j + n = k" and "n < fuel"
  shows "\<exists>s'. txn s' {} w \<and> blk s' = blk s \<and> mkeep s s' \<and> dirlookup_loop fuel (of_nat (16 * j)) dp nm s =
     obind (iget ROOTDEV (ucast (de_inum (dirent_at (blk s) (itab s dp) k))) s') (\<lambda>(ip, s). Ok (Some (ip, of_nat (16 * k)), s))"
  using assms
proof (induction n arbitrary: s j fuel)
  case (0 s j fuel)
  obtain g where g: "fuel = Suc g" using 0(8) by (cases fuel) auto
  have j: "j = k" using 0(7) by simp
  show ?case unfolding g j by (rule dirlookup_step [OF 0(1-4), of g nm]) (use 0(6) in \<open>auto simp del: dirlookup_loop.simps\<close>)
next
  case (Suc n s j fuel)
  note p = Suc.prems
  obtain g where g: "fuel = Suc g" using p(8) by (cases fuel) auto
  have jk: "j < k" "16 * j + 16 \<le> 16 * k + 16" using p(7) by auto
  have no: "\<not> dirent_is nm (dirent_at (blk s) (itab s dp) j)" by (rule p(5)) (use jk in simp_all)
  obtain s1 where e: "dirlookup_loop (Suc g) (of_nat (16 * j)) dp nm s = dirlookup_loop g (of_nat (16 * Suc j)) dp nm s1"
    and r: "txn s1 {} w" "blk s1 = blk s" "mkeep s s1" "itab s1 = itab s"
    by (rule dirlookup_step [OF p(1,2) fmapped_mono [OF p(3) order_refl jk(2)] order_trans [OF jk(2) p(4)], of g nm]) (use no that in \<open>simp del: dirlookup_loop.simps\<close>)
  have "\<exists>s'. txn s' {} w \<and> blk s' = blk s1 \<and> mkeep s1 s' \<and> dirlookup_loop g (of_nat (16 * Suc j)) dp nm s1 =
      obind (iget ROOTDEV (ucast (de_inum (dirent_at (blk s1) (itab s1 dp) k))) s') (\<lambda>(ip, s). Ok (Some (ip, of_nat (16 * k)), s))"
    by (rule Suc.IH) (use p r g in \<open>auto simp: r\<close>)
  then show ?case unfolding g e r(2,4) using mkeep_trans [OF r(3)] by blast
qed

lemma dirlookup_loop_none:
  assumes "txn s {} w" and "idev (itab s dp) = ROOTDEV" and "fmapped (blk s) (itab s dp) 0 (16 * k)" and "unat (isize (itab s dp)) = 16 * k"
    and "\<And>i. i < k \<Longrightarrow> j \<le> i \<Longrightarrow> \<not> dirent_is nm (dirent_at (blk s) (itab s dp) i)" and "j + n = k" and "n < fuel"
  shows "\<exists>s'. txn s' {} w \<and> blk s' = blk s \<and> mkeep s s' \<and> dirlookup_loop fuel (of_nat (16 * j)) dp nm s = Ok (None, s')"
  using assms
proof (induction n arbitrary: s j fuel)
  case (0 s j fuel)
  obtain g where g: "fuel = Suc g" using 0(7) by (cases fuel) auto
  have "of_nat (unat (isize (itab s dp))) = isize (itab s dp)" by simp
  then have "of_nat (16 * j) = isize (itab s dp)" unfolding 0(4) using 0(6) by simp
  then show ?case unfolding g using 0(1) mkeep_tkeep [OF tkeep_refl] by auto
next
  case (Suc n s j fuel)
  note p = Suc.prems
  obtain g where g: "fuel = Suc g" using p(7) by (cases fuel) auto
  have jk: "j < k" "16 * j + 16 \<le> 16 * k" "16 * j + 16 \<le> unat (isize (itab s dp))" using p(4,6) by auto
  have no: "\<not> dirent_is nm (dirent_at (blk s) (itab s dp) j)" by (rule p(5)) (use jk in simp_all)
  obtain s1 where e: "dirlookup_loop (Suc g) (of_nat (16 * j)) dp nm s = dirlookup_loop g (of_nat (16 * Suc j)) dp nm s1"
    and r: "txn s1 {} w" "blk s1 = blk s" "mkeep s s1" "itab s1 = itab s"
    by (rule dirlookup_step [OF p(1,2) fmapped_mono [OF p(3) order_refl jk(2)] jk(3), of g nm]) (use no that in \<open>simp del: dirlookup_loop.simps\<close>)
  have "\<exists>s'. txn s' {} w \<and> blk s' = blk s1 \<and> mkeep s1 s' \<and> dirlookup_loop g (of_nat (16 * Suc j)) dp nm s1 = Ok (None, s')"
    by (rule Suc.IH) (use p r g in \<open>auto simp: r\<close>)
  then show ?case unfolding g e r(2) using mkeep_trans [OF r(3)] by blast
qed
text \<open>The first entry of the name \<open>nm\<close> among the entries of the directory \<open>a\<close>.\<close>

definition dir_first :: "byte list \<Rightarrow> (u32 \<Rightarrow> block) \<Rightarrow> inode \<Rightarrow> nat option" where
  "dir_first nm f a = find (\<lambda>j. dirent_is nm (dirent_at f a j)) [0..<unat (isize a) div 16]"

lemma dir_first_Some:
  assumes "dir_first nm f a = Some k"
  shows "16 * k + 16 \<le> unat (isize a)" and "dirent_is nm (dirent_at f a k)" and "\<And>i. i < k \<Longrightarrow> \<not> dirent_is nm (dirent_at f a i)"
  using assms by (auto simp: dir_first_def find_Some_iff)


definition ex_dir :: inode where
  "ex_dir = zero_inode\<lparr>idev := ROOTDEV, itype := T_DIR, isize := 16, iaddrs := (\<lambda>_. 46)\<rparr>"

definition ex_dir_img :: "u32 \<Rightarrow> block" where
  "ex_dir_img = ex_img(46 := [1, 0, 97] @ replicate 1021 0)"


end
