(* ===== verification/Mkimage.thy ===== *)
theory Mkimage
  imports Mkfs Dir
begin

text \<open>
  What \<^verbatim>\<open>mkfs\<close> puts on the disk and how the kernel sees it. The lemmas follow the image through the
  steps of \<^verbatim>\<open>main\<close>; the properties say that the kernel finds a well-formed file system on it, and that
  \<^verbatim>\<open>readi\<close> returns the bytes of the files \<^verbatim>\<open>mkfs\<close> was given.
\<close>

section \<open>The image between two steps\<close>

text \<open>The image is consistent when its inodes are the ones of \<open>B\<close>.\<close>

definition mk_okA :: "mkfs_state \<Rightarrow> (u32 \<Rightarrow> inode) \<Rightarrow> bool" where
  "mk_okA s B \<longleftrightarrow> mk_inv (img s) B (unat (freeblock s)) \<and> img s 1 = put_bytes (replicate BSIZE 0) 0 (sb_bytes mk_sb)
     \<and> (\<forall>b. b = 0 \<or> 2 \<le> unat b \<and> unat b < 32 \<longrightarrow> img s b = replicate BSIZE 0)
     \<and> (\<forall>i. fmapped (img s) (B i) 0 (unat (isize (B i))) \<and> unat (isize (B i)) \<le> MAXFILE * BSIZE)"

definition mk_ok :: "mkfs_state \<Rightarrow> bool" where
  "mk_ok s \<longleftrightarrow> mk_okA s (dinodes (img s))"

lemma saddr_dcopy: "(\<And>j. dcopy (A' j) = dcopy (A j)) \<Longrightarrow> saddr f A' = saddr f A"
  using dcopy_addrs [of "A' j" "A j" NDIRECT for j] dcopy_fblock [of "A' j" "A j" f for j]
  by (auto simp: saddr_def fun_eq_iff split: option.split)

lemma mk_inv_dcopy: "(\<And>j. dcopy (A' j) = dcopy (A j)) \<Longrightarrow> mk_inv f A' fb = mk_inv f A fb"
  using saddr_dcopy [of A' A f] by (simp add: mk_inv_def)

text \<open>Writing to the blocks between the log and the data area changes no file.\<close>

lemma meta_write:
  assumes inv: "mk_inv f A fb" and same: "\<And>b. \<not> (32 \<le> unat b \<and> unat b < 46) \<Longrightarrow> f' b = f b" and len: "\<And>b. length (f' b) = 1024"
  shows "mk_inv f' A fb" and "\<And>j k. k < MAXFILE \<Longrightarrow> fblock f' (A j) k = fblock f (A j) k"
    and "\<And>j n. n < MAXFILE * BSIZE \<Longrightarrow> fbyte f' (A j) n = fbyte f (A j) n"
proof -
  note d = mk_invD [OF inv]
  have out: "f' (saddr f A x) = f (saddr f A x)" for x using d(5) [of x] by (cases "saddr f A x = 0") (auto intro!: same)
  show fb: "fblock f' (A j) k = fblock f (A j) k" if "k < MAXFILE" for j k
    using out [of "(j, None)"] by (simp add: fblock_def saddr_def)
  then have sa: "saddr f' A = saddr f A" by (auto simp: saddr_def fun_eq_iff split: option.split)
  have "f' b = replicate 1024 0" if "fb \<le> unat b" for b using d(2) [OF that] d(3) that same [of b] by auto
  then show "mk_inv f' A fb" using inv len unfolding mk_inv_def sa by (auto simp del: split_paired_All)
  show "fbyte f' (A j) n = fbyte f (A j) n" if "n < MAXFILE * BSIZE" for j n
  proof -
    have k: "n div BSIZE < MAXFILE" using that by (simp add: less_mult_imp_div_less)
    then show ?thesis using fb [OF k, of j] out [of "(j, Some (n div BSIZE))"] by (simp add: fbyte_def saddr_def)
  qed
qed

lemma mk_okAD:
  assumes "mk_okA s B"
  shows "mk_inv (img s) B (unat (freeblock s))" "img s 1 = put_bytes (replicate BSIZE 0) 0 (sb_bytes mk_sb)"
    "\<And>b. b = 0 \<or> 2 \<le> unat b \<and> unat b < 32 \<Longrightarrow> img s b = replicate BSIZE 0"
    "\<And>i. fmapped (img s) (B i) 0 (unat (isize (B i)))" "\<And>i. unat (isize (B i)) \<le> MAXFILE * BSIZE"
  using assms unfolding mk_okA_def by blast+

lemma fdata_cong:
  "(\<And>n. n < MAXFILE * BSIZE \<Longrightarrow> fbyte f' a n = fbyte f a n) \<Longrightarrow> unat (isize a) \<le> MAXFILE * BSIZE \<Longrightarrow> fdata f' a = fdata f a"
  by (simp add: fdata_def)

lemma fmapped_cong:
  "(\<And>k. k < MAXFILE \<Longrightarrow> fblock f' a k = fblock f a k) \<Longrightarrow> hi \<le> MAXFILE * BSIZE \<Longrightarrow> fmapped f' a lo hi = fmapped f a lo hi"
  unfolding fmapped_def by auto

lemma winode_mk_ok:
  assumes ok: "mk_okA s ((dinodes (img s))(i := a))" and i: "unat i < 208"
  obtains s' where "winode i a s = Ok s'" and "mk_ok s'" and "freeinode s' = freeinode s" and "freeblock s' = freeblock s"
    and "\<And>j. dcopy (dinodes (img s') j) = dcopy (((dinodes (img s))(i := a)) j)"
    and "\<And>j. fdata (img s') (dinodes (img s') j) = fdata (img s) (((dinodes (img s))(i := a)) j)"
proof -
  let ?B = "(dinodes (img s))(i := a)"
  note d = mk_okAD [OF ok] and ib = IBLOCK_bounds [OF i]
  obtain s' where w: "winode i a s = Ok s'" "freeblock s' = freeblock s" "freeinode s' = freeinode s"
    "\<And>b. b \<noteq> IBLOCK i mk_sb \<Longrightarrow> img s' b = img s b" "\<And>b. length (img s' b) = 1024"
    "dcopy (dinodes (img s') i) = dcopy a" "\<And>j. j \<noteq> i \<Longrightarrow> dinodes (img s') j = dinodes (img s) j"
    by (rule winode_ok [OF i mk_invD(1) [OF d(1)]]) (rule that)
  have same: "img s' b = img s b" if "\<not> (32 \<le> unat b \<and> unat b < 46)" for b using w(4) [of b] ib that by (cases "b = IBLOCK i mk_sb") auto
  note m = meta_write [OF d(1) same w(5)]
  have dc: "dcopy (dinodes (img s') j) = dcopy (?B j)" for j using w(6,7) by simp
  have sz: "isize (dinodes (img s') j) = isize (?B j)" for j using dc [of j] by (simp add: dcopy_def)
  have fd: "fdata (img s') (dinodes (img s') j) = fdata (img s) (?B j)" for j
    using dcopy_fdata [OF dc [of j], of "img s'"] fdata_cong [OF m(3) d(5), of j] by simp
  have fm: "fmapped (img s') (dinodes (img s') j) 0 (unat (isize (?B j)))" for j
    using dcopy_fdata [OF dc [of j], of "img s'"] fmapped_cong [OF m(2) d(5), of j 0] d(4) [of j] by simp
  have "mk_inv (img s') (dinodes (img s')) (unat (freeblock s'))"
    unfolding w(2) by (subst mk_inv_dcopy [OF dc]) (rule m(1))
  then have "mk_ok s'"
    unfolding mk_ok_def mk_okA_def using d(2,3) d(5) [unfolded sz [symmetric]] fm [unfolded sz [symmetric]] same by auto
  then show ?thesis by (rule that [OF w(1)]) (use w dc fd in auto)
qed
text \<open>A step that changes inode \<open>i\<close> only, to type \<open>ty\<close> and contents \<open>bs\<close>.\<close>

definition inode_step :: "mkfs_state \<Rightarrow> u32 \<Rightarrow> u16 \<Rightarrow> byte list \<Rightarrow> mkfs_state \<Rightarrow> bool" where
  "inode_step s i ty bs s' \<longleftrightarrow> mk_ok s' \<and> itype (dinodes (img s') i) = ty \<and> fdata (img s') (dinodes (img s') i) = bs
     \<and> (\<forall>j. j \<noteq> i \<longrightarrow> itype (dinodes (img s') j) = itype (dinodes (img s) j) \<and> fdata (img s') (dinodes (img s') j) = fdata (img s) (dinodes (img s) j))"

lemma dcopy_itype: "dcopy a = dcopy b \<Longrightarrow> itype a = itype b"
  by (simp add: dcopy_def)

lemma mk_inv_clear:
  assumes inv: "mk_inv f A fb" and a: "\<And>k. iaddrs a k = 0"
  shows "mk_inv f (A(i := a)) fb"
proof -
  have sa: "saddr f (A(i := a)) x = (if fst x = i then 0 else saddr f A x)" for x
    using a by (auto simp: saddr_def fblock_def split: option.split)
  have "x = y" if "saddr f (A(i := a)) x = saddr f (A(i := a)) y" "saddr f (A(i := a)) x \<noteq> 0" for x y
    using that mk_invD(7) [OF inv, of x y] by (auto simp: sa split: if_splits)
  moreover have "nmeta \<le> unat (saddr f (A(i := a)) x) \<and> unat (saddr f (A(i := a)) x) < fb" if "saddr f (A(i := a)) x \<noteq> 0" for x
    using that mk_invD(5,6) [OF inv, of x] unfolding nmeta_46 sa by (auto split: if_splits)
  ultimately show ?thesis using inv unfolding mk_inv_def by blast
qed

lemma mk_ialloc_ok:
  assumes ok: "mk_ok s" and i: "unat (freeinode s) < 208"
  obtains s' where "mk_ialloc ty s = Ok (freeinode s, s')" and "inode_step s (freeinode s) ty [] s'" and "freeinode s' = freeinode s + 1"
proof -
  let ?i = "freeinode s" let ?a = "zero_inode\<lparr>itype := ty, inlink := 1, isize := 0\<rparr>"
  let ?s = "s\<lparr>freeinode := freeinode s + 1\<rparr>"
  note d = mk_okAD [OF ok [unfolded mk_ok_def]]
  have "mk_inv (img s) ((dinodes (img s))(?i := ?a)) (unat (freeblock s))" by (rule mk_inv_clear [OF d(1)]) (simp add: zero_inode_def)
  moreover have "fmapped (img s) ?a 0 0" by (simp add: fmapped_def)
  ultimately have "mk_okA ?s ((dinodes (img ?s))(?i := ?a))" using d(2-5) by (auto simp: mk_okA_def)
  from this i obtain s' where w: "winode ?i ?a ?s = Ok s'" "mk_ok s'" "freeinode s' = freeinode ?s" "freeblock s' = freeblock ?s"
    "\<And>j. dcopy (dinodes (img s') j) = dcopy (((dinodes (img ?s))(?i := ?a)) j)"
    "\<And>j. fdata (img s') (dinodes (img s') j) = fdata (img ?s) (((dinodes (img ?s))(?i := ?a)) j)"
    by (rule winode_mk_ok) (rule that)
  have "itype (dinodes (img s') j) = itype (((dinodes (img s))(?i := ?a)) j)" for j using dcopy_itype [OF w(5), of j] by simp
  then have "inode_step s ?i ty [] s'" using w(2,6) by (simp add: inode_step_def fdata_def)
  then show ?thesis by (rule_tac that) (use w in \<open>simp_all add: mk_ialloc_def Let_def\<close>)
qed

lemma iappend_ok:
  assumes ok: "mk_ok s" and i: "unat i < 208" and run: "iappend i p s = Ok s'"
  shows "inode_step s i (itype (dinodes (img s) i)) (fdata (img s) (dinodes (img s) i) @ p) s'" and "freeinode s' = freeinode s"
proof -
  let ?A = "dinodes (img s)"
  note d = mk_okAD [OF ok [unfolded mk_ok_def]] and ib = IBLOCK_bounds [OF i]
  have r: "rinode i s = Ok (?A i)" using ib i by (simp add: rinode_def rsect_def dinodes_def Let_def)
  obtain din off s1 where l: "iappend_loop (?A i) (isize (?A i)) p s = Ok (din, off, s1)" and w: "winode i (din\<lparr>isize := off\<rparr>) s1 = Ok s'"
    using run r by (auto simp: iappend_def obind_Ok_iff)
  have "append_post s ?A i (unat (isize (?A i))) p din (unat off) s1"
    by (rule iappend_loop_ok [OF l d(1) refl]) (use d(4,5) [of i] in auto)
  then have a: "mk_inv (img s1) (?A(i := din)) (unat (freeblock s1))" "unat off \<le> MAXFILE * BSIZE" "fmapped (img s1) din 0 (unat off)"
    "fbytes (img s1) din (unat off) = fbytes (img s) (?A i) (unat (isize (?A i))) @ p"
    "\<And>j k. j \<noteq> i \<Longrightarrow> k < MAXFILE \<Longrightarrow> fblock (img s1) (?A j) k = fblock (img s) (?A j) k"
    "\<And>j n. j \<noteq> i \<Longrightarrow> n < MAXFILE * BSIZE \<Longrightarrow> fbyte (img s1) (?A j) n = fbyte (img s) (?A j) n"
    "\<And>b. unat b < 46 \<Longrightarrow> img s1 b = img s b" "freeinode s1 = freeinode s" "din\<lparr>iaddrs := iaddrs (?A i)\<rparr> = ?A i"
    unfolding append_post_def nmeta_46 by blast+
  have "img s1 (IBLOCK j mk_sb) = img s (IBLOCK j mk_sb)" if "unat j < 208" for j using a(7) IBLOCK_bounds [OF that] by simp
  then have di: "dinodes (img s1) = ?A" by (auto simp: dinodes_def fun_eq_iff)
  let ?a = "din\<lparr>isize := off\<rparr>"
  have fa: "fblock f ?a = fblock f din" "fbyte f ?a = fbyte f din" for f by (simp_all add: fblock_def fbyte_def fun_eq_iff)
  have sa: "saddr (img s1) (?A(i := ?a)) = saddr (img s1) (?A(i := din))" by (auto simp: saddr_def fa(1) fun_eq_iff split: option.split)
  have "mk_okA s1 ((dinodes (img s1))(i := ?a))"
    unfolding di mk_okA_def
  proof (intro conjI allI impI)
    show "mk_inv (img s1) (?A(i := ?a)) (unat (freeblock s1))" using a(1) unfolding mk_inv_def sa .
    show "fmapped (img s1) ((?A(i := ?a)) j) 0 (unat (isize ((?A(i := ?a)) j)))" for j
    proof (cases "j = i")
      case False
      have "fmapped (img s1) (?A j) 0 (unat (isize (?A j))) = fmapped (img s) (?A j) 0 (unat (isize (?A j)))"
        by (rule fmapped_cong [OF a(5) d(5)]) (rule False)
      then show ?thesis using False d(4) [of j] by simp
    qed (use a(3) in \<open>simp add: fmapped_def fa\<close>)
  qed (use a(2,7) d(2,3,5) in auto)
  from this i obtain s2 where w': "winode i ?a s1 = Ok s2" "mk_ok s2" "freeinode s2 = freeinode s1" "freeblock s2 = freeblock s1"
    "\<And>j. dcopy (dinodes (img s2) j) = dcopy (((dinodes (img s1))(i := ?a)) j)"
    "\<And>j. fdata (img s2) (dinodes (img s2) j) = fdata (img s1) (((dinodes (img s1))(i := ?a)) j)"
    by (rule winode_mk_ok) (rule that)
  have e: "s2 = s'" using w w'(1) by simp
  have ty: "itype (dinodes (img s') j) = itype ((?A(i := ?a)) j)" for j using dcopy_itype [OF w'(5), of j] by (simp add: e di)
  have it: "itype din = itype (?A i)" using arg_cong [OF a(9), of itype] by simp
  have fi: "fdata (img s1) ?a = fdata (img s) (?A i) @ p" using a(4) by (simp add: fdata_def fbytes_def fa)
  have fj: "fdata (img s1) (?A j) = fdata (img s) (?A j)" if "j \<noteq> i" for j by (rule fdata_cong [OF a(6) d(5)]) (use that in auto)
  show "inode_step s i (itype (?A i)) (fdata (img s) (?A i) @ p) s'"
    unfolding inode_step_def using w'(2,6) ty it fi fj unfolding e di by auto
  show "freeinode s' = freeinode s" using w'(3) a(8) e by simp
qed

section \<open>The whole program\<close>

lemma foldl_stops [simp]:
  "foldl (\<lambda>r x. obind r (g x)) (Panic m) xs = Panic m" "foldl (\<lambda>r x. obind r (g x)) Blocks xs = Blocks"
  by (induction xs) simp_all

lemma foldl_step: "foldl (\<lambda>r x. obind r (g x)) (Ok s) (x # xs) = Ok s' \<Longrightarrow> \<exists>s1. g x s = Ok s1 \<and> foldl (\<lambda>r x. obind r (g x)) (Ok s1) xs = Ok s'"
  by (cases "g x s") simp_all

lemma inode_step_trans: "inode_step s i ty a s1 \<Longrightarrow> inode_step s1 i ty b s2 \<Longrightarrow> inode_step s i ty b s2"
  by (auto simp: inode_step_def)

lemma appends_ok:
  assumes "foldl (\<lambda>r buf. obind r (iappend i buf)) (Ok s) chunks = Ok s'" and "mk_ok s" and "unat i < 208"
  shows "inode_step s i (itype (dinodes (img s) i)) (fdata (img s) (dinodes (img s) i) @ concat chunks) s' \<and> freeinode s' = freeinode s"
  using assms
proof (induction chunks arbitrary: s)
  case Nil
  then show ?case by (simp add: inode_step_def)
next
  case (Cons b chunks)
  obtain s1 where s1: "iappend i b s = Ok s1" "foldl (\<lambda>r buf. obind r (iappend i buf)) (Ok s1) chunks = Ok s'"
    using foldl_step [OF Cons.prems(1)] by blast
  note a = iappend_ok [OF Cons.prems(2,3) s1(1)]
  have ok1: "mk_ok s1" and e: "itype (dinodes (img s1) i) = itype (dinodes (img s) i)" "fdata (img s1) (dinodes (img s1) i) = fdata (img s) (dinodes (img s) i) @ b"
    using a(1) by (auto simp: inode_step_def)
  show ?case using Cons.IH [OF s1(2) ok1 Cons.prems(3)] a(2) inode_step_trans [OF a(1)] unfolding e by auto
qed

text \<open>The entries of the root directory, and the image after some of the files.\<close>

definition root_data :: "(byte list \<times> byte list list) list \<Rightarrow> byte list" where
  "root_data fs = mk_dirent 1 [46] @ mk_dirent 1 [46, 46]
     @ concat (map (\<lambda>(m, f). mk_dirent (of_nat (2 + m)) (mk_strip (mk_shortname (fst f)))) (zip [0..<length fs] fs))"

definition files_done :: "mkfs_state \<Rightarrow> (byte list \<times> byte list list) list \<Rightarrow> bool" where
  "files_done s fs \<longleftrightarrow> mk_ok s \<and> unat (freeinode s) = 2 + length fs \<and> itype (dinodes (img s) 1) = T_DIR
     \<and> fdata (img s) (dinodes (img s) 1) = root_data fs
     \<and> (\<forall>m<length fs. itype (dinodes (img s) (of_nat (2 + m))) = T_FILE \<and> fdata (img s) (dinodes (img s) (of_nat (2 + m))) = concat (snd (fs ! m)))"

lemma root_data_snoc: "root_data (fs @ [f]) = root_data fs @ mk_dirent (of_nat (2 + length fs)) (mk_strip (mk_shortname (fst f)))"
  by (simp add: root_data_def)

lemma mk_file_ok:
  assumes "files_done s fs" and n: "length fs < 198" and run: "mk_file 1 f s = Ok s'"
  shows "files_done s' (fs @ [f])"
proof -
  let ?n = "of_nat (2 + length fs) :: u32" let ?d = "mk_dirent ?n (mk_strip (mk_shortname (fst f)))"
  have ok: "mk_ok s" and fi: "unat (freeinode s) = 2 + length fs" and r: "itype (dinodes (img s) 1) = T_DIR" "fdata (img s) (dinodes (img s) 1) = root_data fs"
    and old: "\<And>m. m < length fs \<Longrightarrow> itype (dinodes (img s) (of_nat (2 + m))) = T_FILE \<and> fdata (img s) (dinodes (img s) (of_nat (2 + m))) = concat (snd (fs ! m))"
    using assms(1) by (auto simp: files_done_def)
  have un: "unat ?n = 2 + length fs" by (rule unat_of_nat_u32) (use n in simp)
  have fn: "freeinode s = ?n" using fi un by (simp add: word_unat_eq_iff)
  have n1: "?n \<noteq> 1" "\<And>m. m < length fs \<Longrightarrow> of_nat (2 + m) \<noteq> ?n \<and> of_nat (2 + m) \<noteq> (1 :: u32)"
  proof -
    have u: "of_nat a \<noteq> (of_nat b :: u32)" if "a < b" "b < 300" for a b :: nat
      using of_nat_u32_inj [of a b] that by auto
    show "?n \<noteq> 1" using u [of 1 "2 + length fs"] n by simp
    show "of_nat (2 + m) \<noteq> ?n \<and> of_nat (2 + m) \<noteq> (1 :: u32)" if "m < length fs" for m
      using u [of "2 + m" "2 + length fs"] u [of 1 "2 + m"] n that by simp
  qed
  obtain s1 where a: "mk_ialloc T_FILE s = Ok (freeinode s, s1)" "inode_step s (freeinode s) T_FILE [] s1" "freeinode s1 = freeinode s + 1"
    by (rule mk_ialloc_ok [OF ok]) (use fi n in simp, rule that)
  obtain arg chunks where f: "f = (arg, chunks)" by fastforce
  obtain s2 where b: "iappend 1 ?d s1 = Ok s2" "foldl (\<lambda>r buf. obind r (iappend ?n buf)) (Ok s2) chunks = Ok s'"
    using run a(1) unfolding fn by (auto simp: mk_file_def f Let_def obind_Ok_iff split: if_splits)
  have ok1: "mk_ok s1" using a(2) by (simp add: inode_step_def)
  note b1 = iappend_ok [OF ok1 _ b(1)]
  have ok2: "mk_ok s2" using b1(1) by (simp add: inode_step_def)
  have c: "inode_step s2 ?n (itype (dinodes (img s2) ?n)) (fdata (img s2) (dinodes (img s2) ?n) @ concat chunks) s'" "freeinode s' = freeinode s2"
    using appends_ok [OF b(2) ok2] un n by auto
  have "unat (freeinode s') = 2 + length (fs @ [f])"
    using c(2) b1(2) a(3) unat_add_small [of ?n 1] un n unfolding fn by simp
  then show ?thesis
    using a(2) b1(1) c(1) n1 r old unfolding fn files_done_def inode_step_def root_data_snoc by (auto simp: nth_append less_Suc_eq f)
qed

lemma get16_zeros_at: "i + 2 \<le> 1024 \<Longrightarrow> get16 (replicate 1024 0) i = 0"
proof -
  assume "i + 2 \<le> 1024"
  then have "get_bytes (replicate 1024 0) i 2 = replicate 2 0" by (simp add: get_bytes_def)
  then show ?thesis by (simp add: get16_def numeral_eq_Suc)
qed

lemma dinode_load_zeros: "off + 64 \<le> 1024 \<Longrightarrow> dinode_load (replicate 1024 0) off zero_inode = zero_inode"
  by (simp add: dinode_load_def zero_inode_def get16_zeros_at get32_zeros_at fun_eq_iff)

lemma length_sb_bytes: "length (sb_bytes sb) = 32"
  by (simp add: sb_bytes_def)

lemma mkfs_init_ok: "mk_ok mkfs_init" "freeinode mkfs_init = 1" "freeblock mkfs_init = 46"
proof -
  let ?f = "img mkfs_init"
  have im: "?f = (\<lambda>_. replicate 1024 0)(1 := put_bytes (replicate 1024 0) 0 (sb_bytes mk_sb))" by (simp add: mkfs_init_def wsect_def)
  show fi: "freeinode mkfs_init = 1" and fb: "freeblock mkfs_init = 46" by (simp_all add: mkfs_init_def wsect_def)
  have "dinodes ?f i = zero_inode" for i
  proof -
    have "IBLOCK i mk_sb \<noteq> 1" if "unat i < 208" using IBLOCK_bounds [OF that] by auto
    then show ?thesis using dip_off_bound [of i] by (simp add: dinodes_def im dinode_load_zeros)
  qed
  then have d: "dinodes ?f = (\<lambda>_. zero_inode)" by auto
  have z: "saddr ?f (\<lambda>_. zero_inode) x = 0" for x by (simp add: saddr_def fblock_def zero_inode_def split: option.split)
  have "?f b = replicate 1024 0" if "46 \<le> unat b" for b using that by (auto simp: im)
  moreover have "length (?f b) = 1024" for b by (simp add: im length_sb_bytes)
  ultimately have "mk_inv ?f (dinodes ?f) (unat (freeblock mkfs_init))" unfolding mk_inv_def d z fb nmeta_46 by simp
  moreover have "fmapped ?f zero_inode 0 0" by (simp add: fmapped_def)
  moreover have "?f b = replicate 1024 0" if "b = 0 \<or> 2 \<le> unat b \<and> unat b < 32" for b using that by (auto simp: im)
  ultimately show "mk_ok mkfs_init" unfolding mk_ok_def mk_okA_def d by (simp add: im zero_inode_def)
qed

lemma files_done_start:
  assumes "mk_ialloc T_DIR mkfs_init = Ok (r, s)" and "iappend r (mk_dirent r [46]) s = Ok s1" and "iappend r (mk_dirent r [46, 46]) s1 = Ok s2"
  shows "r = 1" and "files_done s2 []"
proof -
  note i = mkfs_init_ok
  obtain s' where a: "mk_ialloc T_DIR mkfs_init = Ok (freeinode mkfs_init, s')" "inode_step mkfs_init (freeinode mkfs_init) T_DIR [] s'"
    "freeinode s' = freeinode mkfs_init + 1"
    by (rule mk_ialloc_ok [OF i(1)]) (simp add: i(2), rule that)
  then have r: "r = 1" and s: "s = s'" using assms(1) i(2) by auto
  have ok: "mk_ok s" using a(2) by (simp add: s inode_step_def)
  note b = iappend_ok [OF ok _ assms(2) [unfolded r]]
  have ok1: "mk_ok s1" using b(1) by (simp add: inode_step_def)
  note c = iappend_ok [OF ok1 _ assms(3) [unfolded r]]
  show "r = 1" by (rule r)
  show "files_done s2 []"
    using a(2,3) b c i(2) by (simp add: files_done_def inode_step_def root_data_def s)
qed

lemma mk_files_ok:
  assumes "foldl (\<lambda>r f. obind r (mk_file 1 f)) (Ok s) gs = Ok s'" and "files_done s fs" and "length fs + length gs \<le> 198"
  shows "files_done s' (fs @ gs)"
  using assms
proof (induction gs arbitrary: s fs)
  case Nil
  then show ?case by simp
next
  case (Cons g gs)
  obtain s1 where s1: "mk_file 1 g s = Ok s1" "foldl (\<lambda>r f. obind r (mk_file 1 f)) (Ok s1) gs = Ok s'"
    using foldl_step [OF Cons.prems(1)] by blast
  have "files_done s1 (fs @ [g])" by (rule mk_file_ok [OF Cons.prems(2) _ s1(1)]) (use Cons.prems(3) in simp)
  from Cons.IH [OF s1(2) this] Cons.prems(3) show ?case by simp
qed

section \<open>The finished image\<close>

definition image_ok :: "(u32 \<Rightarrow> block) \<Rightarrow> nat \<Rightarrow> (byte list \<times> byte list list) list \<Rightarrow> bool" where
  "image_ok f fb fs \<longleftrightarrow> mk_inv f (dinodes f) fb \<and> f 1 = put_bytes (replicate BSIZE 0) 0 (sb_bytes mk_sb)
     \<and> (\<forall>b. 2 \<le> unat b \<and> unat b < 32 \<longrightarrow> f b = replicate BSIZE 0) \<and> f 45 = mk_bitmap fb
     \<and> itype (dinodes f 1) = T_DIR \<and> isize (dinodes f 1) = of_nat ((length (root_data fs) div BSIZE + 1) * BSIZE)
     \<and> fmapped f (dinodes f 1) 0 (length (root_data fs)) \<and> map (fbyte f (dinodes f 1)) [0..<length (root_data fs)] = root_data fs
     \<and> (\<forall>m<length fs. itype (dinodes f (of_nat (2 + m))) = T_FILE \<and> fdata f (dinodes f (of_nat (2 + m))) = concat (snd (fs ! m))
          \<and> fmapped f (dinodes f (of_nat (2 + m))) 0 (unat (isize (dinodes f (of_nat (2 + m))))))"

lemma length_mk_bitmap [simp]: "length (mk_bitmap n) = 1024"
  unfolding mk_bitmap_def by (induction n) simp_all

lemma bm_free_mk_bitmap: "n \<le> 8192 \<Longrightarrow> i < 8192 \<Longrightarrow> bm_free (mk_bitmap n) i \<longleftrightarrow> n \<le> i"
proof (induction n)
  case 0
  then show ?case by (simp add: mk_bitmap_def bm_free_bit)
next
  case (Suc n)
  have "mk_bitmap (Suc n) = bm_set (mk_bitmap n) n" by (simp add: mk_bitmap_def)
  then show ?case using Suc by (auto simp: bm_free_set)
qed

lemma sint_small: "unat (x :: u32) < 2 ^ 31 \<Longrightarrow> sint x = int (unat x)"
proof -
  assume "unat x < 2 ^ 31"
  then have "int (unat x) < int (2 ^ 31)" by (simp only: of_nat_less_iff)
  then have a: "- (2 ^ 31) \<le> uint x" "uint x < 2 ^ 31" using order_trans [OF _ uint_ge_0 [of x], of "- (2 ^ 31)"] by simp_all
  have "signed_take_bit 31 (uint x) = uint x" by (rule signed_take_bit_int_eq_self [OF a])
  then show ?thesis by (simp add: sint_uint)
qed

lemma unat_1024: "unat (1024 :: u32) = 1024"
  by simp

lemma finish_image:
  assumes dn: "files_done s fs" and w: "winode 1 ((dinodes (img s) 1)\<lparr>isize := (isize (dinodes (img s) 1) div 1024 + 1) * 1024\<rparr>) s = Ok s1"
    and b: "mk_balloc (freeblock s1) s1 = Ok s2"
  shows "image_ok (img s2) (unat (freeblock s2)) fs"
proof -
  let ?A = "dinodes (img s)" let ?f = "img s2" let ?fb = "unat (freeblock s)"
  let ?a = "(?A 1)\<lparr>isize := (isize (?A 1) div 1024 + 1) * 1024\<rparr>" let ?B = "?A(1 := ?a)"
  note fd = dn [unfolded files_done_def]
  note d = mk_okAD [OF fd [THEN conjunct1, unfolded mk_ok_def]] and iv = mk_invD [OF d(1)]
  obtain s' where w': "winode 1 ?a s = Ok s'" "freeblock s' = freeblock s" "freeinode s' = freeinode s"
    "\<And>b. b \<noteq> IBLOCK 1 mk_sb \<Longrightarrow> img s' b = img s b" "\<And>b. length (img s' b) = 1024"
    "dcopy (dinodes (img s') 1) = dcopy ?a" "\<And>j. j \<noteq> 1 \<Longrightarrow> dinodes (img s') j = ?A j"
    by (rule winode_ok [OF _ iv(1), of 1]) (simp, rule that)
  have s1: "s1 = s'" using w w'(1) by simp
  have fb: "?fb \<le> 2000" using iv(4) by simp
  have "sint (freeblock s) = int ?fb" using fb by (simp add: sint_small)
  then have im: "?f = (img s')(45 := mk_bitmap ?fb)" and fb2: "freeblock s2 = freeblock s"
    using b w'(2) by (auto simp: s1 mk_balloc_def wsect_def mk_sb_def split: if_splits)
  have ib: "32 \<le> unat (IBLOCK i mk_sb) \<and> unat (IBLOCK i mk_sb) < 45" if "unat i < 208" for i using IBLOCK_range [OF that] that by auto
  have di: "dinodes ?f = dinodes (img s')"
  proof
    fix i show "dinodes ?f i = dinodes (img s') i" using ib [of i] by (auto simp: dinodes_def im)
  qed
  have same: "?f b = img s b" if "\<not> (32 \<le> unat b \<and> unat b < 46)" for b
    using that ib [of 1] w'(4) [of b] by (cases "b = IBLOCK 1 mk_sb") (auto simp: im)
  have len: "length (?f b) = 1024" for b using w'(5) by (simp add: im)
  note m = meta_write [OF d(1) same len]
  have dc: "dcopy (dinodes ?f j) = dcopy (?B j)" for j using w'(6,7) by (simp add: di)
  have sa: "saddr ?f ?B = saddr ?f ?A" by (auto simp: saddr_def fblock_def fun_eq_iff split: option.split)
  have "mk_inv ?f ?A ?fb" by (rule m(1))
  then have c1: "mk_inv ?f (dinodes ?f) ?fb" unfolding mk_inv_def saddr_dcopy [of "dinodes ?f" ?B ?f, OF dc] sa .
  have rd: "root_data fs = map (fbyte (img s) (?A 1)) [0..<unat (isize (?A 1))]" "itype (?A 1) = T_DIR" using fd by (simp_all add: fdata_def)
  then have len1: "length (root_data fs) = unat (isize (?A 1))" by simp
  have root: "fblock ?f (dinodes ?f 1) = fblock ?f (?A 1)" "isize (dinodes ?f 1) = isize ?a" "itype (dinodes ?f 1) = itype (?A 1)"
    using dc [of 1] dcopy_fblock [OF dc [of 1], of ?f] by (auto simp: dcopy_def fblock_def)
  have "of_nat (unat (isize (?A 1) div 1024)) = isize (?A 1) div 1024" by simp
  then have sz: "of_nat (unat (isize (?A 1)) div 1024) = isize (?A 1) div 1024" unfolding unat_div_distrib unat_1024 .
  have c2: "isize (dinodes ?f 1) = of_nat ((length (root_data fs) div BSIZE + 1) * BSIZE)" unfolding root(2) len1 using sz by simp
  have c3: "fmapped ?f (dinodes ?f 1) 0 (length (root_data fs))"
    using fmapped_cong [OF m(2) d(5), of 1 0] d(4) [of 1] unfolding len1 fmapped_def root(1) by blast
  have c4: "map (fbyte ?f (dinodes ?f 1)) [0..<length (root_data fs)] = root_data fs"
    using m(3) [of _ 1] d(5) [of 1] by (subst (2) rd(1)) (auto simp: len1 fbyte_def root(1))
  have c5: "itype (dinodes ?f i) = itype (?A i) \<and> fdata ?f (dinodes ?f i) = fdata (img s) (?A i) \<and> fmapped ?f (dinodes ?f i) 0 (unat (isize (dinodes ?f i)))"
    if "i \<noteq> 1" for i
    using w'(7) [OF that] fdata_cong [OF m(3) d(5), of i] fmapped_cong [OF m(2) d(5), of i 0] d(4) [of i] by (simp add: di)
  have c6: "of_nat (2 + m) \<noteq> (1 :: u32)" if "m < length fs" for m
    using that fd unsigned_less [of "freeinode s", where ?'a = nat] of_nat_u32_inj [of "2 + m" 1] by auto
  have c7: "itype (dinodes ?f (of_nat (2 + m))) = T_FILE \<and> fdata ?f (dinodes ?f (of_nat (2 + m))) = concat (snd (fs ! m))
      \<and> fmapped ?f (dinodes ?f (of_nat (2 + m))) 0 (unat (isize (dinodes ?f (of_nat (2 + m)))))" if "m < length fs" for m
    using c5 [OF c6 [OF that]] fd that by simp
  have "?f 1 = put_bytes (replicate BSIZE 0) 0 (sb_bytes mk_sb)" "?f 45 = mk_bitmap ?fb" using same [of 1] d(2) by (simp_all add: im)
  moreover have "?f b = replicate BSIZE 0" if "2 \<le> unat b \<and> unat b < 32" for b using same [of b] d(3) [of b] that by simp
  ultimately show ?thesis unfolding image_ok_def fb2 root(3) using c1 c2 c3 c4 c7 rd(2) by blast
qed

lemma mkfs_main_image:
  assumes run: "mkfs_main fs = Ok s" and n: "length fs \<le> 198"
  shows "image_ok (img s) (unat (freeblock s)) fs"
proof -
  obtain r s0 s1 s2 s3 din s4 where a: "mk_ialloc T_DIR mkfs_init = Ok (r, s0)" "iappend r (mk_dirent r [46]) s0 = Ok s1"
      "iappend r (mk_dirent r [46, 46]) s1 = Ok s2" "foldl (\<lambda>r' f. obind r' (mk_file r f)) (Ok s2) fs = Ok s3"
      "rinode r s3 = Ok din" "winode r (din\<lparr>isize := (isize din div of_nat BSIZE + 1) * of_nat BSIZE\<rparr>) s3 = Ok s4" "mk_balloc (freeblock s4) s4 = Ok s"
    using run by (auto simp: mkfs_main_def obind_Ok_iff split: if_splits)
  note st = files_done_start [OF a(1-3)]
  have fd: "files_done s3 fs" using mk_files_ok [OF a(4) [unfolded st(1)] st(2)] n by simp
  have "IBLOCK 1 mk_sb = 32" by (simp add: IBLOCK_def mk_sb_def)
  then have "din = dinodes (img s3) 1" using a(5) by (auto simp: st(1) rinode_def rsect_def dinodes_def Let_def)
  then show ?thesis using finish_image [OF fd _ a(7)] a(6) by (simp add: st(1))
qed

section \<open>What the kernel finds\<close>

lemma get32_sb:
  assumes "j < 8"
  shows "get32 (put_bytes (replicate 1024 0) 0 (sb_bytes sb)) (4 * j) = [magic sb, sbsize sb, nblocks sb, ninodes sb, nlog sb, logstart sb, inodestart sb, bmapstart sb] ! j"
proof -
  have "get_bytes (put_bytes (replicate 1024 0) 0 (sb_bytes sb)) (4 * j) 4
      = le_bytes 4 ([magic sb, sbsize sb, nblocks sb, ninodes sb, nlog sb, logstart sb, inodestart sb, bmapstart sb] ! j)"
    using assms by (auto simp: get_bytes_def put_bytes_def sb_bytes_def numeral_eq_Suc less_Suc_eq)
  then show ?thesis by (simp add: get32_def le_word_le_bytes_full)
qed

lemma mk_sb_mkfs_sb: "mk_sb = mkfs_sb"
  by (simp add: mk_sb_def mkfs_sb_def)

lemma image_boot:
  assumes im: "image_ok f fb fs"
  shows "txn (fs_on f it) {} 10" and "blk (fs_on f it) = f" and "sblk (fs_on f it) = mkfs_sb" and "itab (fs_on f it) = it"
    and "bitmap_ok (fs_on f it)" and "free_blocks (fs_on f it) = {b. fb \<le> unat b \<and> unat b < FSSIZE}"
proof -
  note d = im [unfolded image_ok_def] and iv = mk_invD [OF im [unfolded image_ok_def, THEN conjunct1]]
  have l: "length (f b) = BSIZE" for b using iv(1) by simp
  have "f 2 = replicate 1024 0" using d by simp
  then have g: "get32 (f 2) 0 = 0" by (simp add: get32_zeros)
  note f = fs_on_ok [of f it, OF l g]
  show "txn (fs_on f it) {} 10" "blk (fs_on f it) = f" "sblk (fs_on f it) = mkfs_sb" "itab (fs_on f it) = it" by (fact f)+
  have bb: "BBLOCK b mkfs_sb = 45 \<and> b mod 8192 = b" if "b < 2000" for b
  proof -
    have "b div 8192 = 0" "b mod 8192 = b" using that by (simp_all add: word_unat_eq_iff unat_div_distrib unat_mod_distrib word_less_nat_alt)
    then show ?thesis by (simp add: BBLOCK_def mkfs_sb_def)
  qed
  have s2: "sbsize mkfs_sb = 2000" by (simp add: mkfs_sb_def)
  have bf: "bfree_bit (fs_on f it) b \<longleftrightarrow> bm_free (mk_bitmap fb) (unat b)" if "b < 2000" for b
    using bb [OF that] d unfolding bfree_bit_def f(2,3) by simp
  have "b \<in> free_blocks (fs_on f it) \<longleftrightarrow> b < 2000 \<and> bm_free (mk_bitmap fb) (unat b)" for b
    using bf [of b] unfolding free_blocks_def f(3) s2 by blast
  moreover have "bm_free (mk_bitmap fb) (unat b) \<longleftrightarrow> fb \<le> unat b" if "b < 2000" for b :: u32
    using bm_free_mk_bitmap [of fb "unat b"] iv(4) that by (simp add: word_less_nat_alt)
  moreover have "b < 2000 \<longleftrightarrow> unat b < FSSIZE" for b :: u32 by (simp add: word_less_nat_alt)
  ultimately show fr: "free_blocks (fs_on f it) = {b. fb \<le> unat b \<and> unat b < FSSIZE}" by blast
  have bm: "bitmap_blocks (fs_on f it) = {45}"
    using bb by (auto simp: bitmap_blocks_def f(3)) (auto simp: mkfs_sb_def image_iff intro!: exI [of _ 0])
  have area: "unat b < 32" if "b \<in> log_area (fs_on f it)" for b
    using that by (auto simp: f(5) unat_word_ariths unat_of_nat_u32)
  show "bitmap_ok (fs_on f it)"
    using area iv(3) by (force simp: bitmap_ok_def bm fr f(3) mkfs_sb_def)
qed

section \<open>Looking up and reading a file of the image\<close>

text \<open>The name \<^verbatim>\<open>mkfs\<close> gives a file, and two names that a directory cannot tell apart.\<close>

definition mk_name :: "byte list \<times> byte list list \<Rightarrow> byte list" where
  "mk_name f = mk_strip (mk_shortname (fst f))"

definition same_name :: "byte list \<Rightarrow> byte list \<Rightarrow> bool" where
  "same_name a b \<longleftrightarrow> strncpy_l DIRSIZ a = strncpy_l DIRSIZ b"

definition root_ents :: "(byte list \<times> byte list list) list \<Rightarrow> (u32 \<times> byte list) list" where
  "root_ents fs = (1, [46]) # (1, [46, 46]) # map (\<lambda>(m, f). (of_nat (2 + m), mk_name f)) (zip [0..<length fs] fs)"

lemma root_data_ents: "root_data fs = concat (map (\<lambda>(i, n). mk_dirent i n) (root_ents fs))"
  by (simp add: root_data_def root_ents_def mk_name_def o_def split_def)

lemma length_mk_dirent [simp]: "length (mk_dirent i n) = 16"
  by (simp add: mk_dirent_def)

lemma length_root_ents [simp]: "length (root_ents fs) = 2 + length fs"
  by (simp add: root_ents_def)

lemma root_ents_01: "root_ents fs ! 0 = (1, [46])" "root_ents fs ! 1 = (1, [46, 46])"
  by (simp_all add: root_ents_def)

lemma two_more: "0 < 2 + (n :: nat)" "1 < 2 + (n :: nat)"
  by simp_all

lemma nth_root_ents: "m < length fs \<Longrightarrow> root_ents fs ! (2 + m) = (of_nat (2 + m), mk_name (fs ! m))"
  by (simp add: root_ents_def)

lemma length_concat_16: "(\<And>x. x \<in> set xs \<Longrightarrow> length x = 16) \<Longrightarrow> length (concat xs) = 16 * length xs"
  by (induction xs) auto

lemma take_drop_concat_16:
  "(\<And>x. x \<in> set xs \<Longrightarrow> length x = 16) \<Longrightarrow> j < length xs \<Longrightarrow> take 16 (drop (16 * j) (concat xs)) = xs ! j"
proof (induction xs arbitrary: j)
  case (Cons x xs)
  then show ?case by (cases j) auto
qed simp

lemma length_root_data: "length (root_data fs) = 16 * (2 + length fs)"
  unfolding root_data_ents by (subst length_concat_16) auto

lemma root_data_entry: "j < 2 + length fs \<Longrightarrow> take 16 (drop (16 * j) (root_data fs)) = (case root_ents fs ! j of (i, n) \<Rightarrow> mk_dirent i n)"
  unfolding root_data_ents by (subst take_drop_concat_16) (auto simp: case_prod_beta)

lemma strncpy_l_filled: "strncpy_l n (take n (a @ replicate n 0)) = strncpy_l n a"
proof (induction n arbitrary: a)
  case (Suc n)
  have "take k (0 # replicate n 0) = replicate k (0 :: byte)" if "k \<le> n" for k using that by (cases k) auto
  then show ?case using Suc by (cases a) auto
qed simp

lemma de_mk_dirent: "de_inum (mk_dirent i n) = ucast i" "dirent_is nm (mk_dirent i n) \<longleftrightarrow> ucast i \<noteq> (0 :: u16) \<and> same_name n nm"
  by (simp_all add: dirent_is_def de_inum_def de_name_def mk_dirent_def same_name_def strncpy_l_filled [of 14, simplified])

lemma iget_fresh:
  assumes "k < NINODE" and "iref (itab s k) = 0"
    and "\<And>j. j < k \<Longrightarrow> iref (itab s j) \<noteq> 0" and "\<And>j. j < NINODE \<Longrightarrow> 0 < iref (itab s j) \<Longrightarrow> inum (itab s j) \<noteq> i"
  shows "iget dev i s = Ok (k, updi k (\<lambda>x. x\<lparr>idev := dev, inum := i, iref := 1, ivalid := False\<rparr>) s)"
proof -
  have "find (\<lambda>ip. iref (itab s ip) > 0 \<and> idev (itab s ip) = dev \<and> inum (itab s ip) = i) [0..<NINODE] = None"
    using assms(4) by (auto simp: find_None_iff)
  moreover have "find (\<lambda>ip. iref (itab s ip) = 0) [0..<NINODE] = Some k"
    unfolding find_Some_iff using assms(1-3) by (intro exI [of _ k]) simp
  ultimately show ?thesis by (simp add: iget_def)
qed

lemma ilock_image:
  assumes t: "txn s {} n" and im: "blk s = f" "sblk s = mkfs_sb" and i: "unat i < 208" "itype (dinodes f i) \<noteq> 0"
    and x: "iref (itab s ip) = 1" "\<not> slocked (ilk (itab s ip))" "\<not> ivalid (itab s ip)" "idev (itab s ip) = ROOTDEV" "inum (itab s ip) = i"
  obtains s' where "ilock ip s = Ok s'" and "txn s' {} n" and "blk s' = f" and "sblk s' = mkfs_sb" and "dcopy (itab s' ip) = dcopy (dinodes f i)"
    and "idev (itab s' ip) = ROOTDEV" and "inum (itab s' ip) = i" and "iref (itab s' ip) = 1" and "\<And>j. j \<noteq> ip \<Longrightarrow> itab s' j = itab s j"
proof -
  have ty: "get16 (blk s (IBLOCK (inum (itab s ip)) (sblk s))) (dip_off (inum (itab s ip))) \<noteq> 0"
    using i by (simp add: im x dinodes_def dinode_load_def mk_sb_mkfs_sb)
  have "1 \<le> iref (itab s ip)" by (simp add: x)
  then obtain s' where r: "ilock ip s = Ok s'" "txn s' {} n" "blk s' = blk s" "sblk s' = sblk s"
    "dcopy (itab s' ip) = dcopy (dinode_load (blk s (IBLOCK (inum (itab s ip)) (sblk s))) (dip_off (inum (itab s ip))) (itab s ip))"
    "inum (itab s' ip) = inum (itab s ip)" "idev (itab s' ip) = idev (itab s ip)" "iref (itab s' ip) = iref (itab s ip)"
    "\<And>j. j \<noteq> ip \<Longrightarrow> itab s' j = itab s j"
    by (rule ilock_ok [OF t _ x(2-4) ty]) (rule that)
  have dc: "dcopy (itab s' ip) = dcopy (dinodes f i)"
    using i(1) unfolding r(5) by (simp add: im x dinodes_def mk_sb_mkfs_sb dinode_load_def dcopy_def)
  show ?thesis by (rule that [OF r(1,2)]) (use r im x dc in auto)
qed

lemma image_entry:
  assumes im: "image_ok f fb fs" and dc: "dcopy a = dcopy (dinodes f 1)" and j: "j < 2 + length fs"
  shows "dirent_at f a j = (case root_ents fs ! j of (i, n) \<Rightarrow> mk_dirent i n)"
proof -
  have "map (fbyte f a) [0..<length (root_data fs)] = root_data fs"
    using im dcopy_fdata [OF dc, of f] by (simp add: image_ok_def)
  then have "take 16 (drop (16 * j) (root_data fs)) = map (fbyte f a) (take 16 (drop (16 * j) [0..<length (root_data fs)]))"
    by (metis drop_map take_map)
  also have "\<dots> = dirent_at f a j" using j by (simp add: dirent_at_def length_root_data)
  finally show ?thesis using root_data_entry [OF j] by simp
qed

lemma round_up_le: "x \<le> (x div 1024 + 1) * 1024" for x :: nat
proof -
  have "q * 1024 + r \<le> (q + 1) * 1024" if "r < 1024" for q r :: nat using that by simp
  from this [of "x mod 1024" "x div 1024"] show ?thesis by (simp only: div_mult_mod_eq mod_less_divisor)
qed

lemma ucast_inum:
  assumes "n < 65536"
  shows "ucast (ucast (of_nat n :: u32) :: u16) = (of_nat n :: u32)" and "ucast (of_nat n :: u32) = (0 :: u16) \<longleftrightarrow> n = 0"
proof -
  have u: "unat (of_nat n :: u32) = n" by (rule unat_of_nat_u32) (use assms in simp)
  have v: "unat (ucast (of_nat n :: u32) :: u16) = n" using assms by (simp add: unsigned_ucast_eq u take_bit_nat_eq_self)
  have "unat (ucast x :: u32) = unat x" for x :: u16 using unsigned_less [of x, where ?'a = nat] by (simp only: unsigned_ucast_eq) (simp add: take_bit_nat_eq_self)
  then have "unat (ucast (ucast (of_nat n :: u32) :: u16) :: u32) = n" using v by (simp only:)
  then show "ucast (ucast (of_nat n :: u32) :: u16) = (of_nat n :: u32)" using u by (simp only: word_unat_eq_iff)
  show "ucast (of_nat n :: u32) = (0 :: u16) \<longleftrightarrow> n = 0" using v by (metis unat_eq_0)
qed

lemma dirlookup_image:
  assumes im: "image_ok f fb fs" and n: "length fs \<le> 198" and m: "m < length fs"
    and t: "txn s {} w" "blk s = f" and a: "dcopy (itab s dp) = dcopy (dinodes f 1)" "idev (itab s dp) = ROOTDEV"
    and new: "\<not> same_name [46] (mk_name (fs ! m))" "\<not> same_name [46, 46] (mk_name (fs ! m))"
      "\<And>i. i < m \<Longrightarrow> \<not> same_name (mk_name (fs ! i)) (mk_name (fs ! m))"
  shows "\<exists>s'. txn s' {} w \<and> blk s' = f \<and> mkeep s s' \<and> dirlookup dp (mk_name (fs ! m)) s =
    obind (iget ROOTDEV (of_nat (2 + m)) s') (\<lambda>(ip, s). Ok (Some (ip, of_nat (16 * (2 + m))), s))"
proof -
  let ?a = "itab s dp" let ?nm = "mk_name (fs ! m)"
  have sz: "isize ?a = of_nat ((16 * (2 + length fs) div 1024 + 1) * 1024)" and ty: "itype ?a = T_DIR"
    using im a(1) by (auto simp: image_ok_def dcopy_def length_root_data)
  have "16 * (2 + length fs) div 1024 \<le> 16 * 200 div 1024" using n by (intro div_le_mono) simp
  then have "16 * (2 + length fs) div 1024 \<le> 3" by simp
  moreover have "unat (of_nat ((q + 1) * 1024) :: u32) = (q + 1) * 1024" if "q \<le> 3" for q by (rule unat_of_nat_u32) (use that in simp)
  ultimately have us: "unat (isize ?a) = (16 * (2 + length fs) div 1024 + 1) * 1024" unfolding sz by blast
  have "16 * (2 + m) + 16 \<le> 16 * (2 + length fs)" using m by simp
  also have "16 * (2 + length fs) \<le> unat (isize ?a)" unfolding us by (rule round_up_le)
  finally have le: "16 * (2 + m) + 16 \<le> unat (isize ?a)" .
  have "fmapped f (dinodes f 1) 0 (16 * (2 + length fs))" using im unfolding image_ok_def length_root_data by blast
  then have "fmapped f ?a 0 (16 * (2 + length fs))" using dcopy_fdata [OF a(1), of f] by simp
  then have mp: "fmapped (blk s) ?a 0 (16 * (2 + m) + 16)" unfolding t(2) by (rule fmapped_mono) (use m in simp_all)
  have ent: "dirent_at f ?a (2 + i) = mk_dirent (of_nat (2 + i)) (mk_name (fs ! i))" if "i \<le> m" for i
    using image_entry [OF im a(1), of "2 + i"] nth_root_ents [of i fs] that m by simp
  have hit: "dirent_is ?nm (dirent_at f ?a (2 + m))" unfolding ent [OF order_refl] de_mk_dirent
    using ucast_inum(2) [of "2 + m"] m n by (simp add: same_name_def)
  have no: "\<not> dirent_is ?nm (dirent_at f ?a i)" if "i < 2 + m" for i
  proof (cases "i < 2")
    case True
    have "dirent_at f ?a 0 = mk_dirent 1 [46]" "dirent_at f ?a 1 = mk_dirent 1 [46, 46]"
      using image_entry [OF im a(1) two_more(1)] image_entry [OF im a(1) two_more(2)] unfolding root_ents_01 prod.case by blast+
    moreover have "i = 0 \<or> i = 1" using True by auto
    ultimately show ?thesis using new(1,2) by (auto simp only: de_mk_dirent)
  next
    case False
    then have k: "i = 2 + (i - 2)" "i - 2 < m" using that by simp_all
    have "\<not> dirent_is ?nm (dirent_at f ?a (2 + (i - 2)))"
      unfolding ent [OF less_imp_le [OF k(2)]] de_mk_dirent using new(3) [OF k(2)] by blast
    then show ?thesis using k(1) by simp
  qed
  have fuel: "2 + m < unat (isize ?a) div 16 + 2" using div_le_mono [OF le, of 16] by simp
  have "\<exists>s'. txn s' {} w \<and> blk s' = blk s \<and> mkeep s s' \<and> dirlookup_loop (unat (isize ?a) div 16 + 2) (of_nat (16 * 0)) dp ?nm s =
      obind (iget ROOTDEV (ucast (de_inum (dirent_at (blk s) ?a (2 + m)))) s') (\<lambda>(ip, s). Ok (Some (ip, of_nat (16 * (2 + m))), s))"
    by (rule dirlookup_loop_found [OF t(1) a(2) mp le no [folded t(2)] hit [folded t(2)] add_0 fuel])
  moreover have "2 + m < 65536" using m n by simp
  ultimately show ?thesis
    unfolding t(2) ent [OF order_refl] de_mk_dirent using ucast_inum(1) [of "2 + m"] ty
    by (simp add: dirlookup_def del: dirlookup_loop.simps)
qed

lemma iget_ilock_image:
  assumes t: "txn s {} n" "blk s = f" "sblk s = mkfs_sb" and i: "unat i < 208" "itype (dinodes f i) \<noteq> 0"
    and k: "k < NINODE" "itab s k = zero_inode" "\<forall>j<k. iref (itab s j) \<noteq> 0" "\<forall>j<NINODE. 0 < iref (itab s j) \<longrightarrow> inum (itab s j) \<noteq> i"
  obtains s1 s2 where "iget ROOTDEV i s = Ok (k, s1)" and "ilock k s1 = Ok s2" and "txn s2 {} n" and "blk s2 = f" and "sblk s2 = mkfs_sb"
    and "dcopy (itab s2 k) = dcopy (dinodes f i)" and "idev (itab s2 k) = ROOTDEV" and "inum (itab s2 k) = i" and "iref (itab s2 k) = 1"
    and "\<And>j. j \<noteq> k \<Longrightarrow> itab s2 j = itab s j"
proof -
  define s1 where "s1 = updi k (\<lambda>x. x\<lparr>idev := ROOTDEV, inum := i, iref := 1, ivalid := False\<rparr>) s"
  have g: "iget ROOTDEV i s = Ok (k, s1)" unfolding s1_def by (rule iget_fresh) (use k in \<open>simp_all add: zero_inode_def\<close>)
  have x: "itab s1 = (itab s)(k := zero_inode\<lparr>idev := ROOTDEV, inum := i, iref := 1, ivalid := False\<rparr>)" by (simp add: s1_def updi_def k(2))
  have y: "txn s1 {} n" "blk s1 = f" "sblk s1 = mkfs_sb" "iref (itab s1 k) = 1" "\<not> slocked (ilk (itab s1 k))" "\<not> ivalid (itab s1 k)"
    "idev (itab s1 k) = ROOTDEV" "inum (itab s1 k) = i"
    unfolding x by (simp_all add: s1_def t zero_inode_def)
  obtain s2 where r: "ilock k s1 = Ok s2" "txn s2 {} n" "blk s2 = f" "sblk s2 = mkfs_sb" "dcopy (itab s2 k) = dcopy (dinodes f i)"
    "idev (itab s2 k) = ROOTDEV" "inum (itab s2 k) = i" "iref (itab s2 k) = 1" and o: "\<And>j. j \<noteq> k \<Longrightarrow> itab s2 j = itab s1 j"
    by (rule ilock_image [OF y(1-3) i y(4-8)]) (rule that)
  show ?thesis by (rule that [OF g r]) (simp add: o x)
qed

lemma image_lookup_read:
  assumes im: "image_ok f fb fs" and n: "length fs \<le> 198" and m: "m < length fs"
    and new: "\<not> same_name [46] (mk_name (fs ! m))" "\<not> same_name [46, 46] (mk_name (fs ! m))"
      "\<And>i. i < m \<Longrightarrow> \<not> same_name (mk_name (fs ! i)) (mk_name (fs ! m))"
  defines "bs \<equiv> concat (snd (fs ! m))" and "s0 \<equiv> fs_on f (\<lambda>_. zero_inode)"
  shows "\<exists>dp s1 s2 ip off s3 s4 s5. iget ROOTDEV ROOTINO s0 = Ok (dp, s1) \<and> ilock dp s1 = Ok s2
    \<and> dirlookup dp (mk_name (fs ! m)) s2 = Ok (Some (ip, off), s3) \<and> ilock ip s3 = Ok s4
    \<and> itype (itab s4 ip) = T_FILE \<and> isize (itab s4 ip) = of_nat (length bs)
    \<and> readi ip False dst 0 (of_nat (length bs)) s4 = Ok (of_nat (length bs), s5) \<and> load (pmem s5) dst (length bs) = bs"
proof -
  let ?n = "of_nat (2 + m) :: u32" let ?a = "dinodes f ?n"
  note b = image_boot [OF im, of "\<lambda>_. zero_inode", folded s0_def]
  have un: "unat ?n = 2 + m" by (rule unat_of_nat_u32) (use m n in simp)
  have fi: "itype ?a = T_FILE" "fdata f ?a = bs" "fmapped f ?a 0 (unat (isize ?a))" and rt: "itype (dinodes f 1) = T_DIR"
    using im m unfolding image_ok_def bs_def by blast+
  have r1: "unat (1 :: u32) < 208" "itype (dinodes f 1) \<noteq> 0" using rt by simp_all
  have z: "iref zero_inode = 0" by (simp add: zero_inode_def)
  have q: "(0 :: nat) < NINODE" "itab s0 0 = zero_inode" "\<forall>j<0. iref (itab s0 j) \<noteq> 0" "\<forall>j<NINODE. 0 < iref (itab s0 j) \<longrightarrow> inum (itab s0 j) \<noteq> 1"
    by (simp_all add: b z)
  obtain s1 s2 where l1: "iget ROOTDEV 1 s0 = Ok (0, s1)" "ilock 0 s1 = Ok s2" and k1: "txn s2 {} 10" "blk s2 = f" "sblk s2 = mkfs_sb"
      "dcopy (itab s2 0) = dcopy (dinodes f 1)" "idev (itab s2 0) = ROOTDEV" "inum (itab s2 0) = 1" "iref (itab s2 0) = 1"
      and j1: "\<And>j. j \<noteq> 0 \<Longrightarrow> itab s2 j = zero_inode"
    by (rule iget_ilock_image [OF b(1-3) r1 q, unfolded b(4)]) (rule that)
  obtain s3 where k3: "txn s3 {} 10" "blk s3 = f" "mkeep s2 s3" "dirlookup 0 (mk_name (fs ! m)) s2 =
      obind (iget ROOTDEV ?n s3) (\<lambda>(ip, s). Ok (Some (ip, of_nat (16 * (2 + m))), s))"
    using dirlookup_image [OF im n m k1(1,2,4,5) new] by blast
  have i3: "itab s3 = itab s2" "sblk s3 = mkfs_sb" using mkeep_fs [OF k3(3)] k1(3) by simp_all
  have r3: "unat ?n < 208" "itype ?a \<noteq> 0" using un m n fi(1) by simp_all
  have n1: "?n \<noteq> 1"
  proof
    assume "?n = 1"
    then have "unat ?n = 1" by (simp only: unat_1)
    then show False using un by simp
  qed
  have q3: "(1 :: nat) < NINODE" "itab s3 1 = zero_inode" "\<forall>j<1. iref (itab s3 j) \<noteq> 0" "\<forall>j<NINODE. 0 < iref (itab s3 j) \<longrightarrow> inum (itab s3 j) \<noteq> ?n"
  proof -
    have "inum (itab s3 j) \<noteq> ?n" if "0 < iref (itab s3 j)" for j
      using that n1 j1 [of j] z unfolding i3(1) by (cases "j = 0") (simp_all only: k1(6), simp_all)
    then show "\<forall>j<NINODE. 0 < iref (itab s3 j) \<longrightarrow> inum (itab s3 j) \<noteq> ?n" by blast
  qed (simp_all add: i3 j1 k1(7))
  obtain s4 s5 where l2: "iget ROOTDEV ?n s3 = Ok (1, s4)" "ilock 1 s4 = Ok s5" and k5: "txn s5 {} 10" "blk s5 = f"
      "dcopy (itab s5 1) = dcopy ?a" "idev (itab s5 1) = ROOTDEV"
    by (rule iget_ilock_image [OF k3(1,2) i3(2) r3 q3]) (rule that)
  have len: "length bs = unat (isize ?a)" using fi(2) by (auto simp: fdata_def)
  then have sz: "of_nat (length bs) = isize ?a" by simp
  have e5: "isize (itab s5 1) = isize ?a" "itype (itab s5 1) = itype ?a" using k5(3) by (simp_all add: dcopy_def)
  note fd = dcopy_fdata [OF k5(3), of f]
  obtain s6 where k6: "readi 1 False dst 0 (isize ?a) s5 = Ok (isize ?a, s6)"
      "pmem s6 = store (pmem s5) dst (take (unat (isize ?a)) (drop (unat (0 :: u32)) (fdata (blk s5) (itab s5 1))))"
    by (rule readi_ok [OF k5(1,4), of 0 "isize ?a"]) (use fi(3) fd e5 k5(2) in simp, use e5 in simp, rule that)
  have "take (unat (isize ?a)) (drop (unat (0 :: u32)) (fdata (blk s5) (itab s5 1))) = bs" using fd fi(2) len k5(2) by simp
  then have "load (pmem s6) dst (length bs) = bs"
    unfolding k6(2) using unsigned_less [of "isize ?a", where ?'a = nat] len by (simp add: load_store_same)
  moreover have "dirlookup 0 (mk_name (fs ! m)) s2 = Ok (Some (1, of_nat (16 * (2 + m))), s4)" using k3(4) l2(1) by simp
  ultimately show ?thesis using l1 l2(2) k6(1) e5 fi(1) unfolding sz by auto
qed

section \<open>A small image\<close>

text \<open>An append that stays within the first block of its file succeeds while there are free blocks.\<close>

lemma append_block0:
  assumes d: "unat (iaddrs din 0) < 2000" and fb: "unat (freeblock s) < 2000" and p: "p \<noteq> []" and l: "unat off + length p \<le> 1024"
  shows "\<exists>din' s'. iappend_loop din off p s = Ok (din', off + of_nat (length p), s') \<and> unat (freeblock s') \<le> unat (freeblock s) + 1"
proof -
  have o: "unat off < 1024" using p l by (cases p) auto
  have q: "off div 1024 = 0" using o by (simp add: word_unat_eq_iff unat_div_distrib)
  have "unat (off div 1024) < 2 ^ 21" by (simp add: q)
  from room_in_block [OF this] have r: "unat ((off div 1024 + 1) * 1024 - off) = 1024 - unat off" unfolding mod_less [OF o] .
  have n1: "iappend_n1 off p = length p" unfolding iappend_n1_def BSIZE_def of_nat_numeral r using l by simp
  have "unat (freeblock s + 1) = unat (freeblock s) + 1" using fresh_word [OF fb] by simp
  then show ?thesis using d fb p q
    by (subst iappend_loop.simps) (simp add: iappend_block_def rsect_def Let_def n1 iappend_loop.simps [of _ _ "[]"] wsect_def)
qed

lemma append_small:
  assumes ok: "mk_ok s" and i: "unat i < 208" and fb: "unat (freeblock s) < 2000" and p: "p \<noteq> []"
    and l: "length (fdata (img s) (dinodes (img s) i)) + length p \<le> 1024"
  obtains s' where "iappend i p s = Ok s'" and "unat (freeblock s') \<le> unat (freeblock s) + 1"
proof -
  let ?a = "dinodes (img s) i"
  note d = mk_okAD [OF ok [unfolded mk_ok_def]] and ib = IBLOCK_bounds [OF i]
  have r: "rinode i s = Ok ?a" using ib i by (simp add: rinode_def rsect_def dinodes_def Let_def)
  have "saddr (img s) (dinodes (img s)) (i, Some 0) = iaddrs ?a 0" by (simp add: saddr_def fblock_def)
  then have "unat (iaddrs ?a 0) < 2000" using mk_invD(4) [OF d(1)] mk_invD(6) [OF d(1), of "(i, Some 0)"] by (cases "iaddrs ?a 0 = 0") auto
  then obtain din' s1 where lp: "iappend_loop ?a (isize ?a) p s = Ok (din', isize ?a + of_nat (length p), s1)" "unat (freeblock s1) \<le> unat (freeblock s) + 1"
    using append_block0 [OF _ fb p, of ?a "isize ?a"] l by (auto simp: fdata_def)
  have "rsect (IBLOCK i mk_sb) s1 = Ok (img s1 (IBLOCK i mk_sb))" using ib by (simp add: rsect_def)
  then have "\<exists>s'. iappend i p s = Ok s' \<and> freeblock s' = freeblock s1" using r lp(1) by (simp add: iappend_def winode_def Let_def wsect_def)
  then show ?thesis using lp(2) that by auto
qed

lemma mk_ialloc_freeblock: "mk_ialloc ty s = Ok (i, s') \<Longrightarrow> freeblock s' = freeblock s"
  by (auto simp: mk_ialloc_def winode_def Let_def wsect_def obind_Ok_iff)

lemma append_small_step:
  assumes "mk_ok s" and "unat i < 208" and "unat (freeblock s) \<le> k" and "k < 2000" and "p \<noteq> []" and "fdata (img s) (dinodes (img s) i) = bs"
    and "length bs + length p \<le> 1024"
  obtains s' where "iappend i p s = Ok s'" and "inode_step s i (itype (dinodes (img s) i)) (bs @ p) s'" and "unat (freeblock s') \<le> k + 1"
proof -
  obtain s' where r: "iappend i p s = Ok s'" "unat (freeblock s') \<le> unat (freeblock s) + 1"
    by (rule append_small [OF assms(1,2) _ assms(5)]) (use assms in simp, use assms in simp, rule that)
  show ?thesis by (rule that [OF r(1)]) (use iappend_ok(1) [OF assms(1,2) r(1)] assms(3,6) r(2) in simp_all)
qed

text \<open>One file \<^verbatim>\<open>user/_cat\<close> whose contents are the three bytes 1, 2, 3, read in two buffers.\<close>

definition ex_file :: "byte list \<times> byte list list" where
  "ex_file = ([117, 115, 101, 114, 47, 95, 99, 97, 116], [[1, 2], [3]])"

lemma ex_file_name: "mk_name ex_file = [99, 97, 116]" "47 \<notin> set (mk_shortname (fst ex_file))"
  by (simp_all add: mk_name_def ex_file_def mk_shortname_def user_slash_def mk_strip_def)

lemma mk_file_ex:
  assumes fd: "files_done s []" and fb: "unat (freeblock s) \<le> 100"
  obtains s' where "mk_file 1 ex_file s = Ok s'"
proof -
  note f = fd [unfolded files_done_def]
  have i2: "freeinode s = 2" using f by (simp add: word_unat_eq_iff)
  obtain s1 where a: "mk_ialloc T_FILE s = Ok (freeinode s, s1)" "inode_step s (freeinode s) T_FILE [] s1" "freeinode s1 = freeinode s + 1"
    by (rule mk_ialloc_ok [of s]) (use f in simp, use i2 in simp, rule that)
  have ok1: "mk_ok s1" and b1: "unat (freeblock s1) \<le> 100" using a mk_ialloc_freeblock [OF a(1)] fb by (simp_all add: inode_step_def)
  have d1: "fdata (img s1) (dinodes (img s1) 1) = root_data []" "fdata (img s1) (dinodes (img s1) 2) = []" using a(2) f by (simp_all add: inode_step_def i2)
  obtain s2 where r2: "iappend 1 (mk_dirent 2 (mk_name ex_file)) s1 = Ok s2" "inode_step s1 1 (itype (dinodes (img s1) 1)) (root_data [] @ mk_dirent 2 (mk_name ex_file)) s2"
      "unat (freeblock s2) \<le> 101"
    by (rule append_small_step [OF ok1 _ b1 _ _ d1(1), of "mk_dirent 2 (mk_name ex_file)"])
      (simp, simp, simp add: mk_dirent_def, simp add: length_root_data, rule that, auto)
  have ok2: "mk_ok s2" and d2: "fdata (img s2) (dinodes (img s2) 2) = []" using r2(2) d1(2) by (simp_all add: inode_step_def)
  obtain s3 where r3: "iappend 2 [1, 2] s2 = Ok s3" "inode_step s2 2 (itype (dinodes (img s2) 2)) ([] @ [1, 2]) s3" "unat (freeblock s3) \<le> 102"
    by (rule append_small_step [OF ok2 _ r2(3) _ _ d2, of "[1, 2]"]) (simp, simp, simp, simp, rule that, auto)
  have ok3: "mk_ok s3" and d3: "fdata (img s3) (dinodes (img s3) 2) = [] @ [1, 2]" using r3(2) by (simp_all add: inode_step_def)
  obtain s4 where r4: "iappend 2 [3] s3 = Ok s4"
    by (rule append_small_step [OF ok3 _ r3(3) _ _ d3, of "[3]"]) (simp, simp, simp, simp, rule that)
  have "mk_file 1 ex_file s = Ok s4"
    using a(1) r2(1) r3(1) r4 ex_file_name by (simp add: mk_file_def ex_file_def mk_name_def Let_def i2)
  then show ?thesis by (rule that)
qed

lemma finish_runs:
  assumes fd: "files_done s fs"
  shows "\<exists>s'. obind (rinode 1 s) (\<lambda>din. obind (winode 1 (din\<lparr>isize := (isize din div of_nat BSIZE + 1) * of_nat BSIZE\<rparr>) s) (\<lambda>s. mk_balloc (freeblock s) s)) = Ok s'"
proof -
  note d = mk_okAD [OF fd [unfolded files_done_def, THEN conjunct1, unfolded mk_ok_def]]
  have fb: "unat (freeblock s) \<le> 2000" using mk_invD(4) [OF d(1)] .
  then have "sint (freeblock s) = int (unat (freeblock s))" by (intro sint_small) simp
  then have "sint (freeblock s) < 8192" using fb by linarith
  moreover have "IBLOCK 1 mk_sb = 32" by (simp add: IBLOCK_def mk_sb_def)
  ultimately show ?thesis by (simp add: rinode_def winode_def rsect_def mk_balloc_def Let_def wsect_def)
qed

lemma mkfs_ex: "\<exists>s. mkfs_main [ex_file] = Ok s"
proof -
  note i = mkfs_init_ok
  obtain s0 where a: "mk_ialloc T_DIR mkfs_init = Ok (1, s0)" "inode_step mkfs_init 1 T_DIR [] s0"
    by (rule mk_ialloc_ok [OF i(1), of T_DIR, unfolded i(2)]) (simp, rule that)
  have ok0: "mk_ok s0" "fdata (img s0) (dinodes (img s0) 1) = []" and b0: "unat (freeblock s0) \<le> 50"
    using a(2) mk_ialloc_freeblock [OF a(1)] i(3) by (simp_all add: inode_step_def)
  obtain s1 where r1: "iappend 1 (mk_dirent 1 [46]) s0 = Ok s1" "inode_step s0 1 (itype (dinodes (img s0) 1)) ([] @ mk_dirent 1 [46]) s1" "unat (freeblock s1) \<le> 50 + 1"
    by (rule append_small_step [OF ok0(1) _ b0 _ _ ok0(2), of "mk_dirent 1 [46]"]) (simp, simp, simp add: mk_dirent_def, simp, rule that)
  have ok1: "mk_ok s1" "fdata (img s1) (dinodes (img s1) 1) = mk_dirent 1 [46]" using r1(2) by (simp_all add: inode_step_def)
  obtain s2 where r2: "iappend 1 (mk_dirent 1 [46, 46]) s1 = Ok s2" "unat (freeblock s2) \<le> 50 + 1 + 1"
    by (rule append_small_step [OF ok1(1) _ r1(3) _ _ ok1(2), of "mk_dirent 1 [46, 46]"]) (simp, simp, simp add: mk_dirent_def, simp, rule that)
  have fd: "files_done s2 []" by (rule files_done_start(2) [OF a(1) r1(1) r2(1)])
  obtain s3 where r3: "mk_file 1 ex_file s2 = Ok s3" by (rule mk_file_ex [OF fd]) (use r2(2) in simp, rule that)
  have "files_done s3 ([] @ [ex_file])" by (rule mk_file_ok [OF fd _ r3]) simp
  from finish_runs [OF this] show ?thesis using a(1) r1(1) r2(1) r3 by (simp add: mkfs_main_def)
qed

section \<open>Properties of the image\<close>

text \<open>
  C5. \<^verbatim>\<open>mkfs\<close> and the kernel agree on the file system. For every image that \<^verbatim>\<open>mkfs\<close> writes from at most 198
  files, the kernel that boots from it and looks up the name of one of the files in the root directory
  (\<^verbatim>\<open>iget\<close> and \<^verbatim>\<open>ilock\<close> of the root inode, \<^verbatim>\<open>dirlookup\<close>) gets an inode that, once locked, is a regular
  file of exactly the size of the file's contents, and \<^verbatim>\<open>readi\<close> copies exactly those contents. The name
  must differ from \<^verbatim>\<open>.\<close>, \<^verbatim>\<open>..\<close> and the names of the files before it in its first \<^verbatim>\<open>DIRSIZ\<close> bytes.
\<close>

theorem mkfs_lookup_read:
  assumes run: "mkfs_main fs = Ok s" and n: "length fs \<le> 198" and m: "m < length fs"
    and new: "\<not> same_name [46] (mk_name (fs ! m))" "\<not> same_name [46, 46] (mk_name (fs ! m))"
      "\<And>i. i < m \<Longrightarrow> \<not> same_name (mk_name (fs ! i)) (mk_name (fs ! m))"
  defines "bs \<equiv> concat (snd (fs ! m))" and "s0 \<equiv> fs_on (img s) (\<lambda>_. zero_inode)"
  shows "\<exists>dp s1 s2 ip off s3 s4 s5. iget ROOTDEV ROOTINO s0 = Ok (dp, s1) \<and> ilock dp s1 = Ok s2
    \<and> dirlookup dp (mk_name (fs ! m)) s2 = Ok (Some (ip, off), s3) \<and> ilock ip s3 = Ok s4
    \<and> itype (itab s4 ip) = T_FILE \<and> isize (itab s4 ip) = of_nat (length bs)
    \<and> readi ip False dst 0 (of_nat (length bs)) s4 = Ok (of_nat (length bs), s5) \<and> load (pmem s5) dst (length bs) = bs"
  unfolding bs_def s0_def by (rule image_lookup_read [OF mkfs_main_image [OF run n] n m new])

theorem mkfs_lookup_read_witness:
  "\<exists>s dp s1 s2 ip off s3 s4 s5. mkfs_main [ex_file] = Ok s \<and> iget ROOTDEV ROOTINO (fs_on (img s) (\<lambda>_. zero_inode)) = Ok (dp, s1) \<and> ilock dp s1 = Ok s2
    \<and> dirlookup dp [99, 97, 116] s2 = Ok (Some (ip, off), s3) \<and> ilock ip s3 = Ok s4 \<and> readi ip False 0 0 3 s4 = Ok (3, s5) \<and> load (pmem s5) 0 3 = [1, 2, 3]"
proof -
  obtain s where run: "mkfs_main [ex_file] = Ok s" using mkfs_ex by blast
  have x: "mk_name ex_file = [99, 97, 116]" "concat (snd ex_file) = [1, 2, 3]" by (simp_all add: ex_file_name) (simp add: ex_file_def)
  have "\<not> same_name [46] [99, 97, 116]" "\<not> same_name [46, 46] [99, 97, 116]" by code_simp+
  then show ?thesis using mkfs_lookup_read [OF run, of 0 0] run by (simp add: x numeral_3_eq_3) blast
qed

text \<open>
  C12. The image has the layout the kernel relies on: its super block reads back as the one of this
  configuration, the kernel's buffer cache and log start from it in a consistent state, the bitmap
  covers every block, marks the meta-data and the blocks given to files as used and all others as free,
  and no two places of the inodes and indirect blocks name the same block.
\<close>

theorem mkfs_image:
  assumes run: "mkfs_main fs = Ok s" and n: "length fs \<le> 198"
  shows "(\<exists>s'. readsb ROOTDEV (fs_on (img s) it) = Ok (mkfs_sb, s')) \<and> txn (fs_on (img s) it) {} 10 \<and> bitmap_ok (fs_on (img s) it)
    \<and> free_blocks (fs_on (img s) it) = {b. unat (freeblock s) \<le> unat b \<and> unat b < FSSIZE}
    \<and> (\<forall>x. saddr (img s) (dinodes (img s)) x \<noteq> 0 \<longrightarrow> saddr (img s) (dinodes (img s)) x \<notin> free_blocks (fs_on (img s) it))
    \<and> (\<forall>x y. saddr (img s) (dinodes (img s)) x = saddr (img s) (dinodes (img s)) y \<longrightarrow> saddr (img s) (dinodes (img s)) x \<noteq> 0 \<longrightarrow> x = y)"
proof -
  note im = mkfs_main_image [OF run n]
  note b = image_boot [OF im, of it] and iv = mk_invD [OF im [unfolded image_ok_def, THEN conjunct1]]
  obtain bp s1 s2 where r: "bread ROOTDEV 1 (fs_on (img s) it) = Ok (bp, s1)" "bdata (bufs s1 bp) = blk (fs_on (img s) it) 1" "brelse bp s1 = Ok s2"
    by (rule txn_read [OF b(1), of 1]) (simp, simp, rule that)
  have d: "bdata (bufs s1 bp) = put_bytes (replicate 1024 0) 0 (sb_bytes mkfs_sb)"
    using im unfolding r(2) b(2) image_ok_def by (simp add: mk_sb_mkfs_sb)
  have "readsb ROOTDEV (fs_on (img s) it) = Ok (mkfs_sb, s2)"
    using r(1,3) get32_sb [of 0 mkfs_sb] get32_sb [of 1 mkfs_sb] get32_sb [of 2 mkfs_sb] get32_sb [of 3 mkfs_sb] get32_sb [of 4 mkfs_sb]
      get32_sb [of 5 mkfs_sb] get32_sb [of 6 mkfs_sb] get32_sb [of 7 mkfs_sb] by (simp add: readsb_def Let_def d)
  moreover have "saddr (img s) (dinodes (img s)) x \<notin> free_blocks (fs_on (img s) it)" if "saddr (img s) (dinodes (img s)) x \<noteq> 0" for x
    using iv(6) [OF that] by (simp add: b(6))
  ultimately show ?thesis using b(1,5,6) iv(7) by (simp del: split_paired_All)
qed

theorem mkfs_image_witness:
  "\<exists>s. mkfs_main [ex_file] = Ok s \<and> bitmap_ok (fs_on (img s) (\<lambda>_. zero_inode))
    \<and> free_blocks (fs_on (img s) (\<lambda>_. zero_inode)) = {b. unat (freeblock s) \<le> unat b \<and> unat b < FSSIZE}"
proof -
  obtain s where run: "mkfs_main [ex_file] = Ok s" using mkfs_ex by blast
  then show ?thesis using mkfs_image [OF run, of "\<lambda>_. zero_inode"] by (auto simp del: split_paired_All)
qed

end
