(* ===== verification/Umalloc.thy ===== *)
theory Umalloc
  imports Main
begin

text \<open>
  The user-level allocator, \<^verbatim>\<open>user/umalloc.c\<close>. The headers in memory are two functions of the address,
  one per field of \<^verbatim>\<open>struct header\<close>; user addresses are far below the width of a pointer and are
  natural numbers, while the sizes, which are \<^verbatim>\<open>uint\<close>, and the argument of \<^verbatim>\<open>sbrk\<close>, which is \<^verbatim>\<open>int\<close>, are
  truncated where the code truncates them. \<^verbatim>\<open>sbrk\<close> is the system call as a process sees it: \<open>brk\<close> is the
  size of the process and \<open>lim\<close> the size up to which the kernel finds memory for it.
\<close>

section \<open>The program\<close>

record uheap =
  hptr :: "nat \<Rightarrow> nat"
  hsize :: "nat \<Rightarrow> nat"
  freep :: nat
  base :: nat
  brk :: nat
  lim :: nat

text \<open>The value an \<^verbatim>\<open>int\<close> parameter takes.\<close>

definition to_int32 :: "nat \<Rightarrow> int" where
  "to_int32 n = (int n + 2 ^ 31) mod 2 ^ 32 - 2 ^ 31"

definition sbrk :: "int \<Rightarrow> uheap \<Rightarrow> nat option \<times> uheap" where
  "sbrk n s =
     (if n > 0 then (if int (brk s) + n \<le> int (lim s) then (Some (brk s), s\<lparr>brk := nat (int (brk s) + n)\<rparr>) else (None, s))
      else if int (brk s) + n < 0 then (Some (brk s), s)
      else (Some (brk s), s\<lparr>brk := nat (int (brk s) + n)\<rparr>))"

partial_function (option) free_find :: "nat \<Rightarrow> nat \<Rightarrow> uheap \<Rightarrow> nat option" where
  "free_find bp p s =
     (if bp > p \<and> bp < hptr s p then Some p
      else if p \<ge> hptr s p \<and> (bp > p \<or> bp < hptr s p) then Some p
      else free_find bp (hptr s p) s)"

text \<open>The two assignments of \<^verbatim>\<open>free\<close> that link the block and merge it with its neighbours.\<close>

definition free_upper :: "nat \<Rightarrow> nat \<Rightarrow> uheap \<Rightarrow> uheap" where
  "free_upper bp p s =
     (if bp + 16 * hsize s bp = hptr s p
      then s\<lparr>hsize := (hsize s)(bp := (hsize s bp + hsize s (hptr s p)) mod 2 ^ 32), hptr := (hptr s)(bp := hptr s (hptr s p))\<rparr>
      else s\<lparr>hptr := (hptr s)(bp := hptr s p)\<rparr>)"

definition free_lower :: "nat \<Rightarrow> nat \<Rightarrow> uheap \<Rightarrow> uheap" where
  "free_lower bp p s =
     (if p + 16 * hsize s p = bp
      then s\<lparr>hsize := (hsize s)(p := (hsize s p + hsize s bp) mod 2 ^ 32), hptr := (hptr s)(p := hptr s bp)\<rparr>
      else s\<lparr>hptr := (hptr s)(p := bp)\<rparr>)"

definition free :: "nat \<Rightarrow> uheap \<Rightarrow> uheap option" where
  "free ap s =
     (let bp = ap - 16 in
      map_option (\<lambda>p. (free_lower bp p (free_upper bp p s))\<lparr>freep := p\<rparr>) (free_find bp (freep s) s))"

text \<open>The result 0 is the null pointer.\<close>

definition morecore :: "nat \<Rightarrow> uheap \<Rightarrow> (nat \<times> uheap) option" where
  "morecore nu s =
     (let nu = (if nu < 4096 then 4096 else nu);
          (p, s) = sbrk (to_int32 (nu * 16)) s in
      case p of
        None \<Rightarrow> Some (0, s)
      | Some hp \<Rightarrow> map_option (\<lambda>s. (freep s, s)) (free (hp + 16) (s\<lparr>hsize := (hsize s)(hp := nu)\<rparr>)))"

definition take_block :: "nat \<Rightarrow> nat \<Rightarrow> nat \<Rightarrow> uheap \<Rightarrow> nat \<times> uheap" where
  "take_block nunits prevp p s =
     (if hsize s p = nunits
      then (p + 16, s\<lparr>hptr := (hptr s)(prevp := hptr s p), freep := prevp\<rparr>)
      else let s = s\<lparr>hsize := (hsize s)(p := hsize s p - nunits)\<rparr>;
               p = p + 16 * hsize s p in
           (p + 16, s\<lparr>hsize := (hsize s)(p := nunits), freep := prevp\<rparr>))"

partial_function (option) malloc_loop :: "nat \<Rightarrow> nat \<Rightarrow> nat \<Rightarrow> uheap \<Rightarrow> (nat \<times> uheap) option" where
  "malloc_loop nunits prevp p s =
     (if hsize s p \<ge> nunits then Some (take_block nunits prevp p s)
      else if p = freep s
      then Option.bind (morecore nunits s) (\<lambda>(p, s).
        if p = 0 then Some (0, s) else malloc_loop nunits p (hptr s p) s)
      else malloc_loop nunits p (hptr s p) s)"

text \<open>The first call sets up a list with the one empty block \<^verbatim>\<open>base\<close>.\<close>

definition malloc_start :: "uheap \<Rightarrow> uheap" where
  "malloc_start s =
     (if freep s = 0 then s\<lparr>hptr := (hptr s)(base s := base s), freep := base s, hsize := (hsize s)(base s := 0)\<rparr> else s)"

definition malloc_units :: "nat \<Rightarrow> nat" where
  "malloc_units nbytes = ((nbytes + 16 - 1) div 16 + 1) mod 2 ^ 32"

definition malloc :: "nat \<Rightarrow> uheap \<Rightarrow> (nat \<times> uheap) option" where
  "malloc nbytes s =
     (let s = malloc_start s in malloc_loop (malloc_units nbytes) (freep s) (hptr s (freep s)) s)"

section \<open>The free list as a set of blocks\<close>

text \<open>The block after \<open>a\<close> in address order, and from the last one around to the first.\<close>

definition cyc :: "nat set \<Rightarrow> nat \<Rightarrow> nat" where
  "cyc F a = (if {b \<in> F. a < b} = {} then Min F else Min {b \<in> F. a < b})"

text \<open>
  \<open>F\<close> are the blocks of the free list, \<open>A\<close> the ones handed out. No two blocks overlap, and two free
  blocks never touch.
\<close>

definition blocks_ok :: "uheap \<Rightarrow> nat set \<Rightarrow> nat set \<Rightarrow> bool" where
  "blocks_ok s F A \<longleftrightarrow> finite F \<and> finite A \<and> F \<inter> A = {} \<and> base s \<in> F \<and> hsize s (base s) = 0 \<and> 0 < base s \<and> base s < brk s \<and> brk s < 2 ^ 36
     \<and> (\<forall>x\<in>F \<union> A. base s \<le> x \<and> (x \<noteq> base s \<longrightarrow> 0 < hsize s x) \<and> x + 16 * hsize s x \<le> brk s)
     \<and> (\<forall>x\<in>F \<union> A. \<forall>y\<in>F \<union> A. x < y \<longrightarrow> x + 16 * hsize s x \<le> y)
     \<and> (\<forall>x\<in>F. \<forall>y\<in>F. x < y \<longrightarrow> x + 16 * hsize s x \<noteq> y)"

definition uinv :: "uheap \<Rightarrow> nat set \<Rightarrow> nat set \<Rightarrow> bool" where
  "uinv s F A \<longleftrightarrow> blocks_ok s F A \<and> (\<forall>x\<in>F. hptr s x = cyc F x) \<and> freep s \<in> F"

lemma blocks_okD:
  assumes "blocks_ok s F A"
  shows "finite F" "finite A" "F \<inter> A = {}" "base s \<in> F" "hsize s (base s) = 0" "0 < base s" "base s < brk s" "brk s < 2 ^ 36"
    "\<And>x. x \<in> F \<union> A \<Longrightarrow> base s \<le> x" "\<And>x. x \<in> F \<union> A \<Longrightarrow> x \<noteq> base s \<Longrightarrow> 0 < hsize s x"
    "\<And>x. x \<in> F \<union> A \<Longrightarrow> x + 16 * hsize s x \<le> brk s"
    "\<And>x y. x \<in> F \<union> A \<Longrightarrow> y \<in> F \<union> A \<Longrightarrow> x < y \<Longrightarrow> x + 16 * hsize s x \<le> y"
    "\<And>x y. x \<in> F \<Longrightarrow> y \<in> F \<Longrightarrow> x < y \<Longrightarrow> x + 16 * hsize s x \<noteq> y"
  using assms unfolding blocks_ok_def by blast+

lemma cyc_in:
  assumes "finite F" and "a \<in> F"
  shows "cyc F a \<in> F"
proof -
  have "Min F \<in> F" using assms by (intro Min_in) auto
  moreover have "Min {b \<in> F. a < b} \<in> {b \<in> F. a < b}" if "{b \<in> F. a < b} \<noteq> {}" using assms(1) that by (intro Min_in) auto
  ultimately show ?thesis unfolding cyc_def by auto
qed

lemma cyc_up: "finite F \<Longrightarrow> b \<in> F \<Longrightarrow> a < b \<Longrightarrow> a < cyc F a \<and> cyc F a \<le> b \<and> cyc F a \<in> F"
  using Min_in [of "{b \<in> F. a < b}"] Min_le [of "{b \<in> F. a < b}" b] by (auto simp: cyc_def)

lemma cyc_last: "(\<And>b. b \<in> F \<Longrightarrow> b \<le> a) \<Longrightarrow> cyc F a = Min F"
  by (auto simp: cyc_def not_less [symmetric])

lemma cyc_eq: "finite F \<Longrightarrow> c \<in> F \<Longrightarrow> a < c \<Longrightarrow> (\<And>b. b \<in> F \<Longrightarrow> a < b \<Longrightarrow> c \<le> b) \<Longrightarrow> cyc F a = c"
  by (auto simp: cyc_def intro!: Min_eqI)

lemma cyc_insert:
  assumes F: "finite F" and p: "p \<in> F" "p < bp" and between: "\<And>x. x \<in> F \<Longrightarrow> x \<le> p \<or> bp < x"
  shows "x \<in> F \<Longrightarrow> cyc (insert bp F) x = (if x = p then bp else cyc F x)" and "cyc (insert bp F) bp = cyc F p"
proof -
  have le: "Min F \<le> bp" using Min_le [OF F p(1)] p(2) by linarith
  have min: "Min (insert bp F) = Min F"
    using Min_insert [OF F, of bp] p(1) min_absorb2 [OF le] by auto
  have up: "{b \<in> insert bp F. bp < b} = {b \<in> F. p < b}" using between p(2) by force
  then show "cyc (insert bp F) bp = cyc F p" unfolding cyc_def min by presburger
  assume x: "x \<in> F"
  show "cyc (insert bp F) x = (if x = p then bp else cyc F x)"
  proof (cases x p rule: linorder_cases)
    case less
    have "Min {b \<in> insert bp F. x < b} = Min {b \<in> F. x < b}"
    proof -
      have "{b \<in> insert bp F. x < b} = insert bp {b \<in> F. x < b}" using less p by auto
      moreover have "Min {b \<in> F. x < b} \<le> p" by (rule Min_le) (use F less p in auto)
      then have le: "Min {b \<in> F. x < b} \<le> bp" using p(2) by linarith
      moreover have "{b \<in> F. x < b} \<noteq> {}" using less p by auto
      ultimately show ?thesis using Min_insert [of "{b \<in> F. x < b}" bp] F min_absorb2 [OF le] by simp
    qed
    then have "cyc (insert bp F) x = cyc F x" using less p unfolding cyc_def by auto
    then show ?thesis using less by simp
  next
    case equal
    have "cyc (insert bp F) p = bp" by (rule cyc_eq) (use F p between in force)+
    then show ?thesis using equal by simp
  next
    case greater
    then have "{b \<in> insert bp F. x < b} = {b \<in> F. x < b}" using between x by force
    then have "cyc (insert bp F) x = cyc F x" unfolding cyc_def min by presburger
    then show ?thesis using greater by simp
  qed
qed
lemma cyc_remove:
  assumes F: "finite F" and q: "q \<in> F" "q < n" and n: "n \<in> F" and between: "\<And>x. x \<in> F \<Longrightarrow> x \<le> q \<or> n \<le> x"
    and x: "x \<in> F" "x \<noteq> n"
  shows "cyc (F - {n}) x = (if x = q then cyc F n else cyc F x)"
proof -
  have b: "y \<le> q \<or> n < y" if "y \<in> F - {n}" for y using between [of y] that by auto
  have "finite (F - {n})" "q \<in> F - {n}" using F q by auto
  note c = cyc_insert [OF this q(2) b]
  show ?thesis using c(1) [of x] c(2) x n by (simp add: insert_absorb)
qed

section \<open>Freeing\<close>

definition before :: "nat set \<Rightarrow> nat \<Rightarrow> nat \<Rightarrow> bool" where
  "before F bp p \<longleftrightarrow> p \<in> F \<and> p < bp \<and> (\<forall>x\<in>F. x \<le> p \<or> bp < x)"

lemma before_ex:
  assumes "finite F" and "b \<in> F" and "b < bp" and "bp \<notin> F"
  obtains p where "before F bp p"
proof -
  let ?S = "{a \<in> F. a < bp}"
  have m: "Max ?S \<in> ?S" by (rule Max_in) (use assms in auto)
  have "x \<le> Max ?S" if "x \<in> F" "x < bp" for x by (rule Max_ge) (use that assms(1) in auto)
  then have "x \<le> Max ?S \<or> bp < x" if "x \<in> F" for x using that assms(4) by (cases x bp rule: linorder_cases) auto
  then have "before F bp (Max ?S)" using m unfolding before_def by blast
  then show ?thesis by (rule that)
qed

lemma free_find_at:
  assumes F: "finite F" and q: "before F bp q" and links: "\<forall>x\<in>F. hptr s x = cyc F x"
  shows "free_find bp q s = Some q"
proof (cases "\<exists>y\<in>F. bp < y")
  case True
  then obtain y where y: "y \<in> F" "bp < y" by blast
  have "q < cyc F q" "cyc F q \<in> F" using cyc_up [OF F y(1), of q] q y by (auto simp: before_def)
  then have "bp < cyc F q" using q by (auto simp: before_def)
  then show ?thesis using q links by (subst free_find.simps) (simp add: before_def)
next
  case False
  then have l: "x \<le> q" if "x \<in> F" for x using q that by (auto simp: before_def)
  have "cyc F q = Min F" by (rule cyc_last) (rule l)
  moreover have "Min F \<le> q" by (rule Min_le) (use F q in \<open>auto simp: before_def\<close>)
  ultimately show ?thesis using q links by (subst free_find.simps) (simp add: before_def)
qed

lemma free_find_below:
  assumes F: "finite F" and q: "before F bp q" and links: "\<forall>x\<in>F. hptr s x = cyc F x"
  shows "p \<in> F \<Longrightarrow> p \<le> q \<Longrightarrow> free_find bp p s = Some q"
proof (induction "card {x \<in> F. p < x \<and> x \<le> q}" arbitrary: p rule: less_induct)
  case (less p)
  show ?case
  proof (cases "p = q")
    case True
    then show ?thesis using free_find_at [OF F q links] by simp
  next
    case False
    then have lt: "p < q" and qF: "q \<in> F" "q < bp" using less.prems q by (auto simp: before_def)
    note c = cyc_up [OF F qF(1) lt]
    have "{x \<in> F. cyc F p < x \<and> x \<le> q} \<subset> {x \<in> F. p < x \<and> x \<le> q}" using c by fastforce
    then have "free_find bp (cyc F p) s = Some q"
      by (intro less.hyps psubset_card_mono) (use F c in auto)
    then show ?thesis using c qF links less.prems by (subst free_find.simps) auto
  qed
qed

lemma free_find_above:
  assumes F: "finite F" and q: "before F bp q" and links: "\<forall>x\<in>F. hptr s x = cyc F x"
  shows "p \<in> F \<Longrightarrow> bp < p \<Longrightarrow> free_find bp p s = Some q"
proof (induction "card {x \<in> F. p < x}" arbitrary: p rule: less_induct)
  case (less p)
  show ?case
  proof (cases "\<exists>y\<in>F. p < y")
    case True
    then obtain y where "y \<in> F" "p < y" by blast
    note c = cyc_up [OF F this]
    have "{x \<in> F. cyc F p < x} \<subset> {x \<in> F. p < x}" using c by fastforce
    then have "free_find bp (cyc F p) s = Some q"
      by (intro less.hyps psubset_card_mono) (use F c less.prems in auto)
    then show ?thesis using c links less.prems by (subst free_find.simps) auto
  next
    case False
    then have e: "cyc F p = Min F" by (intro cyc_last) (auto simp: not_less)
    have mq: "Min F \<le> q" by (rule Min_le) (use F q in \<open>auto simp: before_def\<close>)
    have "Min F \<in> F" by (rule Min_in) (use F less.prems in auto)
    then have "free_find bp (cyc F p) s = Some q" unfolding e by (rule free_find_below [OF F q links]) (rule mq)
    then show ?thesis using e mq q links less.prems by (subst free_find.simps) (auto simp: before_def)
  qed
qed

lemma free_find_ok:
  assumes "finite F" and "before F bp q" and "\<forall>x\<in>F. hptr s x = cyc F x" and "p \<in> F" and "bp \<notin> F"
  shows "free_find bp p s = Some q"
  using free_find_below [OF assms(1-3), of p] free_find_above [OF assms(1-3), of p] assms(2,4,5)
  by (metis before_def linorder_neqE_nat order.refl less_imp_le)

text \<open>The bytes of a set of blocks.\<close>

definition span :: "uheap \<Rightarrow> nat set \<Rightarrow> nat set" where
  "span s X = (\<Union>x\<in>X. {x..<x + 16 * hsize s x})"

lemma span_insert: "span s (insert x X) = {x..<x + 16 * hsize s x} \<union> span s X"
  by (simp add: span_def)

lemma span_cong: "(\<And>x. x \<in> X \<Longrightarrow> hsize s' x = hsize s x) \<Longrightarrow> span s' X = span s X"
  by (simp add: span_def)

text \<open>The state between the two merges: \<open>bp\<close> is set up but nothing points to it yet.\<close>

definition half_freed :: "uheap \<Rightarrow> nat set \<Rightarrow> nat set \<Rightarrow> nat \<Rightarrow> nat \<Rightarrow> bool" where
  "half_freed s F A bp p \<longleftrightarrow> blocks_ok s F A \<and> bp \<in> A \<and> before F bp p \<and> (\<forall>x\<in>F. x \<noteq> p \<longrightarrow> hptr s x = cyc F x)
     \<and> hptr s bp = cyc F p \<and> (\<forall>y\<in>F. bp + 16 * hsize s bp \<noteq> y)"

lemma next_above:
  assumes ok: "blocks_ok s F A" and p: "before F bp p" and bp: "bp \<in> A" and t: "bp + 16 * hsize s bp = cyc F p"
  shows "cyc F p \<in> F" and "bp < cyc F p" and "\<And>x. x \<in> F \<Longrightarrow> x \<le> p \<or> cyc F p \<le> x"
proof -
  note o = blocks_okD [OF ok]
  show n: "cyc F p \<in> F" using cyc_in [OF o(1), of p] p by (simp add: before_def)
  have "0 < hsize s bp" using o(10) [of bp] bp o(3,4) by auto
  then show "bp < cyc F p" using t by linarith
  show "x \<le> p \<or> cyc F p \<le> x" if "x \<in> F" for x using cyc_up [OF o(1) that, of p] by (cases "p < x") auto
qed

lemma size_no_wrap:
  assumes "blocks_ok s F A" and "x + 16 * hsize s x = y" and "x \<in> F \<union> A" and "y \<in> F \<union> A"
  shows "(hsize s x + hsize s y) mod 2 ^ 32 = hsize s x + hsize s y" and "x + 16 * (hsize s x + hsize s y) = y + 16 * hsize s y"
proof -
  show e: "x + 16 * (hsize s x + hsize s y) = y + 16 * hsize s y" using assms(2) by simp
  then have "16 * (hsize s x + hsize s y) < 2 ^ 36" using blocks_okD(8) [OF assms(1)] blocks_okD(11) [OF assms(1,4)] by linarith
  then show "(hsize s x + hsize s y) mod 2 ^ 32 = hsize s x + hsize s y" by (intro mod_less) simp
qed

lemma upper_touch:
  assumes ok: "blocks_ok s F A" and p: "before F bp p" and bp: "bp \<in> A" and t: "bp + 16 * hsize s bp = cyc F p"
    and s': "hsize s' = (hsize s)(bp := hsize s bp + hsize s (cyc F p))" "base s' = base s" "brk s' = brk s"
  shows "blocks_ok s' (F - {cyc F p}) A"
proof -
  note o = blocks_okD [OF ok] and n = next_above [OF ok p bp t]
  let ?n = "cyc F p"
  have b: "base s \<noteq> ?n" "base s \<noteq> bp" using n(2) o(3,4) o(9) [of bp] bp by auto
  have e: "bp + 16 * (hsize s bp + hsize s ?n) = ?n + 16 * hsize s ?n" using t by simp
  have in1: "x \<in> F \<union> A" if "x \<in> F - {?n} \<union> A" for x using that by auto
  have nA: "?n \<notin> A" using n(1) o(3) by auto
  have ne: "x \<noteq> ?n" if "x \<in> F - {?n} \<union> A" for x using that nA by auto
  have pair: "x + 16 * hsize s' x \<le> y" if "x \<in> F - {?n} \<union> A" "y \<in> F - {?n} \<union> A" "x < y" for x y
  proof (cases "x = bp")
    case True
    have "?n < y" using o(12) [of bp y] bp in1 [OF that(2)] that(3) True t ne [OF that(2)] by auto
    then show ?thesis using o(12) [of ?n y] n(1) in1 [OF that(2)] True e by (simp add: s')
  next
    case False
    then show ?thesis using o(12) [of x y] in1 that by (simp add: s')
  qed
  have "x + 16 * hsize s' x \<le> brk s" "x \<noteq> base s \<Longrightarrow> 0 < hsize s' x" "base s \<le> x" if "x \<in> F - {?n} \<union> A" for x
    using o(9-11) [OF in1 [OF that]] o(11) [of ?n] n(1) e by (auto simp: s')
  moreover have "x + 16 * hsize s' x \<noteq> y" if "x \<in> F - {?n}" "y \<in> F - {?n}" "x < y" for x y
    using o(13) [of x y] that bp o(3) by (auto simp: s')
  ultimately show ?thesis
    unfolding blocks_ok_def using o(1-8) b pair by (auto simp: s')
qed

lemma blocks_ok_cong:
  "hsize s' = hsize s \<Longrightarrow> base s' = base s \<Longrightarrow> brk s' = brk s \<Longrightarrow> blocks_ok s' F A = blocks_ok s F A"
  by (simp add: blocks_ok_def)

lemma free_upper_ok:
  assumes ok: "blocks_ok s F A" and links: "\<forall>x\<in>F. hptr s x = cyc F x" and bp: "bp \<in> A" and p: "before F bp p"
  obtains F' where "half_freed (free_upper bp p s) F' A bp p" and "span (free_upper bp p s) (insert bp F') = span s (insert bp F)"
    and "\<And>x. x \<noteq> bp \<Longrightarrow> hsize (free_upper bp p s) x = hsize s x"
    and "base (free_upper bp p s) = base s" and "brk (free_upper bp p s) = brk s" and "lim (free_upper bp p s) = lim s"
proof (cases "bp + 16 * hsize s bp = cyc F p")
  case True
  note o = blocks_okD [OF ok] and n = next_above [OF ok p bp True]
  let ?n = "cyc F p" let ?s = "free_upper bp p s" let ?F = "F - {?n}"
  have pF: "p \<in> F" "p < bp" "hptr s p = ?n" "hptr s ?n = cyc F ?n" using p links n(1) by (auto simp: before_def)
  have nw: "(hsize s bp + hsize s ?n) mod 2 ^ 32 = hsize s bp + hsize s ?n" using size_no_wrap [OF ok True] bp n(1) by blast
  have s': "?s = s\<lparr>hsize := (hsize s)(bp := hsize s bp + hsize s ?n), hptr := (hptr s)(bp := cyc F ?n)\<rparr>"
    using True pF nw by (simp add: free_upper_def)
  have bpF: "bp \<notin> F" using bp o(3) by auto
  have pn: "p < ?n" using pF(2) n(2) by linarith
  note cr = cyc_remove [OF o(1) pF(1) pn n(1) n(3)]
  have "half_freed ?s ?F A bp p"
    unfolding half_freed_def
  proof (intro conjI ballI impI)
    show "blocks_ok ?s ?F A" by (rule upper_touch [OF ok p bp True]) (simp_all add: s')
    show "before ?F bp p" using p pn by (auto simp: before_def)
    show "hptr ?s x = cyc ?F x" if "x \<in> ?F" "x \<noteq> p" for x using cr [of x] that links bpF by (auto simp: s')
    show "hptr ?s bp = cyc ?F p" using cr [OF _ pF(1)] pn by (simp add: s')
    show "bp + 16 * hsize ?s bp \<noteq> y" if "y \<in> ?F" for y
      using o(13) [OF n(1), of y] that True by (cases y ?n rule: linorder_cases) (auto simp: s')
  qed (rule bp)
  moreover have "span ?s (insert bp ?F) = span s (insert bp F)"
  proof -
    have "span ?s ?F = span s ?F" by (rule span_cong) (use bpF in \<open>auto simp: s'\<close>)
    moreover have "F = insert ?n ?F" using n(1) by blast
    then have "span s F = {?n..<?n + 16 * hsize s ?n} \<union> span s ?F" by (metis span_insert)
    ultimately show ?thesis using True n(2) by (auto simp: span_insert s')
  qed
  ultimately show ?thesis by (rule that) (simp_all add: s')
next
  case False
  note o = blocks_okD [OF ok]
  let ?s = "free_upper bp p s"
  have pF: "p \<in> F" "p < bp" "hptr s p = cyc F p" using p links by (auto simp: before_def)
  have s': "?s = s\<lparr>hptr := (hptr s)(bp := cyc F p)\<rparr>" using False pF by (simp add: free_upper_def)
  have nt: "bp + 16 * hsize s bp \<noteq> y" if y: "y \<in> F" for y
  proof
    assume e: "bp + 16 * hsize s bp = y"
    have "0 < hsize s bp" using o(10) [of bp] bp o(3,4) by auto
    then have "bp < y" using e by linarith
    moreover from this have "p < cyc F p \<and> cyc F p \<le> y \<and> cyc F p \<in> F" using cyc_up [OF o(1) y, of p] pF(2) by auto
    moreover from this have "bp < cyc F p" using p by (auto simp: before_def)
    ultimately show False using o(12) [of bp "cyc F p"] bp e False by auto
  qed
  have "half_freed ?s F A bp p"
    unfolding half_freed_def using ok bp p links nt o(3) blocks_ok_cong [of ?s s F A] by (auto simp: s')
  then show ?thesis by (rule that) (simp_all add: s' span_def)
qed

lemma lower_touch:
  assumes h: "half_freed s F A bp p" and t: "p + 16 * hsize s p = bp"
    and s': "hsize s' = (hsize s)(p := hsize s p + hsize s bp)" "base s' = base s" "brk s' = brk s"
  shows "blocks_ok s' F (A - {bp})"
proof -
  have ok: "blocks_ok s F A" and bp: "bp \<in> A" and p: "before F bp p" and nt: "\<And>y. y \<in> F \<Longrightarrow> bp + 16 * hsize s bp \<noteq> y"
    using h by (auto simp: half_freed_def)
  note o = blocks_okD [OF ok]
  have pF: "p \<in> F" "p < bp" and pb: "p \<noteq> base s" using p t o(5) by (auto simp: before_def)
  have e: "p + 16 * (hsize s p + hsize s bp) = bp + 16 * hsize s bp" using t by simp
  have in1: "x \<in> F \<union> A" "x \<noteq> bp" if "x \<in> F \<union> (A - {bp})" for x using that bp o(3) by auto
  have pair: "x + 16 * hsize s' x \<le> y" if "x \<in> F \<union> (A - {bp})" "y \<in> F \<union> (A - {bp})" "x < y" for x y
  proof (cases "x = p")
    case True
    have "bp < y" using o(12) [of p y] pF in1 [OF that(2)] that(3) True t by auto
    then show ?thesis using o(12) [of bp y] bp in1 [OF that(2)] True e by (simp add: s')
  next
    case False
    then show ?thesis using o(12) [of x y] in1 that by (simp add: s')
  qed
  have "x + 16 * hsize s' x \<le> brk s" "x \<noteq> base s \<Longrightarrow> 0 < hsize s' x" "base s \<le> x" if "x \<in> F \<union> (A - {bp})" for x
    using o(9-11) [OF in1(1) [OF that]] o(11) [of bp] bp e by (auto simp: s')
  moreover have "x + 16 * hsize s' x \<noteq> y" if "x \<in> F" "y \<in> F" "x < y" for x y
    using o(13) [OF that] nt [OF that(2)] e by (auto simp: s')
  ultimately show ?thesis
    unfolding blocks_ok_def using o(1-8) pb pair by (auto simp: s')
qed

lemma lower_apart:
  assumes h: "half_freed s F A bp p" and t: "p + 16 * hsize s p \<noteq> bp"
  shows "blocks_ok s (insert bp F) (A - {bp})"
proof -
  have ok: "blocks_ok s F A" and bp: "bp \<in> A" and p: "before F bp p" and nt: "\<And>y. y \<in> F \<Longrightarrow> bp + 16 * hsize s bp \<noteq> y"
    using h by (auto simp: half_freed_def)
  note o = blocks_okD [OF ok]
  have u: "insert bp F \<union> (A - {bp}) = F \<union> A" using bp by auto
  have "x + 16 * hsize s x \<noteq> bp" if "x \<in> F" for x
  proof
    assume e: "x + 16 * hsize s x = bp"
    have "x \<le> p \<or> bp < x" using p that by (auto simp: before_def)
    then have "x < p" using e t by (cases "x = p") auto
    then show False using o(12) [of x p] that p e by (auto simp: before_def)
  qed
  then show ?thesis
    using o nt bp unfolding blocks_ok_def u by auto
qed

lemma free_lower_ok:
  assumes h: "half_freed s F A bp p"
  obtains F' where "blocks_ok (free_lower bp p s) F' (A - {bp})" and "\<forall>x\<in>F'. hptr (free_lower bp p s) x = cyc F' x" and "p \<in> F'"
    and "span (free_lower bp p s) F' = span s (insert bp F)"
    and "\<And>x. x \<in> A - {bp} \<Longrightarrow> hsize (free_lower bp p s) x = hsize s x"
    and "base (free_lower bp p s) = base s" and "brk (free_lower bp p s) = brk s" and "lim (free_lower bp p s) = lim s"
proof -
  let ?s = "free_lower bp p s"
  have ok: "blocks_ok s F A" and bp: "bp \<in> A" and p: "before F bp p" and links: "\<And>x. x \<in> F \<Longrightarrow> x \<noteq> p \<Longrightarrow> hptr s x = cyc F x"
    and bl: "hptr s bp = cyc F p"
    using h by (auto simp: half_freed_def)
  note o = blocks_okD [OF ok]
  have pF: "p \<in> F" "p < bp" "p \<notin> A" "bp \<notin> F" using p bp o(3) by (auto simp: before_def)
  show ?thesis
  proof (cases "p + 16 * hsize s p = bp")
    case True
    have nw: "(hsize s p + hsize s bp) mod 2 ^ 32 = hsize s p + hsize s bp" using size_no_wrap [OF ok True] bp pF(1) by blast
    have s': "?s = s\<lparr>hsize := (hsize s)(p := hsize s p + hsize s bp), hptr := (hptr s)(p := cyc F p)\<rparr>"
      using True nw bl by (simp add: free_lower_def)
    have "span ?s F = span s (insert bp F)"
    proof -
      have "F = insert p (F - {p})" using pF(1) by blast
      then have "span ?s F = {p..<p + 16 * hsize ?s p} \<union> span ?s (F - {p})" "span s F = {p..<p + 16 * hsize s p} \<union> span s (F - {p})"
        by (metis span_insert)+
      moreover have "span ?s (F - {p}) = span s (F - {p})" by (rule span_cong) (simp add: s')
      ultimately show ?thesis using True pF(2) by (auto simp: span_insert s')
    qed
    moreover have "blocks_ok ?s F (A - {bp})" by (rule lower_touch [OF h True]) (simp_all add: s')
    ultimately show ?thesis using links pF by (intro that [of F]) (auto simp: s')
  next
    case False
    have s': "?s = s\<lparr>hptr := (hptr s)(p := bp)\<rparr>" using False by (simp add: free_lower_def)
    have b: "x \<le> p \<or> bp < x" if "x \<in> F" for x using p that by (auto simp: before_def)
    note ci = cyc_insert [OF o(1) pF(1,2) b]
    have "blocks_ok ?s (insert bp F) (A - {bp})" using lower_apart [OF h False] blocks_ok_cong [of ?s s] by (simp add: s')
    then show ?thesis
      using links bl pF ci by (intro that [of "insert bp F"]) (auto simp: s' span_def)
  qed
qed

lemma free_ok:
  assumes inv: "uinv s F A" and bp: "bp \<in> A"
  obtains s' F' where "free (bp + 16) s = Some s'" and "uinv s' F' (A - {bp})" and "span s' F' = span s F \<union> {bp..<bp + 16 * hsize s bp}"
    and "\<And>x. x \<in> A - {bp} \<Longrightarrow> hsize s' x = hsize s x" and "base s' = base s" and "brk s' = brk s" and "lim s' = lim s"
proof -
  have ok: "blocks_ok s F A" and links: "\<forall>x\<in>F. hptr s x = cyc F x" and fp: "freep s \<in> F" using inv by (auto simp: uinv_def)
  note o = blocks_okD [OF ok]
  have bpF: "bp \<notin> F" "base s < bp" using bp o(3,4) o(9) [of bp] by (auto simp: order.not_eq_order_implies_strict)
  obtain p where p: "before F bp p" by (rule before_ex [OF o(1,4) bpF(2,1)])
  obtain F1 where u: "half_freed (free_upper bp p s) F1 A bp p" "span (free_upper bp p s) (insert bp F1) = span s (insert bp F)"
    "\<And>x. x \<noteq> bp \<Longrightarrow> hsize (free_upper bp p s) x = hsize s x"
    "base (free_upper bp p s) = base s" "brk (free_upper bp p s) = brk s" "lim (free_upper bp p s) = lim s"
    by (rule free_upper_ok [OF ok links bp p]) (rule that)
  let ?t = "free_lower bp p (free_upper bp p s)"
  obtain F2 where l: "blocks_ok ?t F2 (A - {bp})" "\<forall>x\<in>F2. hptr ?t x = cyc F2 x" "p \<in> F2"
    "span ?t F2 = span (free_upper bp p s) (insert bp F1)" "\<And>x. x \<in> A - {bp} \<Longrightarrow> hsize ?t x = hsize (free_upper bp p s) x"
    "base ?t = base (free_upper bp p s)" "brk ?t = brk (free_upper bp p s)" "lim ?t = lim (free_upper bp p s)"
    by (rule free_lower_ok [OF u(1)]) (rule that)
  have run: "free (bp + 16) s = Some (?t\<lparr>freep := p\<rparr>)"
    using free_find_ok [OF o(1) p links fp bpF(1)] by (simp add: free_def)
  have "uinv (?t\<lparr>freep := p\<rparr>) F2 (A - {bp})" using l(1-3) blocks_ok_cong [of "?t\<lparr>freep := p\<rparr>" ?t] by (simp add: uinv_def)
  then show ?thesis
    by (rule that [OF run]) (use l u in \<open>auto simp: span_def\<close>)
qed

section \<open>Taking a block\<close>

lemma base_min: "blocks_ok s F A \<Longrightarrow> Min F = base s"
  using blocks_okD(1,4,9) [of s F A] by (intro Min_eqI) auto

lemma fit_next:
  assumes ok: "blocks_ok s F A" and prev: "prev \<in> F" and fit: "0 < n" "n \<le> hsize s (cyc F prev)"
  shows "cyc F prev \<in> F" and "cyc F prev \<noteq> base s" and "prev < cyc F prev" and "\<And>x. x \<in> F \<Longrightarrow> x \<le> prev \<or> cyc F prev \<le> x"
proof -
  note o = blocks_okD [OF ok]
  show "cyc F prev \<in> F" by (rule cyc_in [OF o(1) prev])
  show nb: "cyc F prev \<noteq> base s" using fit o(5) by auto
  have "\<exists>b\<in>F. prev < b" using cyc_last [of F prev] base_min [OF ok] nb by (auto simp: not_less [symmetric])
  then show "prev < cyc F prev" using cyc_up [OF o(1)] by blast
  show "x \<le> prev \<or> cyc F prev \<le> x" if "x \<in> F" for x using cyc_up [OF o(1) that, of prev] by (cases "prev < x") auto
qed

lemma take_whole:
  assumes inv: "uinv s F A" and prev: "prev \<in> F" and fit: "0 < n" "hsize s (cyc F prev) = n"
  defines "p \<equiv> cyc F prev"
  shows "take_block n prev p s = (p + 16, s\<lparr>hptr := (hptr s)(prev := hptr s p), freep := prev\<rparr>)"
    and "uinv (s\<lparr>hptr := (hptr s)(prev := hptr s p), freep := prev\<rparr>) (F - {p}) (insert p A)"
proof -
  let ?s = "s\<lparr>hptr := (hptr s)(prev := hptr s p), freep := prev\<rparr>"
  have ok: "blocks_ok s F A" and links: "\<forall>x\<in>F. hptr s x = cyc F x" using inv by (auto simp: uinv_def)
  have f: "p \<in> F" "p \<noteq> base s" "prev < p" "x \<in> F \<Longrightarrow> x \<le> prev \<or> p \<le> x" for x
    using fit_next [OF ok prev fit(1)] fit(2) unfolding p_def by auto
  show "take_block n prev p s = (p + 16, ?s)" using fit by (simp add: take_block_def p_def)
  have u: "F - {p} \<union> insert p A = F \<union> A" using f(1) by auto
  have "blocks_ok ?s (F - {p}) (insert p A)"
    using blocks_okD [OF ok] f unfolding blocks_ok_def u by auto
  moreover have "hptr ?s x = cyc (F - {p}) x" if "x \<in> F - {p}" for x
    using cyc_remove [OF blocks_okD(1) [OF ok] prev f(3,1) f(4), of x] that links f(1) by auto
  ultimately show "uinv ?s (F - {p}) (insert p A)" using prev f(3) by (auto simp: uinv_def)
qed

lemma take_part:
  assumes inv: "uinv s F A" and p: "p \<in> F" and prev: "prev \<in> F" and fit: "0 < n" "n < hsize s p"
  defines "q \<equiv> p + 16 * (hsize s p - n)"
  defines "t \<equiv> s\<lparr>hsize := (hsize s)(p := hsize s p - n, q := n), freep := prev\<rparr>"
  shows "take_block n prev p s = (q + 16, t)" and "uinv t F (insert q A)" and "q \<notin> F \<union> A"
proof -
  have ok: "blocks_ok s F A" and links: "\<forall>x\<in>F. hptr s x = cyc F x" using inv by (auto simp: uinv_def)
  note o = blocks_okD [OF ok]
  have pb: "p \<noteq> base s" using fit o(5) by auto
  have q: "p < q" "q + 16 * n = p + 16 * hsize s p" using fit by (auto simp: q_def)
  show "take_block n prev p s = (q + 16, t)" using fit by (simp add: take_block_def Let_def q_def t_def)
  have out: "x \<le> p \<or> q + 16 * n \<le> x" if "x \<in> F \<union> A" for x using o(12) [of p x] p that q by (cases "p < x") auto
  show qn: "q \<notin> F \<union> A" using out [of q] q fit by auto
  have sz: "hsize t x = hsize s x" if "x \<noteq> p" "x \<noteq> q" for x using that by (simp add: t_def)
  have szp: "hsize t p = hsize s p - n" "hsize t q = n" "p + 16 * hsize t p = q" using q by (auto simp: t_def q_def)
  have pair: "x + 16 * hsize t x \<le> y" if xy: "x \<in> F \<union> insert q A" "y \<in> F \<union> insert q A" "x < y" for x y
  proof -
    consider "x = p" | "x = q" | "x \<noteq> p" "x \<noteq> q" "x \<in> F \<union> A" using xy(1) by auto
    then show ?thesis
    proof cases
      case 1 then show ?thesis using szp xy out [of y] q by auto
    next
      case 2 then show ?thesis using szp xy out [of y] q by auto
    next
      case 3
      have "x + 16 * hsize s x \<le> p" if "x < p" using o(12) [of x p] p 3 that by auto
      then show ?thesis using 3 sz xy o(12) [of x y] out [of x] q by auto
    qed
  qed
  have "x + 16 * hsize t x \<le> brk s" "x \<noteq> base s \<Longrightarrow> 0 < hsize t x" "base s \<le> x" if "x \<in> F \<union> insert q A" for x
    using o(9-11) [of x] o(9,11) [of p] p that fit q szp sz [of x] by (cases "x = p"; cases "x = q"; force)+
  moreover have "x + 16 * hsize t x \<noteq> y" if "x \<in> F" "y \<in> F" "x < y" for x y
  proof -
    have "x \<noteq> q" "y \<noteq> q" using that qn by auto
    then show ?thesis using o(13) [OF that] szp sz [of x] by (cases "x = p") auto
  qed
  ultimately have "blocks_ok t F (insert q A)"
    unfolding blocks_ok_def using o(1-8) qn pair pb by (auto simp: t_def q_def)
  then show "uinv t F (insert q A)" using links prev by (simp add: uinv_def t_def)
qed

lemma take_ok:
  assumes inv: "uinv s F A" and prev: "prev \<in> F" and fit: "0 < n" "n \<le> hsize s (cyc F prev)"
  obtains q s' F' where "take_block n prev (cyc F prev) s = (q + 16, s')" and "uinv s' F' (insert q A)" and "q \<notin> A" and "hsize s' q = n"
    and "\<And>x. x \<in> A \<Longrightarrow> hsize s' x = hsize s x" and "span s F = span s' F' \<union> {q..<q + 16 * n}"
    and "base s' = base s" and "brk s' = brk s" and "lim s' = lim s"
proof (cases "hsize s (cyc F prev) = n")
  case True
  let ?p = "cyc F prev"
  have ok: "blocks_ok s F A" using inv by (simp add: uinv_def)
  have p: "?p \<in> F" by (rule fit_next(1) [OF ok prev fit])
  then have "F = insert ?p (F - {?p})" by blast
  then have "span s F = {?p..<?p + 16 * hsize s ?p} \<union> span s (F - {?p})" by (metis span_insert)
  note sp = this and t = take_whole [OF inv prev fit(1) True]
  show ?thesis
    by (rule that [OF t]) (use p sp True blocks_okD(3) [OF ok] in \<open>auto simp: span_def\<close>)
next
  case False
  then have lt: "n < hsize s (cyc F prev)" using fit(2) by simp
  have ok: "blocks_ok s F A" using inv by (simp add: uinv_def)
  let ?p = "cyc F prev" let ?q = "?p + 16 * (hsize s ?p - n)"
  have p: "?p \<in> F" by (rule fit_next(1) [OF ok prev fit])
  note t = take_part [OF inv p prev fit(1) lt]
  let ?t = "s\<lparr>hsize := (hsize s)(?p := hsize s ?p - n, ?q := n), freep := prev\<rparr>"
  have "span s F = span ?t F \<union> {?q..<?q + 16 * n}"
  proof -
    have "F = insert ?p (F - {?p})" using p by blast
    then have "span s F = {?p..<?p + 16 * hsize s ?p} \<union> span s (F - {?p})" "span ?t F = {?p..<?p + 16 * hsize ?t ?p} \<union> span ?t (F - {?p})"
      by (metis span_insert)+
    moreover have "span ?t (F - {?p}) = span s (F - {?p})" by (rule span_cong) (use t(3) in auto)
    moreover have "hsize ?t ?p = hsize s ?p - n" using t(3) p by auto
    moreover have "{?p..<?p + 16 * hsize s ?p} = {?p..<?q} \<union> {?q..<?q + 16 * n}" using lt by auto
    ultimately show ?thesis by auto
  qed
  then show ?thesis
    by (rule_tac that [OF t(1,2)]) (use t(3) p blocks_okD(3) [OF ok] in auto)
qed

section \<open>The search\<close>

text \<open>A run of free bytes lies within one block, as free blocks do not touch.\<close>

lemma span_one_block:
  assumes ok: "blocks_ok s F A" and n: "0 < n" and sub: "{a..<a + 16 * n} \<subseteq> span s F"
  shows "\<exists>x\<in>F. n \<le> hsize s x"
proof -
  note o = blocks_okD [OF ok]
  have "a \<in> span s F" using sub n by auto
  then obtain x where x: "x \<in> F" "x \<le> a" "a < x + 16 * hsize s x" by (auto simp: span_def)
  have "a + 16 * n \<le> x + 16 * hsize s x"
  proof (rule ccontr)
    let ?e = "x + 16 * hsize s x"
    assume "\<not> a + 16 * n \<le> ?e"
    then have "?e \<in> span s F" using sub x by auto
    then obtain y where y: "y \<in> F" "y \<le> ?e" "?e < y + 16 * hsize s y" by (auto simp: span_def)
    have "x < y" using y x o(12) [of y x] by (cases x y rule: linorder_cases) auto
    then show False using o(12,13) [of x y] x(1) y by auto
  qed
  then have "n \<le> hsize s x" using x(2) by linarith
  then show ?thesis using x(1) by blast
qed

text \<open>Following the list from any block visits every block and comes back.\<close>

lemma cyc_orbit:
  assumes F: "finite F" and a: "a \<in> F" and b: "b \<in> F"
  shows "\<exists>k. 0 < k \<and> (cyc F ^^ k) a = b"
proof -
  have up: "\<exists>k. (cyc F ^^ k) x = y" if "x \<in> F" "y \<in> F" "x \<le> y" for x y
    using that
  proof (induction "card {z \<in> F. x < z \<and> z \<le> y}" arbitrary: x rule: less_induct)
    case (less x)
    show ?case
    proof (cases "x = y")
      case True
      then show ?thesis by (intro exI [of _ 0]) simp
    next
      case False
      then have c: "x < cyc F x" "cyc F x \<le> y" "cyc F x \<in> F" using cyc_up [OF F less.prems(2), of x] less.prems by auto
      have "{z \<in> F. cyc F x < z \<and> z \<le> y} \<subset> {z \<in> F. x < z \<and> z \<le> y}" using c by fastforce
      then obtain k where "(cyc F ^^ k) (cyc F x) = y"
        using less.hyps [of "cyc F x"] psubset_card_mono [of "{z \<in> F. x < z \<and> z \<le> y}"] F c less.prems by auto
      then have "(cyc F ^^ Suc k) x = y" by (simp add: funpow_swap1)
      then show ?thesis by blast
    qed
  qed
  have M: "Max F \<in> F" "a \<le> Max F" "Min F \<in> F" "Min F \<le> b" using F a b by (auto intro: Max_in Min_in)
  obtain i where i: "(cyc F ^^ i) a = Max F" using up [OF a M(1,2)] by blast
  obtain j where j: "(cyc F ^^ j) (Min F) = b" using up [OF M(3) b M(4)] by blast
  have "cyc F (Max F) = Min F" by (rule cyc_last) (use F in auto)
  then have "(cyc F ^^ (j + Suc i)) a = b" using i j by (simp add: funpow_add funpow_swap1)
  then show ?thesis by (intro exI [of _ "j + Suc i"]) simp
qed

definition more_and_retry :: "nat \<Rightarrow> uheap \<Rightarrow> (nat \<times> uheap) option" where
  "more_and_retry n s = Option.bind (morecore n s) (\<lambda>(p, s). if p = 0 then Some (0, s) else malloc_loop n p (hptr s p) s)"

lemma loop_hit: "n \<le> hsize s p \<Longrightarrow> malloc_loop n prevp p s = Some (take_block n prevp p s)"
  by (subst malloc_loop.simps) simp

lemma loop_more: "\<not> n \<le> hsize s p \<Longrightarrow> p = freep s \<Longrightarrow> malloc_loop n prevp p s = more_and_retry n s"
  by (subst malloc_loop.simps) (simp add: more_and_retry_def)

lemma malloc_scan:
  assumes inv: "uinv s F A"
  shows "prevp \<in> F \<Longrightarrow> (cyc F ^^ Suc k) prevp = freep s \<Longrightarrow>
    (\<exists>prev\<in>F. n \<le> hsize s (cyc F prev) \<and> malloc_loop n prevp (cyc F prevp) s = Some (take_block n prev (cyc F prev) s))
    \<or> malloc_loop n prevp (cyc F prevp) s = more_and_retry n s
      \<and> (\<exists>m\<le>k. (cyc F ^^ Suc m) prevp = freep s \<and> (\<forall>i\<le>m. hsize s ((cyc F ^^ Suc i) prevp) < n))"
proof (induction k arbitrary: prevp)
  have links: "\<forall>x\<in>F. hptr s x = cyc F x" and F: "finite F" using inv by (auto simp: uinv_def blocks_ok_def)
  {
    case 0
    then have p: "cyc F prevp = freep s" by simp
    show ?case
    proof (cases "n \<le> hsize s (cyc F prevp)")
      case True
      then show ?thesis using loop_hit [OF True, of prevp] 0(1) by blast
    next
      case False
      then show ?thesis using loop_more [OF False p, of prevp] p by (intro disjI2 conjI exI [of _ 0]) auto
    qed
  next
    case (Suc k)
    let ?p = "cyc F prevp"
    have p: "?p \<in> F" "hptr s ?p = cyc F ?p" using cyc_in [OF F Suc.prems(1)] links by auto
    consider "n \<le> hsize s ?p" | "\<not> n \<le> hsize s ?p" "?p = freep s" | "\<not> n \<le> hsize s ?p" "?p \<noteq> freep s" by blast
    then show ?case
    proof cases
      case 1
      then show ?thesis using loop_hit [OF 1, of prevp] Suc.prems(1) by blast
    next
      case 2
      then show ?thesis using loop_more [OF 2, of prevp] by (intro disjI2 conjI exI [of _ 0]) auto
    next
      case 3
      then have step: "malloc_loop n prevp ?p s = malloc_loop n ?p (cyc F ?p) s" using p by (simp add: malloc_loop.simps [of n prevp])
      have sw: "(cyc F ^^ Suc i) ?p = (cyc F ^^ Suc (Suc i)) prevp" for i by (simp add: funpow_swap1)
      from Suc.IH [OF p(1)] Suc.prems(2)
      consider "\<exists>prev\<in>F. n \<le> hsize s (cyc F prev) \<and> malloc_loop n ?p (cyc F ?p) s = Some (take_block n prev (cyc F prev) s)"
        | m where "malloc_loop n ?p (cyc F ?p) s = more_and_retry n s" "m \<le> k" "(cyc F ^^ Suc m) ?p = freep s"
          "\<forall>i\<le>m. hsize s ((cyc F ^^ Suc i) ?p) < n"
        unfolding sw by blast
      then show ?thesis
      proof cases
        case 1
        then show ?thesis unfolding step by blast
      next
        case (2 m)
        have "hsize s ((cyc F ^^ Suc i) prevp) < n" if "i \<le> Suc m" for i
          using 2(4) 3(1) that unfolding sw by (cases i) auto
        then show ?thesis using 2 unfolding step sw by blast
      qed
    qed
  }
qed

lemma malloc_from_freep:
  assumes inv: "uinv s F A"
  shows "(\<exists>prev\<in>F. n \<le> hsize s (cyc F prev) \<and> malloc_loop n (freep s) (hptr s (freep s)) s = Some (take_block n prev (cyc F prev) s))
    \<or> malloc_loop n (freep s) (hptr s (freep s)) s = more_and_retry n s \<and> (\<forall>x\<in>F. hsize s x < n)"
proof -
  have F: "finite F" "freep s \<in> F" "hptr s (freep s) = cyc F (freep s)" using inv by (auto simp: uinv_def blocks_ok_def)
  obtain k where "(cyc F ^^ Suc k) (freep s) = freep s" using cyc_orbit [OF F(1,2,2)] by (metis gr0_conv_Suc)
  from malloc_scan [OF inv F(2) this, of n]
  consider "\<exists>prev\<in>F. n \<le> hsize s (cyc F prev) \<and> malloc_loop n (freep s) (cyc F (freep s)) s = Some (take_block n prev (cyc F prev) s)"
    | m where "malloc_loop n (freep s) (cyc F (freep s)) s = more_and_retry n s" "(cyc F ^^ Suc m) (freep s) = freep s"
      "\<forall>i\<le>m. hsize s ((cyc F ^^ Suc i) (freep s)) < n" by blast
  then show ?thesis
  proof cases
    case (2 m)
    have "hsize s x < n" if x: "x \<in> F" for x
    proof -
      obtain j where "(cyc F ^^ j) (freep s) = x" using cyc_orbit [OF F(1,2) x] by blast
      then have "(cyc F ^^ (j mod Suc m)) (freep s) = x" using funpow_mod_eq [OF 2(2)] by simp
      then show ?thesis
        using 2(2) 2(3) [rule_format, of m] 2(3) [rule_format, of "j mod Suc m - 1"] mod_less_divisor [of "Suc m" j]
        by (cases "j mod Suc m") auto
    qed
    then show ?thesis using 2(1) F(3) by simp
  qed (simp add: F(3))
qed

section \<open>Getting more memory\<close>

lemma to_int32_small: "n < 2 ^ 31 \<Longrightarrow> to_int32 n = int n"
  by (simp add: to_int32_def)

lemma grow_ok:
  assumes inv: "uinv s F A" and n: "0 < n" "brk s + 16 * n < 2 ^ 36"
  shows "uinv (s\<lparr>brk := brk s + 16 * n, hsize := (hsize s)(brk s := n)\<rparr>) F (insert (brk s) A)" and "brk s \<notin> F \<union> A"
proof -
  let ?t = "s\<lparr>brk := brk s + 16 * n, hsize := (hsize s)(brk s := n)\<rparr>"
  have ok: "blocks_ok s F A" using inv by (simp add: uinv_def)
  note o = blocks_okD [OF ok]
  have lt: "x < brk s" if "x \<in> F \<union> A" for x using o(10,11) [OF that] o(7) by (cases "x = base s") auto
  then show new: "brk s \<notin> F \<union> A" by blast
  have same: "hsize ?t x = hsize s x" if "x \<in> F \<union> A" for x using lt [OF that] by simp
  have "x + 16 * hsize ?t x \<le> brk ?t" "x \<noteq> base s \<Longrightarrow> 0 < hsize ?t x" "base s \<le> x" if "x \<in> F \<union> insert (brk s) A" for x
    using o(9-11) [of x] same [of x] that n(1) o(7) by auto
  moreover have "x + 16 * hsize ?t x \<le> y" if "x \<in> F \<union> insert (brk s) A" "y \<in> F \<union> insert (brk s) A" "x < y" for x y
    using o(11) [of x] o(12) [of x y] lt [of y] same [of x] that by auto
  moreover have "x + 16 * hsize ?t x \<noteq> y" if "x \<in> F" "y \<in> F" "x < y" for x y using o(13) [OF that] same [of x] that(1) by auto
  ultimately have "blocks_ok ?t F (insert (brk s) A)"
    unfolding blocks_ok_def using o(1-8) new n(2) by auto
  then show "uinv ?t F (insert (brk s) A)" using inv by (simp add: uinv_def)
qed

lemma morecore_ok:
  assumes inv: "uinv s F A" and n: "0 < n" "16 * max 4096 n < 2 ^ 31" and lim: "lim s < 2 ^ 36"
  shows "if lim s < brk s + 16 * max 4096 n then morecore n s = Some (0, s)
    else \<exists>s' F'. morecore n s = Some (freep s', s') \<and> uinv s' F' A \<and> span s' F' = span s F \<union> {brk s..<brk s + 16 * max 4096 n}
      \<and> (\<forall>x\<in>A. hsize s' x = hsize s x) \<and> brk s' = brk s + 16 * max 4096 n \<and> lim s' = lim s \<and> base s' = base s"
proof -
  let ?n = "max 4096 n"
  have nu: "(if n < 4096 then 4096 else n) = ?n" by simp
  have i: "to_int32 (?n * 16) = int (16 * ?n)" using to_int32_small [of "?n * 16"] n(2) by (simp add: mult.commute)
  show ?thesis
  proof (cases "lim s < brk s + 16 * ?n")
    case True
    then show ?thesis unfolding morecore_def nu i sbrk_def Let_def by simp
  next
    case False
    define t where "t = s\<lparr>brk := brk s + 16 * ?n, hsize := (hsize s)(brk s := ?n)\<rparr>"
    have g: "uinv t F (insert (brk s) A)" "brk s \<notin> F \<union> A" using grow_ok [OF inv, of ?n] False lim unfolding t_def by auto
    obtain s' F' where f: "free (brk s + 16) t = Some s'" "uinv s' F' (insert (brk s) A - {brk s})"
      "span s' F' = span t F \<union> {brk s..<brk s + 16 * hsize t (brk s)}"
      "\<And>x. x \<in> insert (brk s) A - {brk s} \<Longrightarrow> hsize s' x = hsize t x" "base s' = base t" "brk s' = brk t" "lim s' = lim t"
      by (rule free_ok [OF g(1) insertI1]) (rule that)
    have A: "insert (brk s) A - {brk s} = A" using g(2) by auto
    have "span t F = span s F" by (rule span_cong) (use g(2) in \<open>auto simp: t_def\<close>)
    moreover have "nat (int (brk s) + 16 * int ?n) = brk s + 16 * ?n"
      by (metis nat_int of_nat_add of_nat_mult of_nat_numeral)
    then have "morecore n s = Some (freep s', s')"
      using f(1) False unfolding morecore_def nu i sbrk_def Let_def by (simp add: t_def)
    moreover have "hsize s' x = hsize s x" if "x \<in> A" for x using f(4) [of x] that g(2) by (auto simp: t_def)
    ultimately show ?thesis using f(2,3,5-7) False unfolding A by (auto simp: t_def)
  qed
qed

section \<open>Properties\<close>

lemma units_bounds:
  assumes "nbytes + 32 \<le> 2 ^ 31"
  shows "0 < malloc_units nbytes" and "16 * malloc_units nbytes < 2 ^ 31" and "nbytes + 16 \<le> 16 * malloc_units nbytes"
proof -
  have "(nbytes + 15) div 16 + 1 < 2 ^ 32" using assms by simp
  then have u: "malloc_units nbytes = (nbytes + 15) div 16 + 1" by (simp add: malloc_units_def)
  show "0 < malloc_units nbytes" "16 * malloc_units nbytes < 2 ^ 31" "nbytes + 16 \<le> 16 * malloc_units nbytes"
    using assms unfolding u by (auto simp: algebra_simps) 
qed

text \<open>What a successful call leaves, in terms of the blocks handed out before.\<close>

definition malloc_done :: "nat \<Rightarrow> nat \<Rightarrow> uheap \<Rightarrow> nat set \<Rightarrow> uheap \<Rightarrow> bool" where
  "malloc_done nbytes p s A s' \<longleftrightarrow> (\<exists>F'. uinv s' F' (insert (p - 16) A)) \<and> 16 \<le> p \<and> p - 16 \<notin> A \<and> p + nbytes \<le> brk s'
     \<and> (\<forall>x\<in>A. hsize s' x = hsize s x \<and> {p..<p + nbytes} \<inter> {x..<x + 16 * hsize s x} = {})"

lemma malloc_doneI:
  assumes "uinv s' F' (insert q A)" and "q \<notin> A" and "nbytes + 16 \<le> 16 * hsize s' q" and "\<And>x. x \<in> A \<Longrightarrow> hsize s' x = hsize s x"
  shows "malloc_done nbytes (q + 16) s A s'"
proof -
  have ok: "blocks_ok s' F' (insert q A)" using assms(1) by (simp add: uinv_def)
  note o = blocks_okD [OF ok]
  have "{q + 16..<q + 16 + nbytes} \<inter> {x..<x + 16 * hsize s x} = {}" if x: "x \<in> A" for x
    using o(12) [of x q] o(12) [of q x] x assms(2,3) assms(4) [OF x] by (cases x q rule: linorder_cases) auto
  moreover have "q + 16 + nbytes \<le> brk s'" using o(11) [of q] assms(3) by auto
  ultimately show ?thesis using assms by (auto simp: malloc_done_def)
qed

lemma take_done:
  assumes inv: "uinv s F A" and prev: "prev \<in> F" and fit: "0 < n" "n \<le> hsize s (cyc F prev)" and nb: "nbytes + 16 \<le> 16 * n"
    and same: "\<And>x. x \<in> A \<Longrightarrow> hsize s x = hsize s0 x"
  obtains p s' where "take_block n prev (cyc F prev) s = (p, s')" and "malloc_done nbytes p s0 A s'"
proof -
  obtain q s' F' where t: "take_block n prev (cyc F prev) s = (q + 16, s')" "uinv s' F' (insert q A)" "q \<notin> A" "hsize s' q = n"
    "\<And>x. x \<in> A \<Longrightarrow> hsize s' x = hsize s x"
    by (rule take_ok [OF inv prev fit]) (rule that)
  show ?thesis by (rule that [OF t(1)], rule malloc_doneI [OF t(2,3)]) (use t(4,5) nb same in auto)
qed


text \<open>A process whose heap starts at 16384, with \<^verbatim>\<open>base\<close> in its data segment.\<close>

definition heap_ex :: uheap where
  "heap_ex = \<lparr>hptr = (\<lambda>_. 0), hsize = (\<lambda>_. 0), freep = 0, base = 4096, brk = 16384, lim = 1048576\<rparr>"

lemma heap_ex_start: "malloc_start heap_ex = heap_ex\<lparr>hptr := (\<lambda>_. 0)(4096 := 4096), freep := 4096\<rparr>"
  by (simp add: malloc_start_def heap_ex_def fun_upd_idem)

lemma heap_ex_ok: "uinv (malloc_start heap_ex) {4096} {}" "lim heap_ex < 2 ^ 36"
  unfolding heap_ex_start by (simp_all add: uinv_def blocks_ok_def cyc_def heap_ex_def)


text \<open>
  C36. \<^verbatim>\<open>free\<close> of a block that is handed out always returns; the bytes in the free list are then the ones
  that were there and those of the block, no other block that is handed out changes its size, and the
  heap stays consistent: free blocks do not overlap anything and are merged when they touch.
\<close>

theorem free_correct:
  assumes "uinv s F A" and "a \<in> A"
  shows "\<exists>s' F'. free (a + 16) s = Some s' \<and> uinv s' F' (A - {a}) \<and> span s' F' = span s F \<union> {a..<a + 16 * hsize s a}
    \<and> (\<forall>x\<in>A - {a}. hsize s' x = hsize s x)"
proof -
  obtain s' F' where "free (a + 16) s = Some s'" "uinv s' F' (A - {a})" "span s' F' = span s F \<union> {a..<a + 16 * hsize s a}"
    "\<And>x. x \<in> A - {a} \<Longrightarrow> hsize s' x = hsize s x"
    by (rule free_ok [OF assms]) (rule that)
  then show ?thesis by blast
qed

definition heap_two :: uheap where
  "heap_two = \<lparr>hptr = (\<lambda>_. 0)(4096 := 16384, 16384 := 4096), hsize = (\<lambda>_. 0)(16384 := 4, 16448 := 6), freep = 4096, base = 4096,
     brk = 16544, lim = 1048576\<rparr>"

theorem free_correct_witness:
  "\<exists>s' F'. free 16464 heap_two = Some s' \<and> uinv s' F' {} \<and> span s' F' = {16384..<16544}"
proof -
  have "{b. (b = 4096 \<or> b = 16384) \<and> (4096 :: nat) < b} = {16384}" "{b. (b = 4096 \<or> b = 16384) \<and> (16384 :: nat) < b} = {}" by auto
  then have "uinv heap_two {4096, 16384} {16448}" by (auto simp: uinv_def blocks_ok_def cyc_def heap_two_def)
  from free_correct [OF this, of 16448]
  obtain s' F' where "free 16464 heap_two = Some s'" "uinv s' F' {}"
    "span s' F' = span heap_two {4096, 16384} \<union> {16448..<16448 + 16 * hsize heap_two 16448}" by auto
  moreover have "span heap_two {4096, 16384} \<union> {16448..<16448 + 16 * hsize heap_two 16448} = {16384..<16544}"
    by (auto simp: span_def heap_two_def)
  ultimately show ?thesis by auto
qed

text \<open>
  C37. The argument of \<^verbatim>\<open>sbrk\<close> is an \<^verbatim>\<open>int\<close>, so \<^verbatim>\<open>morecore\<close> of 4 GB asks the kernel for 16 bytes: on the first
  call, with memory for 16 more bytes, \<^verbatim>\<open>malloc(4294967295)\<close> succeeds and returns a block that ends 4 GB
  beyond the break.
\<close>

theorem malloc_huge:
  assumes "freep s = 0" and "0 < base s" and "base s < brk s" and "brk s + 16 \<le> lim s"
  shows "\<exists>s'. malloc 4294967295 s = Some (brk s + 16, s') \<and> brk s' = brk s + 16 \<and> hsize s' (brk s) = 2 ^ 28 + 1"
proof -
  let ?n = "268435457 :: nat"
  define t where "t = malloc_start s"
  have u: "malloc_units 4294967295 = ?n" by (simp add: malloc_units_def)
  have t: "freep t = base s" "hptr t (base s) = base s" "hsize t (base s) = 0" "brk t = brk s" "lim t = lim s"
    using assms(1) by (simp_all add: t_def malloc_start_def)
  let ?t = "t\<lparr>brk := brk s + 16, hsize := (hsize t)(brk s := ?n)\<rparr>"
  let ?f = "?t\<lparr>hptr := (hptr t)(brk s := base s, base s := brk s), freep := base s\<rparr>"
  have f: "free (brk s + 16) ?t = Some ?f"
    using t assms(3) by (subst free_def) (simp add: free_find.simps [of "brk s" "base s"] free_upper_def free_lower_def Let_def)
  have i: "to_int32 (?n * 16) = 16" by (simp add: to_int32_def)
  have n16: "nat (int (brk s) + 16) = brk s + 16" by simp
  have m: "morecore ?n t = Some (base s, ?f)"
    unfolding morecore_def Let_def using f assms(4) t n16 i by (simp add: sbrk_def)
  have "malloc 4294967295 s = malloc_loop ?n (base s) (base s) t" unfolding malloc_def u Let_def t_def [symmetric] by (simp add: t)
  also have "\<dots> = malloc_loop ?n (base s) (brk s) ?f"
    using m assms(2,3) t by (subst malloc_loop.simps) simp
  also have "\<dots> = Some (take_block ?n (base s) (brk s) ?f)" by (rule loop_hit) simp
  finally show ?thesis by (simp add: take_block_def)
qed

theorem malloc_huge_witness:
  "\<exists>s'. malloc 4294967295 heap_ex = Some (16400, s') \<and> brk s' = 16400 \<and> hsize s' 16384 = 2 ^ 28 + 1"
  using malloc_huge [of heap_ex] by (simp add: heap_ex_def)

end
