(* ===== verification/Primes.thy ===== *)
theory Primes
  imports Main
begin

text \<open>
  \<^verbatim>\<open>user/primes.c\<close>: a sieve in which every prime is found by a process of its own, the child of the
  process that found the one before. Each process works on its own copy of the array, as \<^verbatim>\<open>fork\<close> copies
  the memory. \<open>k\<close> is the number of calls of \<^verbatim>\<open>fork\<close> that succeed before the first one fails. The result is
  the list of the numbers printed, in order: a parent prints before it forks and then only waits.
\<close>

section \<open>The program\<close>

definition findMin :: "int list \<Rightarrow> int" where
  "findMin array = (case find (\<lambda>i. array ! i = 1) [0..<36] of Some i \<Rightarrow> int i | None \<Rightarrow> -1)"

text \<open>The loop that crosses out the multiples.\<close>

definition cross_out :: "int \<Rightarrow> int list \<Rightarrow> int list" where
  "cross_out mn array = fold (\<lambda>i a. if int i mod mn = 0 then a[i := 0] else a) [nat (mn + 1)..<36] array"

primrec primes_help :: "nat \<Rightarrow> int list \<Rightarrow> int list" where
  "primes_help 0 array =
     (let mn = findMin array in if mn = -1 then [] else [mn])"
| "primes_help (Suc k) array =
     (let mn = findMin array in
      if mn = -1 then []
      else let array = array[nat mn := 0] in
        if mn + 1 \<ge> 36 then [mn] else mn # primes_help k (cross_out mn array))"

definition primes_main :: "nat \<Rightarrow> int list" where
  "primes_main k = primes_help k ([0, 0] @ replicate 34 1)"

section \<open>It prints the primes\<close>

definition is_prime :: "nat \<Rightarrow> bool" where
  "is_prime n \<longleftrightarrow> 2 \<le> n \<and> (\<forall>d\<in>{2..<n}. \<not> d dvd n)"

text \<open>The numbers still in the array are those from \<open>m\<close> on that no smaller number divides.\<close>

definition sieved :: "nat \<Rightarrow> int list \<Rightarrow> bool" where
  "sieved m array \<longleftrightarrow> 2 \<le> m \<and> length array = 36 \<and> (\<forall>i<36. array ! i = 1 \<longleftrightarrow> m \<le> i \<and> (\<forall>d\<in>{2..<m}. \<not> d dvd i))"

lemma length_cross_out [simp]: "length (cross_out mn array) = length array"
proof -
  have "length (fold (\<lambda>i a. if int i mod mn = 0 then a[i := 0] else a) is array) = length array" for "is"
    by (induction "is" arbitrary: array) auto
  then show ?thesis by (simp add: cross_out_def)
qed

lemma cross_out_nth:
  assumes "j < length array"
  shows "cross_out mn array ! j = (if j \<in> {nat (mn + 1)..<36} \<and> int j mod mn = 0 then 0 else array ! j)"
proof -
  have "fold (\<lambda>i a. if int i mod mn = 0 then a[i := 0] else a) is array ! j =
      (if j \<in> set is \<and> int j mod mn = 0 then 0 else array ! j)" if "j < length array" for "is" array
    using that by (induction "is" arbitrary: array) (auto simp: nth_list_update mod_eq_0_iff_dvd, metis nth_list_update_neq)
  from this [OF assms, of "[nat (mn + 1)..<36]"] show ?thesis by (simp add: cross_out_def)
qed

lemma find_upt_least: "i < n \<Longrightarrow> P i \<Longrightarrow> (\<And>j. j < i \<Longrightarrow> \<not> P j) \<Longrightarrow> find P [0..<n] = Some i"
  by (auto simp: find_Some_iff intro!: exI [of _ i])

lemma not_prime_divisor:
  assumes "2 \<le> n" and "\<not> is_prime n"
  shows "\<exists>d. is_prime d \<and> d < n \<and> d dvd n"
  using assms
proof (induction n rule: less_induct)
  case (less n)
  then obtain d where d: "2 \<le> d" "d < n" "d dvd n" by (auto simp: is_prime_def)
  show ?case
  proof (cases "is_prime d")
    case False
    then obtain e where "is_prime e" "e < d" "e dvd d" using less.IH [OF d(2,1)] by blast
    then show ?thesis using d by (meson dvd_trans order.strict_trans)
  qed (use d in blast)
qed

lemma sieved_composite:
  assumes "sieved m array" and "q < 36" and "\<And>r. m \<le> r \<Longrightarrow> r \<le> q \<Longrightarrow> \<not> is_prime r"
  shows "array ! q \<noteq> 1"
proof
  assume "array ! q = 1"
  then have q: "2 \<le> m" "m \<le> q" "\<forall>d\<in>{2..<m}. \<not> d dvd q" using assms(1,2) by (auto simp: sieved_def)
  then obtain d where d: "is_prime d" "d < q" "d dvd q" using not_prime_divisor [of q] assms(3) [of q] by auto
  then have "m \<le> d" using q(3) by (auto simp: is_prime_def not_less [symmetric])
  then show False using assms(3) [of d] d by auto
qed

lemma sieved_least:
  assumes "sieved m array" and "p < 36" and "m \<le> p" and "is_prime p" and "\<And>q. m \<le> q \<Longrightarrow> q < p \<Longrightarrow> \<not> is_prime q"
  shows "findMin array = int p" and "sieved (Suc p) (cross_out (int p) (array[p := 0]))"
proof -
  have m: "2 \<le> m" and len: "length array = 36" and a: "i < 36 \<Longrightarrow> array ! i = 1 \<longleftrightarrow> m \<le> i \<and> (\<forall>d\<in>{2..<m}. \<not> d dvd i)" for i
    using assms(1) by (simp_all add: sieved_def)
  have no: "array ! q \<noteq> 1" if "q < p" for q
    using sieved_composite [OF assms(1), of q] assms(2,5) that by simp
  have "array ! p = 1" using a [OF assms(2)] assms(3,4) by (auto simp: is_prime_def)
  then show "findMin array = int p" using find_upt_least [of p 36 "\<lambda>i. array ! i = 1"] assms(2) no by (simp add: findMin_def)
  have small: "\<exists>d\<in>{2..<m}. d dvd q" if "m \<le> q" "q < p" for q using no [OF that(2)] a [of q] that assms(2) by auto
  have "cross_out (int p) (array[p := 0]) ! i = 1 \<longleftrightarrow> Suc p \<le> i \<and> (\<forall>d\<in>{2..<Suc p}. \<not> d dvd i)" if i: "i < 36" for i
  proof -
    have c: "cross_out (int p) (array[p := 0]) ! i = (if p < i \<and> p dvd i then 0 else (array[p := 0]) ! i)"
      using i len by (auto simp: cross_out_nth mod_eq_0_iff_dvd)
    have "(\<forall>d\<in>{2..<m}. \<not> d dvd i) \<and> \<not> p dvd i \<longleftrightarrow> (\<forall>d\<in>{2..<Suc p}. \<not> d dvd i)" if "p < i"
      using small assms(3) m by (auto simp: less_Suc_eq) (metis atLeastLessThan_iff dvd_trans linorder_not_less)
    then show ?thesis using c a [OF i] no [of i] assms(3) len i by (cases i p rule: linorder_cases) auto
  qed
  then show "sieved (Suc p) (cross_out (int p) (array[p := 0]))" using m assms(3) len by (simp add: sieved_def)
qed
lemma filter_least:
  assumes "filter P [m..<n] = p # ps"
  shows "m \<le> p" and "p < n" and "P p" and "\<And>q. m \<le> q \<Longrightarrow> q < p \<Longrightarrow> \<not> P q" and "ps = filter P [Suc p..<n]"
proof -
  have "p \<in> set (filter P [m..<n])" using assms by simp
  then show p: "m \<le> p" "p < n" "P p" by auto
  have split: "[m..<n] = [m..<p] @ p # [Suc p..<n]" using p(1,2) by (metis le_add_diff_inverse less_imp_le upt_add_eq_append upt_conv_Cons)
  have "sorted (filter P [m..<n])" by (simp add: sorted_wrt_filter)
  then have le: "q \<in> set (filter P [m..<n]) \<Longrightarrow> p \<le> q" for q using assms by auto
  show no: "\<not> P q" if "m \<le> q" "q < p" for q using le [of q] that p(2) by auto
  have "filter P [m..<p] = []" using no by (auto simp: filter_empty_conv)
  then show "ps = filter P [Suc p..<n]" using assms p(3) unfolding split by simp
qed

lemma help_sieves: "sieved m array \<Longrightarrow> primes_help k array = map int (take (Suc k) (filter is_prime [m..<36]))"
proof (induction k arbitrary: m array)
  case (0 m array)
  show ?case
  proof (cases "filter is_prime [m..<36]")
    case Nil
    then have "findMin array = -1" using sieved_composite [OF 0] by (auto simp: findMin_def find_None_iff filter_empty_conv split: option.split)
    then show ?thesis by (simp add: Nil)
  next
    case (Cons p ps)
    then show ?thesis using sieved_least(1) [OF 0, of p] filter_least [OF Cons] by simp
  qed
next
  case (Suc k m array)
  show ?case
  proof (cases "filter is_prime [m..<36]")
    case Nil
    then have "findMin array = -1" using sieved_composite [OF Suc.prems] by (auto simp: findMin_def find_None_iff filter_empty_conv split: option.split)
    then show ?thesis by (simp add: Nil)
  next
    case (Cons p ps)
    note f = filter_least [OF Cons]
    note l = sieved_least [OF Suc.prems f(2,1,3,4)]
    show ?thesis using l(1) f(5) Suc.IH [OF l(2)] Cons by (auto simp: Let_def)
  qed
qed

text \<open>
  C38. \<^verbatim>\<open>primes\<close> prints the primes below 36 in increasing order and nothing else; when only \<open>k\<close> calls of
  \<^verbatim>\<open>fork\<close> succeed it prints the first \<open>k + 1\<close> of them.
\<close>

theorem primes_correct: "primes_main k = map int (take (Suc k) (filter is_prime [2..<36]))"
proof -
  have "sieved 2 ([0, 0] @ replicate 34 1)" by (auto simp: sieved_def nth_append nth_Cons split: nat.split)
  then show ?thesis unfolding primes_main_def by (rule help_sieves)
qed

end
