(* ===== verification/Wc.thy ===== *)
theory Wc
  imports Prelude
begin

text \<open>
  \<^verbatim>\<open>user/wc.c\<close>. The results of the successive calls of \<^verbatim>\<open>read\<close> are a list: \<open>None\<close> is an error, \<open>Some []\<close> the
  end of the file, otherwise the bytes read. When the list ends before the file does, the program is
  still waiting in \<^verbatim>\<open>read\<close>. The counters have the width of \<^verbatim>\<open>int\<close>.
\<close>

section \<open>The program\<close>

record wc_state =
  wl :: "32 word"
  ww :: "32 word"
  wcc :: "32 word"
  inword :: bool

text \<open>\<^verbatim>\<open>strchr(" \r\t\n\v", c)\<close>; a NUL byte is not found.\<close>

definition wc_space :: "byte \<Rightarrow> bool" where
  "wc_space c \<longleftrightarrow> c \<in> {32, 13, 9, 10, 11}"

definition wc_byte :: "byte \<Rightarrow> wc_state \<Rightarrow> wc_state" where
  "wc_byte c s =
     (let s = s\<lparr>wcc := wcc s + 1\<rparr>;
          s = (if c = 10 then s\<lparr>wl := wl s + 1\<rparr> else s) in
      if wc_space c then s\<lparr>inword := False\<rparr>
      else if \<not> inword s then s\<lparr>ww := ww s + 1, inword := True\<rparr>
      else s)"

primrec wc_loop :: "byte list option list \<Rightarrow> wc_state \<Rightarrow> wc_state option outcome" where
  "wc_loop [] s = Blocks"
| "wc_loop (r # rs) s =
     (case r of None \<Rightarrow> Ok None
      | Some buf \<Rightarrow> if buf = [] then Ok (Some s) else wc_loop rs (fold wc_byte buf s))"

text \<open>\<open>None\<close> is the exit after a read error, otherwise the three numbers printed.\<close>

definition wc :: "byte list option list \<Rightarrow> (32 word \<times> 32 word \<times> 32 word) option outcome" where
  "wc reads = obind (wc_loop reads \<lparr>wl = 0, ww = 0, wcc = 0, inword = False\<rparr>) (\<lambda>r.
     Ok (map_option (\<lambda>s. (wl s, ww s, wcc s)) r))"

section \<open>What it counts\<close>

text \<open>The places where a word starts.\<close>

definition word_starts :: "byte list \<Rightarrow> nat set" where
  "word_starts xs = {i. i < length xs \<and> \<not> wc_space (xs ! i) \<and> (i = 0 \<or> wc_space (xs ! (i - 1)))}"

definition wc_spec :: "byte list \<Rightarrow> wc_state" where
  "wc_spec xs = \<lparr>wl = of_nat (length (filter (\<lambda>c. c = 10) xs)), ww = of_nat (card (word_starts xs)), wcc = of_nat (length xs),
     inword = (xs \<noteq> [] \<and> \<not> wc_space (last xs))\<rparr>"

lemma word_starts_snoc:
  "word_starts (xs @ [c]) = (if wc_space c \<or> xs \<noteq> [] \<and> \<not> wc_space (last xs) then word_starts xs else insert (length xs) (word_starts xs))"
proof (cases "xs = []")
  case False
  then have "last xs = xs ! (length xs - 1)" "length xs - 1 < length xs" by (simp_all add: last_conv_nth)
  then show ?thesis by (auto simp: word_starts_def nth_append less_Suc_eq)
qed (auto simp: word_starts_def)

lemma wc_byte_spec: "wc_byte c (wc_spec xs) = wc_spec (xs @ [c])"
proof -
  have "finite (word_starts xs)" "length xs \<notin> word_starts xs" by (simp_all add: word_starts_def)
  then show ?thesis by (auto simp: wc_byte_def wc_spec_def word_starts_snoc Let_def)
qed

lemma wc_bytes_spec: "fold wc_byte ys (wc_spec xs) = wc_spec (xs @ ys)"
  by (induction ys arbitrary: xs) (simp_all add: wc_byte_spec)

lemma wc_loop_spec:
  "\<forall>b\<in>set bs. b \<noteq> [] \<Longrightarrow> wc_loop (map Some bs @ [Some []]) (wc_spec xs) = Ok (Some (wc_spec (xs @ concat bs)))"
  by (induction bs arbitrary: xs) (simp_all add: wc_bytes_spec)

text \<open>
  C39. \<^verbatim>\<open>wc\<close> prints the number of newlines, of words (maximal runs of bytes that are not white space) and
  of bytes of the file, modulo the width of \<^verbatim>\<open>int\<close>, however \<^verbatim>\<open>read\<close> cuts the file into buffers: a word that
  is split between two reads counts once.
\<close>

theorem wc_correct:
  assumes "\<forall>b\<in>set bufs. b \<noteq> []"
  shows "wc (map Some bufs @ [Some []]) =
    Ok (Some (of_nat (length (filter (\<lambda>c. c = 10) (concat bufs))), of_nat (card (word_starts (concat bufs))), of_nat (length (concat bufs))))"
proof -
  have "wc_spec [] = \<lparr>wl = 0, ww = 0, wcc = 0, inword = False\<rparr>" by (simp add: wc_spec_def word_starts_def)
  then show ?thesis using wc_loop_spec [OF assms, of "[]"] by (simp add: wc_def wc_spec_def)
qed

lemma word_starts_code: "word_starts xs = set (filter (\<lambda>i. \<not> wc_space (xs ! i) \<and> (i = 0 \<or> wc_space (xs ! (i - 1)))) [0..<length xs])"
  by (auto simp: word_starts_def)

theorem wc_correct_witness:
  "wc [Some [104, 105, 32, 121], Some [111, 10], Some []] = Ok (Some (1, 2, 6))"
proof -
  have "word_starts [104, 105, 32, 121, 111, 10] = {0, Suc (Suc (Suc 0))}"
    unfolding word_starts_code by (simp add: wc_space_def upt_rec)
  then show ?thesis using wc_correct [of "[[104, 105, 32, 121], [111, 10]]"] by simp
qed

end
