(* ===== verification/Spec2Isabelle.thy ===== *)
theory Spec2Isabelle
  imports Kstring Spinlock Ucopy Trap Grep Pipe Sched Alloc Reserve Inode Mkimage Umalloc Primes Wc
begin

text \<open>
  A verification library for the xv6 kernel of this repository (\<^verbatim>\<open>src/kernel\<close>), its user
  programs (\<^verbatim>\<open>src/user\<close>) and its file-system builder (\<^verbatim>\<open>src/mkfs\<close>).
\<close>

end
